(* ===== verification/Navy_Prelude.thy ===== *)
theory Navy_Prelude
  imports Main "HOL-Library.Word" "HOL-Library.Signed_Division"
begin

text \<open>
  The types, constants and generic facts that every component of the kernel model shares:
  fixed-width integers, byte memory, \<open>range_t\<close> (\<^verbatim>\<open>libs/navy/range.h\<close>), the alignment
  macros (\<^verbatim>\<open>libs/navy/macro.h\<close>), the page size (\<^verbatim>\<open>arch/x86_64/consts.h\<close>), the ways
  in which kernel code can stop, and lemmas about counting with 64-bit words.
\<close>

unbundle bit_operations_syntax

section \<open>Machine integers and memory\<close>

type_synonym u8 = "8 word"
type_synonym u16 = "16 word"
type_synonym u32 = "32 word"
type_synonym u64 = "64 word"

text \<open>Memory as the code sees it through \<^verbatim>\<open>char *\<close>: a byte at every 64-bit address.\<close>

type_synonym mem = "u64 \<Rightarrow> u8"

text \<open>
  \<open>char_lit c\<close> is the C character constant; \<open>cstring s\<close> the bytes of a string literal
  without the terminator.
\<close>

definition char_lit :: "char \<Rightarrow> u8" where
  "char_lit c = of_char c"

definition cstring :: "string \<Rightarrow> u8 list" where
  "cstring s = map of_char s"

text \<open>\<open>store_bytes m p bs\<close>: the memory in which the bytes \<open>bs\<close> start at \<open>p\<close>.\<close>

fun store_bytes :: "mem \<Rightarrow> u64 \<Rightarrow> u8 list \<Rightarrow> mem" where
  "store_bytes m p [] = m"
| "store_bytes m p (b # bs) = store_bytes (m(p := b)) (p + 1) bs"

text \<open>Little-endian reads of the integers a structure in memory holds.\<close>

definition load16 :: "mem \<Rightarrow> u64 \<Rightarrow> u16" where
  "load16 m p = ucast (m p) OR push_bit 8 (ucast (m (p + 1)))"

definition load32 :: "mem \<Rightarrow> u64 \<Rightarrow> u32" where
  "load32 m p = ucast (load16 m p) OR push_bit 16 (ucast (load16 m (p + 2)))"

definition load64 :: "mem \<Rightarrow> u64 \<Rightarrow> u64" where
  "load64 m p = ucast (load32 m p) OR push_bit 32 (ucast (load32 m (p + 4)))"

section \<open>Outcomes\<close>

text \<open>
  How a kernel function can end. \<^verbatim>\<open>ASSERT\<close> prints and raises interrupt 1, whose handler
  halts the machine (\<^verbatim>\<open>libs/ansi/assert.c\<close>, \<^verbatim>\<open>arch/x86_64/interrupt.c\<close>), so a failed
  assertion ends the computation; \<open>Hang\<close> is a loop or a recursion that never ends.
\<close>

datatype fault =
    Assert_failed
  | Null_deref
  | Null_call
  | Out_of_bounds
  | Division_by_zero

datatype 'a outcome = Done 'a | Fault fault | Hang

primrec bind_o :: "'a outcome \<Rightarrow> ('a \<Rightarrow> 'b outcome) \<Rightarrow> 'b outcome" where
  "bind_o (Done x) f = f x"
| "bind_o (Fault e) f = Fault e"
| "bind_o Hang f = Hang"

definition kassert :: "bool \<Rightarrow> 'a outcome \<Rightarrow> 'a outcome" where
  "kassert c k = (if c then k else Fault Assert_failed)"

definition of_option :: "'a option \<Rightarrow> 'a outcome" where
  "of_option r = (case r of None \<Rightarrow> Hang | Some x \<Rightarrow> Done x)"

lemma bind_o_Done_iff: "bind_o r f = Done y \<longleftrightarrow> (\<exists>x. r = Done x \<and> f x = Done y)"
  by (cases r) auto

lemma bind_o_DoneE [elim!]:
  assumes "bind_o r f = Done y"
  obtains x where "r = Done x" "f x = Done y"
  using assms by (auto simp: bind_o_Done_iff)

lemma kassert_Done_iff [simp]: "kassert c k = Done y \<longleftrightarrow> c \<and> k = Done y"
  by (simp add: kassert_def)

lemma kassert_simps [simp]:
  "kassert True k = k"
  "kassert False k = Fault Assert_failed"
  by (simp_all add: kassert_def)

lemma of_option_simps [simp]:
  "of_option None = Hang"
  "of_option (Some x) = Done x"
  by (simp_all add: of_option_def)

lemma of_option_Done_iff [simp]: "of_option r = Done x \<longleftrightarrow> r = Some x"
  by (cases r) simp_all

text \<open>
  The spin lock of \<^verbatim>\<open>arch/cross-x86/lock.s\<close> on one processor: taking a lock whose bit is
  set spins for ever, since nothing can run to release it while interrupts are off.
\<close>

definition arch_acquire :: "u32 \<Rightarrow> u32 outcome" where
  "arch_acquire lock = (if bit lock 0 then Hang else Done (set_bit 0 lock))"

definition arch_release :: "u32 \<Rightarrow> u32" where
  "arch_release lock = 0"

lemma arch_acquire_free [simp]: "arch_acquire 0 = Done 1"
  by (simp add: arch_acquire_def set_bit_eq)

section \<open>Ranges, pages and alignment\<close>

record range_t =
  rbase :: u64
  rlength :: u64

definition range_end :: "range_t \<Rightarrow> u64" where
  "range_end this = rbase this + rlength this"

definition PAGE_SIZE :: u64 where
  "PAGE_SIZE = 4096"

definition ALIGN_DOWN :: "u64 \<Rightarrow> u64 \<Rightarrow> u64" where
  "ALIGN_DOWN addr align = addr AND NOT (align - 1)"

definition ALIGN_UP :: "u64 \<Rightarrow> u64 \<Rightarrow> u64" where
  "ALIGN_UP addr align = (addr + align - 1) AND NOT (align - 1)"

section \<open>Masks\<close>

named_theorems mask_simps \<open>conjunction with the masks of the code, as truncation\<close>

lemma and_mask_literals [mask_simps]:
  "(v :: 'a::len word) AND 0xf = take_bit 4 v"
  "v AND 0xff = take_bit 8 v"
  "v AND 0xffff = take_bit 16 v"
  "v AND 0xFFFFFFFF = take_bit 32 v"
  by (simp_all add: take_bit_eq_mask mask_eq_exp_minus_1)

text \<open>Reassembling a word from slices.\<close>

lemma glue_bits [mask_simps]:
  "take_bit n a OR push_bit n (take_bit m (drop_bit n a)) = take_bit (n + m) (a :: 'a::len word)"
proof (rule bit_word_eqI)
  fix k
  assume "k < LENGTH('a)"
  then show "bit (take_bit n a OR push_bit n (take_bit m (drop_bit n a))) k = bit (take_bit (n + m) a) k"
    by (cases "k < n") (auto simp: bit_simps less_diff_conv2)
qed

lemma glue_bits_more [mask_simps]:
  "take_bit n a OR push_bit n (take_bit m (drop_bit n a)) OR c = take_bit (n + m) (a :: 'a::len word) OR c"
  by (simp add: or.assoc [symmetric] glue_bits)

lemma ucast_down_up: "ucast (ucast (a :: 'a::len word) :: 'b::len word) = take_bit LENGTH('b) a"
  by (auto simp: bit_simps intro!: bit_word_eqI)

lemma and_push_mask:
  "(v :: 'a::len word) AND push_bit n (mask m) = push_bit n (take_bit m (drop_bit n v))"
proof (rule bit_word_eqI)
  fix k
  assume "k < LENGTH('a)"
  then show "bit (v AND push_bit n (mask m)) k = bit (push_bit n (take_bit m (drop_bit n v))) k"
    by (cases "k < n") (auto simp: bit_simps)
qed

lemma take_bit_eq_bits:
  "take_bit m a = take_bit m b \<longleftrightarrow> (\<forall>n<m. bit a n = bit (b :: 'a::len word) n)"
proof
  assume "take_bit m a = take_bit m b"
  then have "\<forall>n. bit (take_bit m a) n = bit (take_bit m b) n" by simp
  then show "\<forall>n<m. bit a n = bit b n" by (auto simp: bit_take_bit_iff)
qed (auto simp: bit_simps intro!: bit_word_eqI)

lemma bit_high: "LENGTH('a) \<le> k \<Longrightarrow> \<not> bit (w :: 'a::len word) k"
  by (simp add: impossible_bit)

section \<open>Counting with words\<close>

named_theorems word_count \<open>unsigned arithmetic without wrap-around\<close>

lemma unat_less_bound: "unat (i :: 'a::len word) < 2 ^ LENGTH('a)"
  by transfer (simp add: nat_less_iff)

lemma unat_Suc_less [word_count]: "(i :: 'a::len word) < n \<Longrightarrow> unat (i + 1) = Suc (unat i)"
proof -
  assume "i < n"
  then have "unat i < unat n" by (simp add: word_less_nat_alt)
  with unat_less_bound [of n] have "Suc (unat i) < 2 ^ LENGTH('a)" by linarith
  then show ?thesis by (simp add: unat_plus_if')
qed

lemma word_Suc_le [word_count]: "(i :: 'a::len word) < n \<Longrightarrow> i + 1 \<le> n"
  by (rule inc_le)

lemma unat_of_nat_less [word_count]:
  "k < 2 ^ LENGTH('a) \<Longrightarrow> unat (of_nat k :: 'a::len word) = k"
  by (simp add: unat_of_nat)

lemma u64_of_nat_inj:
  assumes "i < 2 ^ 64" "j < 2 ^ 64"
  shows "(of_nat i :: u64) = of_nat j \<longleftrightarrow> i = j"
proof -
  have "unat (of_nat i :: u64) = i" "unat (of_nat j :: u64) = j"
    using assms by (simp_all add: unat_of_nat)
  then show ?thesis by metis
qed

lemma u64_offset_inj:
  "i < 2 ^ 64 \<Longrightarrow> j < 2 ^ 64 \<Longrightarrow> (p :: u64) + of_nat i = p + of_nat j \<longleftrightarrow> i = j"
  by (simp only: add_left_cancel u64_of_nat_inj)

lemma u64_neq_offset: "0 < k \<Longrightarrow> k < 2 ^ 64 \<Longrightarrow> (p :: u64) + of_nat k \<noteq> p"
  using u64_offset_inj [of k 0 p] by simp

lemma unat_add_less [word_count]:
  "unat (a :: 'a::len word) + unat b < 2 ^ LENGTH('a) \<Longrightarrow> unat (a + b) = unat a + unat b"
  by (simp add: unat_add_lem)

section \<open>Alignment to pages\<close>

lemma and_not_low_bits: "(a :: u64) AND - 4096 = push_bit 12 (drop_bit 12 a)"
proof -
  have "(- 4096 :: u64) = NOT (mask 12)" by (simp add: mask_eq_exp_minus_1)
  then show ?thesis by (simp add: bit_eq_iff bit_simps) auto
qed

lemma ALIGN_DOWN_page: "ALIGN_DOWN a PAGE_SIZE = a div 4096 * 4096"
  by (simp add: ALIGN_DOWN_def PAGE_SIZE_def and_not_low_bits push_bit_eq_mult drop_bit_eq_div)

lemma ALIGN_UP_page: "ALIGN_UP a PAGE_SIZE = (a + 4095) div 4096 * 4096"
  using ALIGN_DOWN_page [of "a + 4095"]
  by (simp add: ALIGN_DOWN_def ALIGN_UP_def PAGE_SIZE_def add.commute)

lemma unat_div_page: "unat (a div (4096 :: u64)) = unat a div 4096"
  by (simp add: unat_div)

lemma unat_page_round: "unat (a div 4096 * (4096 :: u64)) = unat a div 4096 * 4096"
proof -
  have "unat a div 4096 * 4096 \<le> unat a" by simp
  also have "unat a < 2 ^ 64" using unat_less_bound [of a] by simp
  finally show ?thesis by (simp add: unat_word_ariths unat_div_page)
qed

lemma unat_ALIGN_DOWN_page: "unat (ALIGN_DOWN a PAGE_SIZE) = unat a div 4096 * 4096"
  by (simp add: ALIGN_DOWN_page unat_page_round)

lemma unat_ALIGN_UP_page:
  "unat a + 4095 < 2 ^ 64 \<Longrightarrow> unat (ALIGN_UP a PAGE_SIZE) = (unat a + 4095) div 4096 * 4096"
  by (simp add: ALIGN_UP_page unat_page_round unat_add_less)

end
