(* ===== verification/Navy_Map.thy ===== *)
theory Navy_Map
  imports Navy_Prelude "HOL-Library.Multiset"
begin

text \<open>
  The hash map of \<^verbatim>\<open>libs/navy/map.c\<close> and \<^verbatim>\<open>map.h\<close>. A chain of nodes is the list of its nodes
  in order (every node hangs in exactly one chain), \<open>buckets\<close> the array of chains, whose length
  is \<^verbatim>\<open>nbuckets\<close>. A reference to a link (\<^verbatim>\<open>map_node_t **\<close>) is the bucket and the position of the
  node it points to. Keys are strings without the terminator, compared as \<^verbatim>\<open>strcmp\<close> does
  (theory \<open>Navy_String\<close>). Whether \<^verbatim>\<open>malloc\<close> and \<^verbatim>\<open>realloc\<close> succeed are arguments.
\<close>

section \<open>Nodes and hashing\<close>

record 'v map_node =
  nd_hash :: u32
  nd_key :: "u8 list"
  nd_value :: 'v

record 'v map_base =
  buckets :: "'v map_node list list"
  nnodes :: u32

definition nbuckets :: "'v map_base \<Rightarrow> u32" where
  "nbuckets m = of_nat (length (buckets m))"

definition map_init :: "'v map_base" where
  "map_init = \<lparr>buckets = [], nnodes = 0\<rparr>"

text \<open>\<^verbatim>\<open>char\<close> is signed here, so a byte is sign-extended before the exclusive or.\<close>

fun map_hash_loop :: "u32 \<Rightarrow> u8 list \<Rightarrow> u32" where
  "map_hash_loop hash [] = hash"
| "map_hash_loop hash (c # str) = map_hash_loop ((push_bit 5 hash + hash) XOR scast c) str"

definition map_hash :: "u8 list \<Rightarrow> u32" where
  "map_hash str = map_hash_loop 5381 str"

definition map_newnode :: "bool \<Rightarrow> u8 list \<Rightarrow> 'v \<Rightarrow> 'v map_node option" where
  "map_newnode mem_ok key val =
     (if mem_ok then Some \<lparr>nd_hash = map_hash key, nd_key = key, nd_value = val\<rparr> else None)"

definition map_bucketidx :: "'v map_base \<Rightarrow> u32 \<Rightarrow> nat" where
  "map_bucketidx m hash = unat (hash AND (nbuckets m - 1))"

section \<open>Adding and resizing\<close>

definition map_addnode :: "'v map_node \<Rightarrow> 'v map_base \<Rightarrow> 'v map_base" where
  "map_addnode node m =
     (let n = map_bucketidx m (nd_hash node) in
      m\<lparr>buckets := (buckets m)[n := node # buckets m ! n]\<rparr>)"

text \<open>The inner loop moves the nodes of one bucket to the front of the collected chain.\<close>

fun chain_bucket :: "'v map_node list \<Rightarrow> 'v map_node list \<Rightarrow> 'v map_node list" where
  "chain_bucket [] nodes = nodes"
| "chain_bucket (node # rest) nodes = chain_bucket rest (node # nodes)"

text \<open>The outer loop runs from the last bucket to the first.\<close>

fun chain_all :: "nat \<Rightarrow> 'v map_node list list \<Rightarrow> 'v map_node list \<Rightarrow> 'v map_node list" where
  "chain_all 0 bs nodes = nodes"
| "chain_all (Suc i) bs nodes = chain_all i bs (chain_bucket (bs ! i) nodes)"

fun readd :: "'v map_node list \<Rightarrow> 'v map_base \<Rightarrow> 'v map_base" where
  "readd [] m = m"
| "readd (node # rest) m = readd rest (map_addnode node m)"

text \<open>The result is true for success (0) and false for the error code.\<close>

definition map_resize :: "bool \<Rightarrow> u32 \<Rightarrow> 'v map_base \<Rightarrow> bool \<times> 'v map_base" where
  "map_resize realloc_ok n m =
     (let nodes = chain_all (length (buckets m)) (buckets m) [];
          k = (if realloc_ok then unat n else length (buckets m));
          m = m\<lparr>buckets := replicate k []\<rparr>
      in (realloc_ok, if buckets m \<noteq> [] then readd nodes m else m))"

section \<open>Looking up\<close>

fun chain_find :: "u32 \<Rightarrow> u8 list \<Rightarrow> 'v map_node list \<Rightarrow> nat option" where
  "chain_find hash key [] = None"
| "chain_find hash key (node # rest) =
     (if nd_hash node = hash \<and> nd_key node = key then Some 0
      else map_option Suc (chain_find hash key rest))"

definition map_getref :: "'v map_base \<Rightarrow> u8 list \<Rightarrow> (nat \<times> nat) option" where
  "map_getref m key =
     (let hash = map_hash key in
      if nbuckets m > 0
      then let b = map_bucketidx m hash in map_option (Pair b) (chain_find hash key (buckets m ! b))
      else None)"

definition map_get :: "'v map_base \<Rightarrow> u8 list \<Rightarrow> 'v option" where
  "map_get m key = map_option (\<lambda>(b, p). nd_value (buckets m ! b ! p)) (map_getref m key)"

section \<open>Updating\<close>

definition map_set ::
  "bool \<Rightarrow> bool \<Rightarrow> 'v map_base \<Rightarrow> u8 list \<Rightarrow> 'v \<Rightarrow> bool \<times> 'v map_base" where
  "map_set mem_ok realloc_ok m key val =
     (case map_getref m key of
        Some (b, p) \<Rightarrow>
          (True, m\<lparr>buckets := (buckets m)[b := (buckets m ! b)[p := (buckets m ! b ! p)\<lparr>nd_value := val\<rparr>]]\<rparr>)
      | None \<Rightarrow>
          (case map_newnode mem_ok key val of
             None \<Rightarrow> (False, m)
           | Some node \<Rightarrow>
               let (ok, m') =
                 (if nnodes m \<ge> nbuckets m
                  then map_resize realloc_ok (if nbuckets m > 0 then push_bit 1 (nbuckets m) else 1) m
                  else (True, m))
               in if ok
                  then (True, (map_addnode node m')\<lparr>nnodes := nnodes m' + 1\<rparr>)
                  else (False, m')))"

definition map_remove :: "'v map_base \<Rightarrow> u8 list \<Rightarrow> 'v map_base" where
  "map_remove m key =
     (case map_getref m key of
        None \<Rightarrow> m
      | Some (b, p) \<Rightarrow>
          m\<lparr>buckets := (buckets m)[b := take p (buckets m ! b) @ drop (Suc p) (buckets m ! b)],
            nnodes := nnodes m - 1\<rparr>)"

text \<open>The nodes and arrays \<^verbatim>\<open>map_deinit_\<close> gives to \<^verbatim>\<open>free\<close>, in order.\<close>

fun deinit_loop :: "nat \<Rightarrow> 'v map_node list list \<Rightarrow> 'v map_node list" where
  "deinit_loop 0 bs = []"
| "deinit_loop (Suc i) bs = bs ! i @ deinit_loop i bs"

definition map_deinit :: "'v map_base \<Rightarrow> 'v map_node list" where
  "map_deinit m = deinit_loop (length (buckets m)) (buckets m)"

section \<open>Iteration\<close>

text \<open>The current node is the rest of its chain that starts with it; \<open>[]\<close> is no node.\<close>

record 'v map_iter =
  bucketidx :: u32
  it_node :: "'v map_node list"

definition map_iter_start :: "'v map_iter" where
  "map_iter_start = \<lparr>bucketidx = - 1, it_node = []\<rparr>"

function next_bucket :: "'v map_base \<Rightarrow> nat \<Rightarrow> 'v map_iter" where
  "next_bucket m i =
     (if i < length (buckets m)
      then if buckets m ! i = [] then next_bucket m (Suc i)
           else \<lparr>bucketidx = of_nat i, it_node = buckets m ! i\<rparr>
      else \<lparr>bucketidx = of_nat i, it_node = []\<rparr>)"
  by auto
termination
  by (relation "measure (\<lambda>(m, i). length (buckets m) - i)") auto

declare next_bucket.simps [simp del]

definition map_next :: "'v map_base \<Rightarrow> 'v map_iter \<Rightarrow> u8 list option \<times> 'v map_iter" where
  "map_next m iter =
     (let iter' = (if tl (it_node iter) \<noteq> [] then iter\<lparr>it_node := tl (it_node iter)\<rparr>
                   else next_bucket m (unat (bucketidx iter + 1)))
      in (case it_node iter' of [] \<Rightarrow> None | node # _ \<Rightarrow> Some (nd_key node), iter'))"

section \<open>The invariant and the abstract map\<close>

definition nodes_of :: "'v map_base \<Rightarrow> 'v map_node list" where
  "nodes_of m = concat (buckets m)"

definition map_abs :: "'v map_base \<Rightarrow> u8 list \<Rightarrow> 'v option" where
  "map_abs m = map_of (map (\<lambda>n. (nd_key n, nd_value n)) (nodes_of m))"

definition sized :: "'v map_base \<Rightarrow> bool" where
  "sized m \<longleftrightarrow> (\<exists>k\<le>31. length (buckets m) = 2 ^ k)"

definition placed :: "'v map_base \<Rightarrow> bool" where
  "placed m \<longleftrightarrow> (\<forall>b<length (buckets m). \<forall>n\<in>set (buckets m ! b).
     nd_hash n = map_hash (nd_key n) \<and> map_bucketidx m (nd_hash n) = b)"

definition map_ok :: "'v map_base \<Rightarrow> bool" where
  "map_ok m \<longleftrightarrow> (buckets m = [] \<or> sized m) \<and> placed m \<and> distinct (map nd_key (nodes_of m)) \<and>
     nnodes m = of_nat (length (nodes_of m)) \<and> length (nodes_of m) \<le> length (buckets m)"

lemma map_ok_init [simp]: "map_ok map_init" "map_abs map_init = Map.empty"
  by (simp_all add: map_ok_def map_init_def placed_def nodes_of_def map_abs_def)

lemma bucketidx_less: "sized m \<Longrightarrow> map_bucketidx m h < length (buckets m)"
proof -
  assume "sized m"
  then obtain k where k: "k \<le> 31" "length (buckets m) = 2 ^ k" by (auto simp: sized_def)
  have "nbuckets m - 1 = mask k" by (simp add: nbuckets_def k mask_eq_exp_minus_1)
  then have "map_bucketidx m h = take_bit k (unat h)"
    by (simp add: map_bucketidx_def take_bit_eq_mask [symmetric] unsigned_take_bit_eq)
  then show ?thesis by (simp add: k)
qed

lemma nbuckets_pos: "sized m \<Longrightarrow> nbuckets m > 0"
proof -
  assume "sized m"
  then obtain k where k: "k \<le> 31" "length (buckets m) = 2 ^ k" by (auto simp: sized_def)
  have "(2 :: nat) ^ k < 2 ^ 32" using k(1) by (intro power_strict_increasing) simp_all
  then have "unat (nbuckets m) = 2 ^ k" using k(2) by (simp add: nbuckets_def unat_of_nat_less del: of_nat_power)
  then show ?thesis by (metis gr0I power_eq_0_iff unat_0 word_gt_0 zero_neq_numeral)
qed

lemma nnodes_frame [simp]:
  "placed (m\<lparr>nnodes := k\<rparr>) = placed m" "sized (m\<lparr>nnodes := k\<rparr>) = sized m"
  "nodes_of (m\<lparr>nnodes := k\<rparr>) = nodes_of m"
  by (simp_all add: placed_def sized_def nodes_of_def map_bucketidx_def nbuckets_def)

lemma mset_concat_update:
  "n < length bs \<Longrightarrow> mset (concat (bs[n := c])) + mset (bs ! n) = mset (concat bs) + mset c"
proof (induction bs arbitrary: n)
  case (Cons b bs)
  then show ?case
  proof (cases n)
    case (Suc n')
    with Cons.IH [of n'] Cons.prems show ?thesis
      by (simp add: add.commute [of "mset b"] add.assoc union_assoc)
  qed (simp add: ac_simps)
qed simp

lemma nth_in_concat: "b < length bs \<Longrightarrow> x \<in> set (bs ! b) \<Longrightarrow> x \<in> set (concat bs)"
  by (auto intro: nth_mem)

lemma node_bucketE:
  assumes "n \<in> set (nodes_of m)"
  obtains b where "b < length (buckets m)" "n \<in> set (buckets m ! b)"
proof -
  from assms obtain c where "c \<in> set (buckets m)" "n \<in> set c" by (auto simp: nodes_of_def)
  then show thesis using that by (metis in_set_conv_nth)
qed

lemma placedD:
  "placed m \<Longrightarrow> b < length (buckets m) \<Longrightarrow> n \<in> set (buckets m ! b) \<Longrightarrow>
   nd_hash n = map_hash (nd_key n) \<and> map_bucketidx m (nd_hash n) = b"
  unfolding placed_def by blast

lemma abs_iff:
  "distinct (map nd_key (nodes_of m)) \<Longrightarrow>
   map_abs m k = Some v \<longleftrightarrow> (\<exists>n\<in>set (nodes_of m). nd_key n = k \<and> nd_value n = v)"
  unfolding map_abs_def by (subst map_of_eq_Some_iff) (auto simp: comp_def)

lemma distinct_keys_mset:
  "image_mset nd_key (mset xs) = image_mset nd_key (mset ys) \<Longrightarrow>
   distinct (map nd_key xs) = distinct (map nd_key ys)"
  by (metis mset_eq_imp_distinct_iff mset_map)

section \<open>Adding nodes\<close>

lemma addnode_spec:
  assumes "sized m" "placed m" "nd_hash x = map_hash (nd_key x)"
  shows "sized (map_addnode x m)" "placed (map_addnode x m)"
    "mset (nodes_of (map_addnode x m)) = add_mset x (mset (nodes_of m))"
    "length (buckets (map_addnode x m)) = length (buckets m)" "nnodes (map_addnode x m) = nnodes m"
proof -
  let ?b = "map_bucketidx m (nd_hash x)"
  have b: "?b < length (buckets m)" by (rule bucketidx_less [OF assms(1)])
  show len: "length (buckets (map_addnode x m)) = length (buckets m)"
    by (simp add: map_addnode_def Let_def)
  then show "sized (map_addnode x m)" using assms(1) by (simp add: sized_def)
  have idx: "map_bucketidx (map_addnode x m) h = map_bucketidx m h" for h
    using len by (simp add: map_bucketidx_def nbuckets_def)
  show "placed (map_addnode x m)"
    unfolding placed_def idx len
  proof (intro allI impI ballI)
    fix c n
    assume c: "c < length (buckets m)" and n: "n \<in> set (buckets (map_addnode x m) ! c)"
    then have "n = x \<and> c = ?b \<or> n \<in> set (buckets m ! c)"
      by (cases "c = ?b") (auto simp: map_addnode_def Let_def)
    then show "nd_hash n = map_hash (nd_key n) \<and> map_bucketidx m (nd_hash n) = c"
      using assms(3) placedD [OF assms(2) c] by blast
  qed
  show "mset (nodes_of (map_addnode x m)) = add_mset x (mset (nodes_of m))"
    using mset_concat_update [OF b, of "x # buckets m ! ?b"]
    by (simp add: map_addnode_def Let_def nodes_of_def)
  show "nnodes (map_addnode x m) = nnodes m" by (simp add: map_addnode_def Let_def)
qed

lemma readd_spec:
  "sized m \<Longrightarrow> placed m \<Longrightarrow> (\<And>x. x \<in> set xs \<Longrightarrow> nd_hash x = map_hash (nd_key x)) \<Longrightarrow>
   sized (readd xs m) \<and> placed (readd xs m) \<and>
   mset (nodes_of (readd xs m)) = mset xs + mset (nodes_of m) \<and>
   length (buckets (readd xs m)) = length (buckets m) \<and> nnodes (readd xs m) = nnodes m"
proof (induction xs arbitrary: m)
  case (Cons x xs)
  note a = addnode_spec [OF Cons.prems(1,2) Cons.prems(3) [of x]]
  show ?case using Cons.IH [of "map_addnode x m"] a Cons.prems by simp
qed simp

lemma chain_bucket_rev: "chain_bucket c xs = rev c @ xs"
  by (induction c arbitrary: xs) simp_all

lemma chain_all_mset:
  "i \<le> length bs \<Longrightarrow> mset (chain_all i bs xs) = mset (concat (take i bs)) + mset xs"
  by (induction i arbitrary: xs) (simp_all add: chain_bucket_rev take_Suc_conv_app_nth)

lemma resize_spec:
  assumes "map_ok m" "realloc_ok \<Longrightarrow> \<exists>k\<le>31. unat n = 2 ^ k"
    and "map_resize realloc_ok n m = (ok, m')"
  shows "ok = realloc_ok" "mset (nodes_of m') = mset (nodes_of m)" "placed m'" "nnodes m' = nnodes m"
    "length (buckets m') = (if realloc_ok then unat n else length (buckets m))"
proof -
  let ?k = "if realloc_ok then unat n else length (buckets m)"
  let ?m = "m\<lparr>buckets := replicate ?k []\<rparr>"
  let ?xs = "chain_all (length (buckets m)) (buckets m) []"
  have m': "ok = realloc_ok" "m' = (if ?k \<noteq> 0 then readd ?xs ?m else ?m)"
    using assms(3) by (auto simp: map_resize_def Let_def)
  show "ok = realloc_ok" by (rule m')
  have xs: "mset ?xs = mset (nodes_of m)" by (simp add: chain_all_mset nodes_of_def)
  have pl: "placed ?m" by (simp add: placed_def)
  have em: "nodes_of ?m = []" by (simp add: nodes_of_def)
  have "mset (nodes_of m') = mset (nodes_of m) \<and> placed m' \<and> nnodes m' = nnodes m \<and>
      length (buckets m') = ?k"
  proof (cases "?k = 0")
    case True
    then have "buckets m = []" using assms(2) by (auto split: if_splits)
    with True m' pl em show ?thesis by (auto simp: nodes_of_def)
  next
    case False
    then have sz: "sized ?m"
      using assms(1,2) by (auto simp: map_ok_def sized_def split: if_splits)
    have "nd_hash x = map_hash (nd_key x)" if "x \<in> set ?xs" for x
    proof -
      have "x \<in> set (nodes_of m)" using that xs by (metis set_mset_mset)
      then show ?thesis
        using assms(1) placedD [of m] unfolding map_ok_def by (metis node_bucketE)
    qed
    from readd_spec [OF sz pl this] m' False xs em show ?thesis by simp
  qed
  then show "mset (nodes_of m') = mset (nodes_of m)" "placed m'" "nnodes m' = nnodes m"
    "length (buckets m') = ?k" by blast+
qed

section \<open>Looking up\<close>

lemma chain_find_Some:
  "chain_find h k c = Some p \<Longrightarrow> p < length c \<and> nd_hash (c ! p) = h \<and> nd_key (c ! p) = k"
  by (induction c arbitrary: p) (auto split: if_splits)

lemma chain_find_None:
  "chain_find h k c = None \<Longrightarrow> n \<in> set c \<Longrightarrow> nd_hash n = h \<Longrightarrow> nd_key n \<noteq> k"
  by (induction c) (auto split: if_splits)

lemma getref_Some:
  assumes "map_ok m" "map_getref m key = Some (b, p)"
  shows "b < length (buckets m)" "p < length (buckets m ! b)" "nd_key (buckets m ! b ! p) = key" "sized m"
proof -
  have sz: "sized m"
    using assms by (auto simp: map_ok_def map_getref_def Let_def nbuckets_def split: if_splits)
  then show "b < length (buckets m)" "p < length (buckets m ! b)" "nd_key (buckets m ! b ! p) = key" "sized m"
    using assms(2) bucketidx_less [OF sz]
    by (auto simp: map_getref_def Let_def split: if_splits dest: chain_find_Some)
qed

lemma getref_None:
  assumes "map_ok m" "map_getref m key = None" "n \<in> set (nodes_of m)"
  shows "nd_key n \<noteq> key"
proof
  assume key: "nd_key n = key"
  obtain b where b: "b < length (buckets m)" "n \<in> set (buckets m ! b)"
    using assms(3) by (rule node_bucketE)
  have "placed m" using assms(1) by (simp add: map_ok_def)
  from placedD [OF this b] key have n: "nd_hash n = map_hash key" "map_bucketidx m (map_hash key) = b"
    by auto
  have "sized m" using assms(1) b(1) by (auto simp: map_ok_def)
  then have "chain_find (map_hash key) key (buckets m ! b) = None"
    using assms(2) n(2) nbuckets_pos [of m] by (simp add: map_getref_def Let_def)
  from chain_find_None [OF this b(2) n(1)] key show False by simp
qed

lemma get_abs:
  assumes "map_ok m"
  shows "map_get m key = map_abs m key"
proof (cases "map_getref m key")
  case None
  then have "map_abs m key = None"
    using getref_None [OF assms None] abs_iff [of m key] assms
    by (cases "map_abs m key") (auto simp: map_ok_def)
  with None show ?thesis by (simp add: map_get_def)
next
  case (Some bp)
  then obtain b p where bp: "map_getref m key = Some (b, p)" by (cases bp) auto
  note g = getref_Some [OF assms bp]
  have "buckets m ! b ! p \<in> set (nodes_of m)"
    unfolding nodes_of_def by (rule nth_in_concat [OF g(1) nth_mem [OF g(2)]])
  then have "map_abs m key = Some (nd_value (buckets m ! b ! p))"
    using abs_iff [of m key] assms g(3) by (auto simp: map_ok_def)
  with bp show ?thesis by (simp add: map_get_def)
qed

section \<open>Updating\<close>

text \<open>Two maps whose nodes differ only under one key agree elsewhere.\<close>

lemma abs_other:
  assumes "distinct (map nd_key (nodes_of m))" "distinct (map nd_key (nodes_of m'))"
    and "\<And>x. nd_key x \<noteq> key \<Longrightarrow> x \<in> set (nodes_of m') \<longleftrightarrow> x \<in> set (nodes_of m)" and "k \<noteq> key"
  shows "map_abs m' k = map_abs m k"
proof -
  have "map_abs m' k = Some v \<longleftrightarrow> map_abs m k = Some v" for v
    using assms(3,4) by (auto simp: abs_iff [OF assms(1)] abs_iff [OF assms(2)])
  then show ?thesis by (metis not_Some_eq)
qed

lemma abs_upd:
  assumes "distinct (map nd_key (nodes_of m))" "distinct (map nd_key (nodes_of m'))"
    and "\<And>x. nd_key x \<noteq> key \<Longrightarrow> x \<in> set (nodes_of m') \<longleftrightarrow> x \<in> set (nodes_of m)"
    and "map_abs m' key = v"
  shows "map_abs m' = (map_abs m)(key := v)"
  using abs_other [OF assms(1-3)] assms(4) by (auto simp: fun_eq_iff)

lemma nodes_bound: "map_ok m \<Longrightarrow> length (nodes_of m) < 2 ^ 32 \<and> length (buckets m) < 2 ^ 32"
proof -
  assume ok: "map_ok m"
  have "length (buckets m) < 2 ^ 32"
  proof (cases "buckets m = []")
    case False
    then obtain k where "k \<le> 31" "length (buckets m) = 2 ^ k" using ok by (auto simp: map_ok_def sized_def)
    then show ?thesis using power_strict_increasing [of k 32 "2 :: nat"] by simp
  qed simp
  then show ?thesis using ok by (simp add: map_ok_def)
qed

lemma full_iff: "map_ok m \<Longrightarrow> nnodes m \<ge> nbuckets m \<longleftrightarrow> length (nodes_of m) = length (buckets m)"
  using nodes_bound [of m]
  by (auto simp: map_ok_def nbuckets_def word_le_nat_alt unat_of_nat_less)

lemma set_existing:
  assumes ok: "map_ok m" and r: "map_getref m key = Some (b, p)"
    and s: "map_set mem_ok realloc_ok m key v = (res, m')"
  shows "res \<and> map_ok m' \<and> map_abs m' = (map_abs m)(key \<mapsto> v)"
proof -
  let ?c = "buckets m ! b"
  let ?n = "?c ! p" and ?n' = "(?c ! p)\<lparr>nd_value := v\<rparr>"
  have m': "res" "m' = m\<lparr>buckets := (buckets m)[b := ?c[p := ?n']]\<rparr>"
    using s r by (auto simp: map_set_def)
  note g = getref_Some [OF ok r]
  have in_n: "?n \<in># mset (nodes_of m)"
    using nth_in_concat [OF g(1) nth_mem [OF g(2)]] by (simp add: nodes_of_def)
  define R where "R = mset ?c - {#?n#}"
  have c: "mset ?c = add_mset ?n R" using g(2) by (simp add: R_def)
  have "mset (nodes_of m') + mset ?c = mset (nodes_of m) + add_mset ?n' R"
    using mset_concat_update [OF g(1), of "?c[p := ?n']"] g(2)
    by (simp add: nodes_of_def m' mset_update R_def)
  then have "add_mset ?n (mset (nodes_of m')) + R = add_mset ?n' (mset (nodes_of m)) + R"
    unfolding c by simp
  then have ms: "add_mset ?n (mset (nodes_of m')) = add_mset ?n' (mset (nodes_of m))"
    by (rule add_right_imp_eq)
  have keys: "image_mset nd_key (mset (nodes_of m')) = image_mset nd_key (mset (nodes_of m))"
    using arg_cong [OF ms, of "image_mset nd_key"] by simp
  have d: "distinct (map nd_key (nodes_of m))" "distinct (map nd_key (nodes_of m'))"
    using ok distinct_keys_mset [OF keys] by (simp_all add: map_ok_def)
  have len: "length (nodes_of m') = length (nodes_of m)"
    using arg_cong [OF ms, of size] by simp
  have "placed m'"
    unfolding placed_def
  proof (intro allI impI ballI)
    fix c n
    assume c: "c < length (buckets m')" and n: "n \<in> set (buckets m' ! c)"
    have "map_bucketidx m' h = map_bucketidx m h" for h
      by (simp add: map_bucketidx_def nbuckets_def m')
    moreover have pl: "placed m" using ok by (simp add: map_ok_def)
    moreover have "c < length (buckets m)" using c by (simp add: m')
    moreover have "n = ?n' \<and> c = b \<or> n \<in> set (buckets m ! c)"
      using n g(1) set_update_subset_insert [of ?c p ?n'] by (cases "c = b") (auto simp: m')
    ultimately show "nd_hash n = map_hash (nd_key n) \<and> map_bucketidx m' (nd_hash n) = c"
      using placedD [OF pl, of c n] placedD [OF pl g(1) nth_mem [OF g(2)]] by auto
  qed
  then have "map_ok m'" using ok d len by (simp add: map_ok_def sized_def m')
  moreover have mem: "x \<in> set (nodes_of m') \<longleftrightarrow> x \<in> set (nodes_of m)" if "nd_key x \<noteq> key" for x
  proof -
    have "x \<noteq> ?n" "x \<noteq> ?n'" using that g(3) by auto
    then show ?thesis using arg_cong [OF ms, of "\<lambda>M. x \<in># M"] by simp
  qed
  moreover have "?n' \<in> set (nodes_of m')"
  proof (cases "?n' = ?n")
    case True
    then have "mset (nodes_of m') = mset (nodes_of m)" using ms by simp
    then show ?thesis using in_n True by (metis set_mset_mset)
  next
    case False
    then show ?thesis using arg_cong [OF ms, of "\<lambda>M. ?n' \<in># M"] by simp
  qed
  then have "map_abs m' key = Some v"
    unfolding abs_iff [OF d(2)] by (rule rev_bexI) (simp add: g(3))
  ultimately show ?thesis using m'(1) abs_upd [OF d mem] by simp
qed

lemma grown_size:
  assumes "map_ok m" "length (buckets m) < 2 ^ 30"
  shows "\<exists>k\<le>31. unat (if nbuckets m > 0 then push_bit 1 (nbuckets m) else 1) = 2 ^ k"
    "length (buckets m) < unat (if nbuckets m > 0 then push_bit 1 (nbuckets m) else 1)"
proof -
  have n: "unat (nbuckets m) = length (buckets m)"
    using assms(2) by (simp add: nbuckets_def unat_of_nat_less)
  have "(\<exists>k\<le>31. unat (if nbuckets m > 0 then push_bit 1 (nbuckets m) else 1) = 2 ^ k) \<and>
    length (buckets m) < unat (if nbuckets m > 0 then push_bit 1 (nbuckets m) else 1)"
  proof (cases "buckets m = []")
    case True
    then show ?thesis by (auto simp: nbuckets_def intro!: exI [of _ 0])
  next
    case False
    then obtain k where k: "length (buckets m) = 2 ^ k" using assms(1) by (auto simp: map_ok_def sized_def)
    then have "k < 30" using power_less_imp_less_exp [of "2 :: nat" k 30] assms(2) by simp
    moreover have "unat (push_bit 1 (nbuckets m)) = 2 * length (buckets m)"
      using n assms(2) by (simp add: push_bit_eq_mult unat_word_ariths)
    moreover have "nbuckets m > 0" using n False by (simp add: word_gt_0 unat_eq_zero [symmetric])
    ultimately show ?thesis using k by (auto intro!: exI [of _ "Suc k"])
  qed
  then show "\<exists>k\<le>31. unat (if nbuckets m > 0 then push_bit 1 (nbuckets m) else 1) = 2 ^ k"
    "length (buckets m) < unat (if nbuckets m > 0 then push_bit 1 (nbuckets m) else 1)" by blast+
qed

text \<open>Linking a node with a new key into a map with room for it.\<close>

lemma link_new:
  fixes v :: 'v and m :: "'v map_base"
  assumes "sized m" "placed m" "distinct (map nd_key (nodes_of m))"
    and "nnodes m = of_nat (length (nodes_of m))" "length (nodes_of m) < length (buckets m)"
    and "\<And>n. n \<in> set (nodes_of m) \<Longrightarrow> nd_key n \<noteq> key"
  defines "x \<equiv> \<lparr>nd_hash = map_hash key, nd_key = key, nd_value = v\<rparr>"
  defines "m' \<equiv> (map_addnode x m)\<lparr>nnodes := nnodes m + 1\<rparr>"
  shows "map_ok m' \<and> map_abs m' = (map_abs m)(key \<mapsto> v)"
proof -
  note a = addnode_spec [OF assms(1,2), of x]
  have ms: "mset (nodes_of m') = add_mset x (mset (nodes_of m))"
    using a by (simp add: m'_def x_def)
  then have set: "set (nodes_of m') = insert x (set (nodes_of m))"
    by (metis set_mset_add_mset_insert set_mset_mset)
  have len: "length (nodes_of m') = Suc (length (nodes_of m))"
    using arg_cong [OF ms, of size] by simp
  have "image_mset nd_key (mset (nodes_of m')) = image_mset nd_key (mset (x # nodes_of m))"
    by (simp add: ms)
  then have d: "distinct (map nd_key (nodes_of m'))"
    using distinct_keys_mset assms(3,6) by (fastforce simp: x_def)
  have "placed m'" "sized m'" "length (buckets m') = length (buckets m)"
    using a by (simp_all add: m'_def x_def)
  then have ok: "map_ok m'" using d len assms(4,5) by (simp add: map_ok_def) (simp add: m'_def)
  have "map_abs m' key = Some v" unfolding abs_iff [OF d] set by (simp add: x_def)
  moreover have "nd_key y \<noteq> key \<Longrightarrow> y \<in> set (nodes_of m') \<longleftrightarrow> y \<in> set (nodes_of m)" for y
    by (auto simp: set x_def)
  ultimately show ?thesis using ok abs_upd [OF assms(3) d] by blast
qed

lemma set_new:
  assumes ok: "map_ok m" and r: "map_getref m key = None" and b: "length (buckets m) < 2 ^ 30"
    and s: "map_set mem_ok realloc_ok m key v = (res, m')"
  shows "res = (mem_ok \<and> (length (nodes_of m) < length (buckets m) \<or> realloc_ok)) \<and>
    map_ok m' \<and> map_abs m' = (if res then (map_abs m)(key \<mapsto> v) else map_abs m)"
proof (cases mem_ok)
  case False
  then show ?thesis using s r ok by (auto simp: map_set_def map_newnode_def)
next
  case mem: True
  have abs_eq: "map_abs m1 = map_abs m" if "mset (nodes_of m1) = mset (nodes_of m)"
      "distinct (map nd_key (nodes_of m1))" for m1
    using that ok mset_eq_setD [OF that(1)] abs_iff [of m1] abs_iff [of m]
    by (metis (no_types, lifting) ext map_ok_def not_Some_eq)
  have d: "distinct (map nd_key (nodes_of m))" "nnodes m = of_nat (length (nodes_of m))"
    "length (nodes_of m) \<le> length (buckets m)" "placed m"
    using ok by (simp_all add: map_ok_def)
  show ?thesis
  proof (cases "nnodes m \<ge> nbuckets m")
    case False
    then have "length (nodes_of m) < length (buckets m)" using full_iff [OF ok] d(3) by auto
    moreover from this have "sized m" using ok by (auto simp: map_ok_def)
    ultimately show ?thesis
      using link_new [OF _ d(4,1,2) _ getref_None [OF ok r], of v] s r mem False
      by (auto simp: map_set_def map_newnode_def Let_def)
  next
    case True
    then have full: "length (nodes_of m) = length (buckets m)" using full_iff [OF ok] by simp
    let ?n = "if nbuckets m > 0 then push_bit 1 (nbuckets m) else 1"
    obtain ok1 m1 where rz: "map_resize realloc_ok ?n m = (ok1, m1)" by fastforce
    note g = grown_size [OF ok b]
    note z = resize_spec [OF ok g(1) rz]
    have d1: "distinct (map nd_key (nodes_of m1))" "nnodes m1 = of_nat (length (nodes_of m1))"
      using d(1,2) z(2,4) distinct_keys_mset [of "nodes_of m1" "nodes_of m"] by (auto dest: mset_eq_length)
    have len1: "length (nodes_of m1) = length (nodes_of m)" using z(2) by (rule mset_eq_length)
    show ?thesis
    proof (cases realloc_ok)
      case True
      then have "sized m1" using z(5) g(1) by (auto simp: sized_def)
      moreover have "length (nodes_of m1) < length (buckets m1)" using True z(5) g(2) full len1 by simp
      moreover have "nd_key n \<noteq> key" if "n \<in> set (nodes_of m1)" for n
        using getref_None [OF ok r, of n] that mset_eq_setD [OF z(2)] by simp
      ultimately show ?thesis
        using link_new [OF _ z(3) d1, of key v] abs_eq [OF z(2) d1(1)] s r mem True rz z(1) \<open>nnodes m \<ge> nbuckets m\<close>
        by (auto simp: map_set_def map_newnode_def Let_def)
    next
      case False
      then have "res = False" "m' = m1"
        using s r mem rz z(1) \<open>nnodes m \<ge> nbuckets m\<close>
        by (auto simp: map_set_def map_newnode_def Let_def)
      moreover have "map_ok m1"
        using ok False z d1 len1 by (auto simp: map_ok_def sized_def)
      ultimately show ?thesis using abs_eq [OF z(2) d1(1)] False full by simp
    qed
  qed
qed

lemma remove_spec:
  assumes ok: "map_ok m"
  shows "map_ok (map_remove m key) \<and> map_abs (map_remove m key) = (map_abs m)(key := None)"
proof (cases "map_getref m key")
  case None
  have "map_abs m key = None" using get_abs [OF ok, of key] None by (simp add: map_get_def)
  then show ?thesis using None ok by (auto simp: map_remove_def)
next
  case (Some bp)
  then obtain b p where bp: "map_getref m key = Some (b, p)" by (cases bp) auto
  let ?m' = "map_remove m key" and ?c = "buckets m ! b"
  let ?n = "?c ! p"
  have m': "?m' = m\<lparr>buckets := (buckets m)[b := take p ?c @ drop (Suc p) ?c], nnodes := nnodes m - 1\<rparr>"
    using bp by (simp add: map_remove_def)
  note g = getref_Some [OF ok bp]
  have "mset ?c = add_mset ?n (mset (take p ?c @ drop (Suc p) ?c))"
    by (subst id_take_nth_drop [OF g(2)]) simp
  then have "add_mset ?n (mset (nodes_of ?m')) + mset (take p ?c @ drop (Suc p) ?c) =
      mset (nodes_of m) + mset (take p ?c @ drop (Suc p) ?c)"
    using mset_concat_update [OF g(1), of "take p ?c @ drop (Suc p) ?c"]
    by (simp add: nodes_of_def m')
  then have ms: "mset (nodes_of m) = add_mset ?n (mset (nodes_of ?m'))"
    by (rule add_right_imp_eq [symmetric])
  have set: "set (nodes_of m) = insert ?n (set (nodes_of ?m'))"
    by (metis ms set_mset_add_mset_insert set_mset_mset)
  have len: "length (nodes_of m) = Suc (length (nodes_of ?m'))"
    using arg_cong [OF ms, of size] by simp
  have "image_mset nd_key (mset (nodes_of m)) = image_mset nd_key (mset (?n # nodes_of ?m'))"
    by (simp add: ms)
  from distinct_keys_mset [OF this] have "distinct (map nd_key (?n # nodes_of ?m'))"
    using ok by (simp only: map_ok_def)
  then have d: "distinct (map nd_key (nodes_of ?m'))" "nd_key ?n \<notin> nd_key ` set (nodes_of ?m')" by simp_all
  have pl': "placed ?m'"
    unfolding placed_def
  proof (intro allI impI ballI)
    fix c n
    assume c: "c < length (buckets ?m')" and n: "n \<in> set (buckets ?m' ! c)"
    have "n \<in> set (buckets m ! c)"
      using n g(1) set_take_subset [of p ?c] set_drop_subset [of "Suc p" ?c] by (cases "c = b") (auto simp: m')
    moreover have "placed m" "c < length (buckets m)" using ok c by (simp_all add: map_ok_def m')
    ultimately show "nd_hash n = map_hash (nd_key n) \<and> map_bucketidx ?m' (nd_hash n) = c"
      using placedD [of m c n] by (auto simp: map_bucketidx_def nbuckets_def m')
  qed
  have ok': "map_ok ?m'"
  proof -
    have "sized ?m'" "length (buckets ?m') = length (buckets m)" using g(4) by (simp_all add: m' sized_def)
    moreover have "nnodes ?m' = of_nat (length (nodes_of ?m'))"
    proof -
      have "nnodes ?m' = nnodes m - 1" by (simp add: m')
      also have "nnodes m = of_nat (length (nodes_of m))" using ok by (simp add: map_ok_def)
      finally show ?thesis by (simp add: len)
    qed
    ultimately show ?thesis
      using ok d(1) len pl' unfolding map_ok_def by simp
  qed
  have "map_abs ?m' key = None"
  proof (cases "map_abs ?m' key")
    case (Some v)
    then obtain n where "n \<in> set (nodes_of ?m')" "nd_key n = key" unfolding abs_iff [OF d(1)] by blast
    then show ?thesis using d(2) g(3) by (metis image_eqI)
  qed simp
  moreover have "nd_key x \<noteq> key \<Longrightarrow> x \<in> set (nodes_of ?m') \<longleftrightarrow> x \<in> set (nodes_of m)" for x
    using set g(3) by auto
  ultimately show ?thesis
    using ok' abs_upd [of m ?m' key] ok d(1) by (simp add: map_ok_def)
qed

section \<open>The contract of a string map\<close>

text \<open>
  The map as an abstract data type: \<open>set m k v\<close> tells whether it succeeded. \<open>room\<close> bounds the
  states in which an update is allowed.
\<close>

locale string_map =
  fixes empty :: 'm
    and get :: "'m \<Rightarrow> 'k \<Rightarrow> 'v option"
    and set :: "'m \<Rightarrow> 'k \<Rightarrow> 'v \<Rightarrow> bool \<times> 'm"
    and remove :: "'m \<Rightarrow> 'k \<Rightarrow> 'm"
    and abs :: "'m \<Rightarrow> 'k \<Rightarrow> 'v option"
    and inv room :: "'m \<Rightarrow> bool"
  assumes empty_abs: "inv empty" "abs empty = Map.empty"
    and get_refines: "inv m \<Longrightarrow> get m k = abs m k"
    and set_refines: "inv m \<Longrightarrow> room m \<Longrightarrow> set m k v = (ok, m') \<Longrightarrow>
      inv m' \<and> abs m' = (if ok then (abs m)(k \<mapsto> v) else abs m)"
    and remove_refines: "inv m \<Longrightarrow> inv (remove m k) \<and> abs (remove m k) = (abs m)(k := None)"
begin

lemma get_set_same: "inv m \<Longrightarrow> room m \<Longrightarrow> set m k v = (True, m') \<Longrightarrow> get m' k = Some v"
  using set_refines [of m k v True m'] get_refines [of m'] by simp

lemma get_set_other:
  "inv m \<Longrightarrow> room m \<Longrightarrow> set m k v = (ok, m') \<Longrightarrow> k' \<noteq> k \<Longrightarrow> get m' k' = get m k'"
  using set_refines [of m k v ok m'] get_refines [of m'] get_refines [of m] by (auto split: if_splits)

lemma get_set_failed: "inv m \<Longrightarrow> room m \<Longrightarrow> set m k v = (False, m') \<Longrightarrow> get m' = get m"
  using set_refines [of m k v False m'] get_refines [of m'] get_refines [of m] by (simp add: fun_eq_iff)

lemma get_remove: "inv m \<Longrightarrow> get (remove m k) k' = (if k' = k then None else get m k')"
  using remove_refines [of m k] get_refines by simp

end

definition map_room :: "'v map_base \<Rightarrow> bool" where
  "map_room m \<longleftrightarrow> length (buckets m) < 2 ^ 30"

lemma set_spec:
  assumes "map_ok m" "map_room m" "map_set mem_ok realloc_ok m key v = (res, m')"
  shows "map_ok m' \<and> map_abs m' = (if res then (map_abs m)(key \<mapsto> v) else map_abs m)"
proof (cases "map_getref m key")
  case None
  then show ?thesis using set_new [OF assms(1) None _ assms(3)] assms(2) by (simp add: map_room_def)
next
  case (Some bp)
  then show ?thesis using set_existing [OF assms(1) _ assms(3)] by (cases bp) auto
qed

interpretation navy_map: string_map map_init map_get "map_set mem_ok realloc_ok" map_remove map_abs
  map_ok map_room for mem_ok realloc_ok
  by unfold_locales (simp_all add: get_abs set_spec remove_spec)

section \<open>Iteration\<close>

text \<open>The keys that \<open>fuel\<close> calls of \<^verbatim>\<open>map_next_\<close> yield until it returns \<^verbatim>\<open>NULL\<close>.\<close>

fun iterate :: "nat \<Rightarrow> 'v map_base \<Rightarrow> 'v map_iter \<Rightarrow> u8 list list" where
  "iterate 0 m iter = []"
| "iterate (Suc fuel) m iter =
     (case map_next m iter of
        (None, iter') \<Rightarrow> []
      | (Some key, iter') \<Rightarrow> key # iterate fuel m iter')"

text \<open>What is still to come when the iterator stands at \<open>node\<close> in bucket \<open>i\<close>.\<close>

definition to_come :: "'v map_base \<Rightarrow> nat \<Rightarrow> 'v map_node list" where
  "to_come m i = concat (drop i (buckets m))"

lemma to_come_skip:
  assumes "next_bucket m i = it"
  shows "it_node it = [] \<and> to_come m i = [] \<or>
    (\<exists>j. i \<le> j \<and> j < length (buckets m) \<and> bucketidx it = of_nat j \<and> it_node it = buckets m ! j \<and>
      buckets m ! j \<noteq> [] \<and> to_come m i = buckets m ! j @ to_come m (Suc j))"
  using assms
proof (induction m i rule: next_bucket.induct)
  case (1 m i)
  show ?case
  proof (cases "i < length (buckets m)")
    case True
    then have drop: "drop i (buckets m) = buckets m ! i # drop (Suc i) (buckets m)"
      by (rule Cons_nth_drop_Suc [symmetric])
    show ?thesis
    proof (cases "buckets m ! i = []")
      case True
      then have "next_bucket m (Suc i) = it" "to_come m i = to_come m (Suc i)"
        using 1(2) \<open>i < length (buckets m)\<close> drop by (simp_all add: next_bucket.simps [of m i] to_come_def)
      with 1(1) [OF \<open>i < length (buckets m)\<close> True] show ?thesis by (metis Suc_leD)
    next
      case False
      then show ?thesis using 1(2) True drop by (auto simp: next_bucket.simps [of m i] to_come_def)
    qed
  next
    case False
    then show ?thesis using 1(2) by (auto simp: next_bucket.simps [of m i] to_come_def)
  qed
qed

lemma iterate_from:
  assumes "length (buckets m) < 2 ^ 31"
  shows "length (tl (it_node it)) + length (to_come m (unat (bucketidx it + 1))) < fuel \<Longrightarrow>
    unat (bucketidx it + 1) \<le> length (buckets m) \<Longrightarrow>
    iterate fuel m it = map nd_key (tl (it_node it) @ to_come m (unat (bucketidx it + 1)))"
proof (induction fuel arbitrary: it)
  case (Suc fuel)
  let ?i = "unat (bucketidx it + 1)"
  show ?case
  proof (cases "tl (it_node it) = []")
    case False
    let ?it = "it\<lparr>it_node := tl (it_node it)\<rparr>"
    obtain n ns where n: "tl (it_node it) = n # ns" using False by (cases "tl (it_node it)") auto
    then have "map_next m it = (Some (nd_key n), ?it)" by (simp add: map_next_def)
    then show ?thesis using Suc.IH [of ?it] Suc.prems n by simp
  next
    case True
    obtain it' where it': "next_bucket m ?i = it'" by blast
    have nx: "map_next m it = (case it_node it' of [] \<Rightarrow> None | node # _ \<Rightarrow> Some (nd_key node), it')"
      using True it' by (simp add: map_next_def)
    show ?thesis
      using to_come_skip [OF it']
    proof (elim disjE exE conjE)
      assume "it_node it' = []" "to_come m ?i = []"
      then show ?thesis using nx True by simp
    next
      fix j
      assume j: "?i \<le> j" "j < length (buckets m)" "bucketidx it' = of_nat j"
        "it_node it' = buckets m ! j" "buckets m ! j \<noteq> []" "to_come m ?i = buckets m ! j @ to_come m (Suc j)"
      obtain n ns where n: "buckets m ! j = n # ns" using j(5) by (cases "buckets m ! j") auto
      have "unat (of_nat j + 1 :: u32) = Suc j"
        using j(2) assms by (simp add: unat_word_ariths unat_of_nat_less)
      then show ?thesis using Suc.IH [of it'] Suc.prems j n nx True by simp
    qed
  qed
qed simp

section \<open>Properties\<close>

text \<open>
  C10: the hash map refines a finite map: look-up returns the value last set, setting replaces
  or adds exactly that key when it reports success and changes nothing when memory runs out
  (even in the middle of a resize), removing deletes exactly that key, and the invariant
  (placement by hash, distinct keys, counted nodes, at most one node per bucket on average) is kept.
\<close>

theorem map_refines:
  assumes "map_ok m" "map_room m"
  shows "map_get m k = map_abs m k \<and>
    (\<forall>mem_ok realloc_ok v ok m'. map_set mem_ok realloc_ok m k v = (ok, m') \<longrightarrow>
      map_ok m' \<and> map_abs m' = (if ok then (map_abs m)(k \<mapsto> v) else map_abs m) \<and>
      (mem_ok \<and> realloc_ok \<longrightarrow> ok)) \<and>
    map_ok (map_remove m k) \<and> map_abs (map_remove m k) = (map_abs m)(k := None)"
proof -
  have "ok" if "map_set True True m k v = (ok, m')" for v ok m'
  proof (cases "map_getref m k")
    case None
    then show ?thesis using set_new [OF assms(1) None _ that] assms(2) by (simp add: map_room_def)
  next
    case (Some bp)
    then show ?thesis using set_existing [OF assms(1) _ that] by (cases bp) auto
  qed
  then show ?thesis
    using navy_map.get_refines [OF assms(1)] navy_map.set_refines [OF assms]
      navy_map.remove_refines [OF assms(1)] by (intro conjI allI impI) auto
qed

theorem map_refines_witness:
  "map_get (snd (map_set True True map_init [107] (5 :: nat))) [107] = Some 5 \<and>
   map_abs (map_remove (snd (map_set True True map_init [107] (5 :: nat))) [107]) [107] = None"
proof -
  let ?m = "snd (map_set True True map_init [107] (5 :: nat))"
  have room: "map_room (map_init :: nat map_base)" by (simp add: map_room_def map_init_def)
  have m: "map_set True True map_init [107] (5 :: nat) = (True, ?m)" by code_simp
  have 1: "map_ok ?m" "map_abs ?m = [[107] \<mapsto> 5]"
    using map_refines [OF map_ok_init(1) room, of "[107]"] m by (auto simp only: map_ok_init simp_thms if_True)
  have "length (buckets ?m) = 1" by code_simp
  then have "map_room ?m" by (simp add: map_room_def)
  from map_refines [OF 1(1) this, of "[107]"] 1(2) show ?thesis by simp
qed

text \<open>
  C34: iterating from \<^verbatim>\<open>map_iter_\<close> with \<^verbatim>\<open>map_next_\<close> ends after one call per entry and one more,
  and yields every key of the map exactly once.
\<close>

theorem map_iteration_complete:
  assumes "map_ok m" "length (buckets m) < 2 ^ 31" "length (nodes_of m) < fuel"
  shows "distinct (iterate fuel m map_iter_start) \<and> set (iterate fuel m map_iter_start) = dom (map_abs m)"
proof -
  have "iterate fuel m map_iter_start = map nd_key (nodes_of m)"
    using iterate_from [OF assms(2), of map_iter_start fuel] assms(3)
    by (simp add: map_iter_start_def to_come_def nodes_of_def)
  then show ?thesis
    using assms(1) by (simp add: map_ok_def map_abs_def dom_map_of_conv_image_fst image_image)
qed

theorem map_iteration_complete_witness:
  "set (iterate 3 (snd (map_set True True (snd (map_set True True map_init [107] (5 :: nat))) [108] 6))
     map_iter_start) = {[107], [108]}"
proof -
  let ?m1 = "snd (map_set True True map_init [107] (5 :: nat))"
  let ?m = "snd (map_set True True ?m1 [108] 6)"
  have b: "length (buckets ?m1) = 1" "length (buckets ?m) = 2" "length (nodes_of ?m) = 2" by code_simp+
  then have room: "map_room (map_init :: nat map_base)" "map_room ?m1"
    by (simp_all add: map_room_def map_init_def)
  have m: "map_set True True map_init [107] (5 :: nat) = (True, ?m1)"
    "map_set True True ?m1 [108] 6 = (True, ?m)" by code_simp+
  have 1: "map_ok ?m1" "map_abs ?m1 = [[107] \<mapsto> 5]"
    using set_spec [OF map_ok_init(1) room(1) m(1)] by (auto simp: map_ok_init)
  have 2: "map_ok ?m" "map_abs ?m = [[107] \<mapsto> 5, [108] \<mapsto> 6]"
    using set_spec [OF 1(1) room(2) m(2)] 1(2) by auto
  have "length (buckets ?m) < 2 ^ 31" "length (nodes_of ?m) < 3" using b by simp_all
  from map_iteration_complete [OF 2(1) this] 2(2) show ?thesis by auto
qed

end
