(* ===== verification/Navy_String.thy ===== *)
theory Navy_String
  imports Navy_Prelude
begin

text \<open>
  The freestanding C string library of the kernel, \<^verbatim>\<open>libs/ansi/string.c\<close>. Every function
  works on byte memory \<open>mem\<close> and 64-bit pointers, as the code does, so overlapping
  arguments and the pointer arithmetic of the error paths are visible. A loop that runs until
  it meets a terminator is a \<^theory_text>\<open>partial_function (option)\<close>: \<open>None\<close> is a scan that
  never ends. Functions that write memory return the new memory with their value.
\<close>

unbundle bit_operations_syntax

section \<open>The functions of string.c\<close>

partial_function (option) strlen_loop :: "mem \<Rightarrow> u64 \<Rightarrow> u64 \<Rightarrow> u64 option" where
  "strlen_loop m s i = (if m (s + i) \<noteq> 0 then strlen_loop m s (i + 1) else Some (i + 1))"

declare strlen_loop.simps [code]

definition strlen :: "mem \<Rightarrow> u64 \<Rightarrow> u64 option" where
  "strlen m s = (if s = 0 then Some 0 else map_option (\<lambda>i. i - 1) (strlen_loop m s 0))"

text \<open>\<^verbatim>\<open>while (s[pos] != c && pos-- > 0)\<close>: the decrement happens even when the test fails.\<close>

function strrchr_loop :: "mem \<Rightarrow> u64 \<Rightarrow> u32 \<Rightarrow> u64 \<Rightarrow> u64" where
  "strrchr_loop m s c pos =
     (if scast (m (s + pos)) \<noteq> c
      then (if pos > 0 then strrchr_loop m s c (pos - 1) else pos - 1)
      else pos)"
  by pat_completeness auto
termination
  by (relation "measure (\<lambda>(m, s, c, pos). unat pos)") (auto simp: measure_unat)

definition strrchr :: "mem \<Rightarrow> u64 \<Rightarrow> u32 \<Rightarrow> u64 option" where
  "strrchr m s c =
     (case strlen m s of
        None \<Rightarrow> None
      | Some len \<Rightarrow>
          (let pos = strrchr_loop m s c len
           in Some (if pos = len then 0 else s + pos)))"

primrec memset_loop :: "u8 \<Rightarrow> nat \<Rightarrow> mem \<Rightarrow> u64 \<Rightarrow> mem" where
  "memset_loop c 0 m d = m"
| "memset_loop c (Suc n) m d = memset_loop c n (m(d := c)) (d + 1)"

definition memset :: "mem \<Rightarrow> u64 \<Rightarrow> u32 \<Rightarrow> u64 \<Rightarrow> mem \<times> u64" where
  "memset m s c n = ((if n \<noteq> 0 then memset_loop (ucast c) (unat n) m s else m), s)"

text \<open>The byte loop \<^verbatim>\<open>dest[i] = src[i]\<close> of \<^verbatim>\<open>memmove\<close> and \<^verbatim>\<open>memcpy\<close>, \<open>n\<close> steps from \<open>i\<close>.\<close>

primrec copy_loop :: "nat \<Rightarrow> mem \<Rightarrow> u64 \<Rightarrow> u64 \<Rightarrow> u64 \<Rightarrow> mem" where
  "copy_loop 0 m dest src i = m"
| "copy_loop (Suc n) m dest src i =
     copy_loop n (m(dest + i := m (src + i))) dest src (i + 1)"

definition memmove :: "mem \<Rightarrow> u64 \<Rightarrow> u64 \<Rightarrow> u64 \<Rightarrow> mem \<times> u64" where
  "memmove m dest src n = (copy_loop (unat n) m dest src 0, dest)"

definition memcpy :: "mem \<Rightarrow> u64 \<Rightarrow> u64 \<Rightarrow> u64 \<Rightarrow> mem \<times> u64" where
  "memcpy m dest src n =
     (if src = 0 then (m, 0) else (copy_loop (unat n) m dest src 0, dest))"

text \<open>The comparison at a mismatch reads index 1, whatever the position of the mismatch.\<close>

function strncmp_loop :: "mem \<Rightarrow> u64 \<Rightarrow> u64 \<Rightarrow> u64 \<Rightarrow> u64 \<Rightarrow> u32" where
  "strncmp_loop m s1 s2 n i =
     (if i < n
      then (if m (s1 + i) \<noteq> m (s2 + i)
            then (if m (s1 + 1) <s m (s2 + 1) then - 1 else 1)
            else if m (s1 + i) = 0 then 0
            else strncmp_loop m s1 s2 n (i + 1))
      else 0)"
  by pat_completeness auto
termination
  by (relation "measure (\<lambda>(m, s1, s2, n, i). unat n - unat i)")
    (auto simp: unat_Suc_less word_less_nat_alt)

definition strncmp :: "mem \<Rightarrow> u64 \<Rightarrow> u64 \<Rightarrow> u64 \<Rightarrow> u32" where
  "strncmp m s1 s2 n = strncmp_loop m s1 s2 n 0"

definition strcmp :: "mem \<Rightarrow> u64 \<Rightarrow> u64 \<Rightarrow> u32 option" where
  "strcmp m s1 s2 =
     Option.bind (strlen m s1) (\<lambda>l1. Option.bind (strlen m s2) (\<lambda>l2.
       Some (if l1 \<noteq> l2 then ucast (l1 - l2) else strncmp m s1 s2 l1)))"

text \<open>
  \<open>is_delim\<close> is the inner loop of \<^verbatim>\<open>strtok\<close> that looks for \<open>c\<close> among the first \<open>n\<close>
  characters of \<open>delim\<close>, from index \<open>i\<close>.
\<close>

primrec is_delim :: "mem \<Rightarrow> u64 \<Rightarrow> u8 \<Rightarrow> nat \<Rightarrow> u64 \<Rightarrow> bool" where
  "is_delim m delim c 0 i = False"
| "is_delim m delim c (Suc n) i = (c = m (delim + i) \<or> is_delim m delim c n (i + 1))"

text \<open>
  The second loop of \<^verbatim>\<open>strtok\<close>: the result is the memory, the new value of the static
  \<open>p\<close> and the returned pointer.
\<close>

partial_function (option) strtok_loop ::
  "mem \<Rightarrow> u64 \<Rightarrow> nat \<Rightarrow> u64 \<Rightarrow> u64 \<Rightarrow> (mem \<times> u64 \<times> u64) option" where
  "strtok_loop m delim n ret str =
     (if m str = 0 then Some (m, str, ret)
      else if is_delim m delim (m str) n 0 then Some (m(str := 0), str + 1, ret)
      else strtok_loop m delim n ret (str + 1))"

declare strtok_loop.simps [code]

definition strtok :: "mem \<Rightarrow> u64 \<Rightarrow> u64 \<Rightarrow> u64 \<Rightarrow> (mem \<times> u64 \<times> u64) option" where
  "strtok m p str delim =
     (if p = 0 \<and> str = 0 then Some (m, p, 0)
      else Option.bind (strlen m delim) (\<lambda>l.
        let p1 = (if str = 0 then p else str);
            str1 = (if str = 0 then p else str);
            str2 = (if is_delim m delim (m str1) (unat l) 0 then str1 + 1 else str1)
        in if m str2 = 0 then Some (m, p1, 0)
           else strtok_loop m delim (unat l) str2 str2))"

text \<open>\<^verbatim>\<open>malloc\<close> is an argument: it returns the memory after the call and the new block.\<close>

definition strdup :: "(mem \<Rightarrow> u64 \<Rightarrow> mem \<times> u64) \<Rightarrow> mem \<Rightarrow> u64 \<Rightarrow> (mem \<times> u64) option" where
  "strdup malloc m s =
     (if s = 0 then Some (m, 0)
      else Option.bind (strlen m s) (\<lambda>l.
        let len = l + 1; (m1, new) = malloc m len
        in Some (if new = 0 then (m1, 0) else memcpy m1 new s len)))"

partial_function (option) strchrcount_loop ::
  "mem \<Rightarrow> u64 \<Rightarrow> u8 \<Rightarrow> u64 \<Rightarrow> u64 \<Rightarrow> u64 option" where
  "strchrcount_loop m s c i count =
     Option.bind (strlen m s) (\<lambda>l.
       if i < l
       then strchrcount_loop m s c (i + 1) (if m (s + i) = c then count + 1 else count)
       else Some count)"

declare strchrcount_loop.simps [code]

definition strchrcount :: "mem \<Rightarrow> u64 \<Rightarrow> u8 \<Rightarrow> u64 option" where
  "strchrcount m s c = strchrcount_loop m s c 0 0"

declare strrchr_loop.simps [simp del] strncmp_loop.simps [simp del]

section \<open>C strings in memory\<close>

text \<open>\<open>cstr m p xs\<close>: the characters \<open>xs\<close> and then a terminator are at \<open>p\<close>.\<close>

fun cstr :: "mem \<Rightarrow> u64 \<Rightarrow> u8 list \<Rightarrow> bool" where
  "cstr m p [] = (m p = 0)"
| "cstr m p (x # xs) = (x \<noteq> 0 \<and> m p = x \<and> cstr m (p + 1) xs)"

lemma cstr_nth: "cstr m p xs \<Longrightarrow> i < length xs \<Longrightarrow> m (p + of_nat i) = xs ! i \<and> xs ! i \<noteq> 0"
proof (induction xs arbitrary: p i)
  case Nil
  then show ?case by simp
next
  case (Cons x xs)
  show ?case
  proof (cases i)
    case 0
    with Cons.prems show ?thesis by simp
  next
    case (Suc j)
    with Cons.IH [of "p + 1" j] Cons.prems show ?thesis by (simp add: add.assoc)
  qed
qed

lemma cstr_end: "cstr m p xs \<Longrightarrow> m (p + of_nat (length xs)) = 0"
  by (induction xs arbitrary: p) (auto simp flip: add.assoc)

lemma cstr_drop:
  "cstr m p xs \<Longrightarrow> i \<le> length xs \<Longrightarrow> cstr m (p + of_nat i) (drop i xs)"
proof (induction i arbitrary: p xs)
  case 0
  then show ?case by simp
next
  case (Suc i)
  then obtain y ys where "xs = y # ys" by (cases xs) auto
  with Suc.IH [of "p + 1" ys] Suc.prems show ?case by (simp add: add.assoc)
qed

lemma cstr_iff_nth:
  "cstr m p xs \<longleftrightarrow>
     (\<forall>i<length xs. m (p + of_nat i) = xs ! i \<and> xs ! i \<noteq> 0) \<and> m (p + of_nat (length xs)) = 0"
proof
  assume "cstr m p xs"
  then show "(\<forall>i<length xs. m (p + of_nat i) = xs ! i \<and> xs ! i \<noteq> 0) \<and>
      m (p + of_nat (length xs)) = 0"
    using cstr_nth cstr_end by blast
next
  assume "(\<forall>i<length xs. m (p + of_nat i) = xs ! i \<and> xs ! i \<noteq> 0) \<and>
      m (p + of_nat (length xs)) = 0"
  then show "cstr m p xs"
  proof (induction xs arbitrary: p)
    case Nil
    then show ?case by simp
  next
    case (Cons x xs)
    have "\<forall>i<length xs. m (p + 1 + of_nat i) = xs ! i \<and> xs ! i \<noteq> 0"
    proof (intro allI impI)
      fix i assume "i < length xs"
      then have "m (p + of_nat (Suc i)) = (x # xs) ! Suc i \<and> (x # xs) ! Suc i \<noteq> 0"
        using Cons.prems by (metis Suc_less_eq length_Cons)
      then show "m (p + 1 + of_nat i) = xs ! i \<and> xs ! i \<noteq> 0" by (simp add: add.assoc)
    qed
    moreover have "m p = x \<and> x \<noteq> 0" using Cons.prems by (auto dest: spec [of _ 0])
    ultimately show ?case using Cons.IH [of "p + 1"] Cons.prems by (simp add: add.assoc)
  qed
qed

text \<open>A string cannot be longer than the address space: its terminator would be inside it.\<close>

lemma cstr_length_less: "cstr m p xs \<Longrightarrow> length xs < 2 ^ 64"
proof (rule ccontr)
  assume c: "cstr m p xs" and "\<not> length xs < 2 ^ 64"
  have "length xs mod 2 ^ 64 < 2 ^ 64" by simp
  also have "2 ^ 64 \<le> length xs" using \<open>\<not> length xs < 2 ^ 64\<close> by simp
  finally have "length xs mod 2 ^ 64 < length xs" .
  with c have "m (p + of_nat (length xs mod 2 ^ 64)) \<noteq> 0"
    using cstr_nth [OF c] by metis
  moreover have "(of_nat (length xs mod 2 ^ 64) :: u64) = of_nat (length xs)"
    by (simp add: word_of_nat_eq_iff take_bit_eq_mod)
  ultimately show False using cstr_end [OF c] by simp
qed

lemma cstr_inj: "cstr m p xs \<Longrightarrow> cstr m p ys \<Longrightarrow> xs = ys"
proof (induction xs arbitrary: p ys)
  case Nil
  then show ?case by (cases ys) auto
next
  case (Cons x xs)
  then show ?case by (cases ys) auto
qed

section \<open>strlen\<close>

lemma strlen_loop_cstr:
  "cstr m (s + i) xs \<Longrightarrow> strlen_loop m s i = Some (i + of_nat (length xs) + 1)"
  by (induction xs arbitrary: i)
    (subst strlen_loop.simps, simp add: add.assoc)+

lemma strlen_cstr: "cstr m s xs \<Longrightarrow> s \<noteq> 0 \<Longrightarrow> strlen m s = Some (of_nat (length xs))"
  using strlen_loop_cstr [of m s 0 xs] by (simp add: strlen_def)

lemma strlen_loop_Some:
  assumes "strlen_loop m s i = Some r"
  shows "\<exists>xs. cstr m (s + i) xs \<and> r = i + of_nat (length xs) + 1"
proof (rule strlen_loop.raw_induct
    [where P = "\<lambda>m s i r. \<exists>xs. cstr m (s + i) xs \<and> r = i + of_nat (length xs) + 1", OF _ assms])
  fix f m s i r
  assume IH: "\<And>m s i r. f m s i = Some r \<Longrightarrow>
      \<exists>xs. cstr m (s + i) xs \<and> r = i + of_nat (length xs) + (1 :: u64)"
    and eq: "(if m (s + i) \<noteq> 0 then f m s (i + 1) else Some (i + 1)) = Some r"
  show "\<exists>xs. cstr m (s + i) xs \<and> r = i + of_nat (length xs) + 1"
  proof (cases "m (s + i) = 0")
    case True
    with eq show ?thesis by (intro exI [of _ "[]"]) simp
  next
    case False
    with eq IH obtain xs where "cstr m (s + (i + 1)) xs" "r = i + 1 + of_nat (length xs) + 1"
      by (metis (no_types, lifting))
    with False show ?thesis
      by (intro exI [of _ "m (s + i) # xs"]) (simp add: add.assoc)
  qed
qed


lemma strlen_Some_cstr:
  assumes "strlen m s = Some n" and "s \<noteq> 0"
  shows "\<exists>xs. cstr m s xs \<and> n = of_nat (length xs)"
proof -
  from assms obtain r where r: "strlen_loop m s 0 = Some r" and n: "n = r - 1"
    by (auto simp: strlen_def)
  from strlen_loop_Some [OF r] obtain xs where "cstr m s xs" "r = of_nat (length xs) + 1"
    by auto
  with n show ?thesis by auto
qed

section \<open>strcmp and strncmp\<close>

lemma strncmp_loop_zero_iff:
  assumes "cstr m a xs" "cstr m b ys" "length ys = length xs" "i \<le> length xs"
  shows "strncmp_loop m a b (of_nat (length xs)) (of_nat i) = 0 \<longleftrightarrow> drop i xs = drop i ys"
  using assms(4)
proof (induction "length xs - i" arbitrary: i)
  case 0
  then show ?case using assms(3) by (subst strncmp_loop.simps) simp
next
  case (Suc k)
  then have i: "i < length xs" by simp
  have lt: "(of_nat i :: u64) < of_nat (length xs)"
    using i cstr_length_less [OF assms(1)] by (simp add: word_less_nat_alt unat_of_nat_less)
  have IH: "strncmp_loop m a b (of_nat (length xs)) (of_nat (Suc i)) = 0 \<longleftrightarrow>
      drop (Suc i) xs = drop (Suc i) ys"
    using Suc.hyps i by (intro Suc.hyps(1)) auto
  have chars: "m (a + of_nat i) = xs ! i" "m (b + of_nat i) = ys ! i" "xs ! i \<noteq> 0"
    using cstr_nth [OF assms(1) i] cstr_nth [OF assms(2), of i] i assms(3) by simp_all
  have drops: "drop i xs = xs ! i # drop (Suc i) xs" "drop i ys = ys ! i # drop (Suc i) ys"
    using i assms(3) by (simp_all add: Cons_nth_drop_Suc)
  show ?case
    using lt chars IH
    by (subst strncmp_loop.simps) (simp add: drops add.commute)
qed

lemma strncmp_zero_iff:
  assumes "cstr m a xs" "cstr m b ys" "length ys = length xs"
  shows "strncmp m a b (of_nat (length xs)) = 0 \<longleftrightarrow> xs = ys"
  using strncmp_loop_zero_iff [OF assms, of 0] by (simp add: strncmp_def)

lemma u32_of_diff_zero_iff:
  assumes "a < 2 ^ 32" "b < 2 ^ 32"
  shows "ucast (of_nat a - of_nat b :: u64) = (0 :: u32) \<longleftrightarrow> a = b"
proof -
  have "unat (ucast (of_nat a - of_nat b :: u64) :: u32) =
      unat (of_nat a - of_nat b :: u64) mod 2 ^ 32"
    by (simp add: unsigned_ucast_eq take_bit_eq_mod)
  moreover have "unat (of_nat a :: u64) = a" "unat (of_nat b :: u64) = b"
    using assms by (simp_all add: unat_of_nat)
  ultimately have "unat (ucast (of_nat a - of_nat b :: u64) :: u32) =
      (if b \<le> a then a - b else a + 2 ^ 64 - b) mod 2 ^ 32"
    by (simp add: unat_sub_if')
  also have "\<dots> = (if b \<le> a then a - b else 2 ^ 32 + a - b)"
  proof (cases "b \<le> a")
    case True
    with assms show ?thesis by simp
  next
    case False
    with assms have "a + 2 ^ 64 - b = (2 ^ 32 + a - b) + (2 ^ 32 - 1) * 2 ^ 32" by simp
    then have "(a + 2 ^ 64 - b) mod 2 ^ 32 = (2 ^ 32 + a - b) mod 2 ^ 32"
      by (simp only: mod_mult_self1)
    with False assms show ?thesis by simp
  qed
  also have "\<dots> = 0 \<longleftrightarrow> a = b"
    using assms by auto
  finally show ?thesis by (simp add: unat_eq_0)
qed

lemma strcmp_zero_iff:
  assumes "cstr m a xs" "cstr m b ys" "a \<noteq> 0" "b \<noteq> 0"
    and "length xs < 2 ^ 32" "length ys < 2 ^ 32"
  shows "\<exists>r. strcmp m a b = Some r \<and> (r = 0 \<longleftrightarrow> xs = ys)"
proof (cases "length xs = length ys")
  case True
  with strncmp_zero_iff [OF assms(1,2)] assms show ?thesis
    by (simp add: strcmp_def strlen_cstr)
next
  case False
  have "ucast (of_nat (length xs) - of_nat (length ys) :: u64) \<noteq> (0 :: u32)"
    using u32_of_diff_zero_iff [OF assms(5,6)] False by simp
  moreover have "(of_nat (length xs) :: u64) \<noteq> of_nat (length ys)"
    using assms(5,6) False by (subst u64_of_nat_inj) auto
  ultimately show ?thesis using assms False
    by (auto simp add: strcmp_def strlen_cstr)
qed

section \<open>memset, memcpy, memmove\<close>

lemma memset_loop_other:
  "(\<forall>i<n. q \<noteq> d + of_nat i) \<Longrightarrow> memset_loop c n m d q = m q"
proof (induction n arbitrary: m d)
  case 0
  then show ?case by simp
next
  case (Suc n)
  have "q \<noteq> d" using Suc.prems by (auto dest: spec [of _ 0])
  moreover have "\<forall>i<n. q \<noteq> d + 1 + of_nat i"
    using Suc.prems by (metis Suc_less_eq add.assoc of_nat_Suc)
  ultimately show ?case using Suc.IH by simp
qed

lemma memset_loop_in:
  "i < n \<Longrightarrow> n \<le> 2 ^ 64 \<Longrightarrow> memset_loop c n m d (d + of_nat i) = c"
proof (induction n arbitrary: m d i)
  case 0
  then show ?case by simp
next
  case (Suc n)
  show ?case
  proof (cases i)
    case 0
    have "\<forall>j<n. d \<noteq> d + 1 + of_nat j"
    proof (intro allI impI)
      fix j assume "j < n"
      then show "d \<noteq> d + 1 + of_nat j"
        using u64_neq_offset [of "Suc j" d] Suc.prems by (simp add: add.assoc)
    qed
    with 0 show ?thesis using memset_loop_other [of n d "d + 1" c "m(d := c)"] by simp
  next
    case (Suc j)
    have "memset_loop c n (m(d := c)) (d + 1) (d + 1 + of_nat j) = c"
      using Suc Suc.prems by (intro Suc.IH) auto
    with Suc show ?thesis by (simp add: add.assoc)
  qed
qed

lemma copy_loop_other:
  "(\<forall>j<n. q \<noteq> dest + i + of_nat j) \<Longrightarrow> copy_loop n m dest src i q = m q"
proof (induction n arbitrary: m i)
  case 0
  then show ?case by simp
next
  case (Suc n)
  have "q \<noteq> dest + i" using Suc.prems by (auto dest: spec [of _ 0])
  moreover have "\<forall>j<n. q \<noteq> dest + (i + 1) + of_nat j"
  proof (intro allI impI)
    fix j assume "j < n"
    with Suc.prems have "q \<noteq> dest + i + of_nat (Suc j)" by blast
    then show "q \<noteq> dest + (i + 1) + of_nat j" by (simp add: add.assoc)
  qed
  ultimately show ?case using Suc.IH by simp
qed

text \<open>
  A forward copy is right as long as no byte is overwritten before it is read: no
  destination byte written earlier is a source byte read later.
\<close>

lemma copy_loop_copies:
  assumes "k < n" "n \<le> 2 ^ 64"
    and "\<And>j l. j < l \<Longrightarrow> l < n \<Longrightarrow> dest + i + of_nat j \<noteq> src + i + of_nat l"
  shows "copy_loop n m dest src i (dest + i + of_nat k) = m (src + i + of_nat k)"
  using assms
proof (induction n arbitrary: m i k)
  case 0
  then show ?case by simp
next
  case (Suc n)
  let ?m = "m(dest + i := m (src + i))"
  show ?case
  proof (cases k)
    case 0
    have "\<forall>j<n. dest + i \<noteq> dest + (i + 1) + of_nat j"
    proof (intro allI impI)
      fix j assume "j < n"
      then show "dest + i \<noteq> dest + (i + 1) + of_nat j"
        using u64_neq_offset [of "Suc j" "dest + i"] Suc.prems(2) by (simp add: add.assoc)
    qed
    with 0 show ?thesis using copy_loop_other [of n "dest + i" dest "i + 1" ?m src] by simp
  next
    case (Suc k')
    have "copy_loop n ?m dest src (i + 1) (dest + (i + 1) + of_nat k') =
        ?m (src + (i + 1) + of_nat k')"
    proof (rule Suc.IH)
      show "k' < n" "n \<le> 2 ^ 64" using Suc Suc.prems by auto
      show "dest + (i + 1) + of_nat j \<noteq> src + (i + 1) + of_nat l" if "j < l" "l < n" for j l
        using Suc.prems(3) [of "Suc j" "Suc l"] that by (simp add: add.assoc)
    qed
    moreover have "src + (i + 1) + of_nat k' \<noteq> dest + i"
      using Suc.prems(3) [of 0 k] Suc Suc.prems(1) by (simp add: add.assoc)
    ultimately show ?thesis using Suc by (simp add: add.assoc)
  qed
qed


lemma scast_u8_u32_inj: "(scast (a :: u8) :: u32) = scast b \<longleftrightarrow> a = b"
proof
  assume "(scast a :: u32) = scast b"
  then have "sint (scast a :: u32) = sint (scast b :: u32)" by simp
  moreover have "sint (scast w :: u32) = sint w" for w :: u8
  proof -
    have "- (2 ^ 31) \<le> sint w" "sint w < 2 ^ 31"
      using sint_ge [of w] sint_lt [of w] by simp_all
    then show ?thesis by (simp add: signed_scast_eq signed_take_bit_int_eq_self)
  qed
  ultimately have "sint a = sint b" by simp
  then show "a = b" by (rule signed_word_eqI)
qed simp

section \<open>strrchr\<close>

lemma strrchr_loop_last:
  assumes "k \<le> p" "p < 2 ^ 64" "m (s + of_nat k) = ch"
    and "\<forall>j. k < j \<and> j \<le> p \<longrightarrow> m (s + of_nat j) \<noteq> ch"
  shows "strrchr_loop m s (scast ch) (of_nat p) = of_nat k"
  using assms
proof (induction p)
  case 0
  then show ?case by (subst strrchr_loop.simps) simp
next
  case (Suc p)
  show ?case
  proof (cases "k = Suc p")
    case True
    with Suc.prems show ?thesis by (subst strrchr_loop.simps) simp
  next
    case False
    have "strrchr_loop m s (scast ch) (of_nat p) = of_nat k"
      using Suc.prems False by (intro Suc.IH) auto
    moreover have "(of_nat (Suc p) :: u64) > 0"
      using Suc.prems(2) u64_of_nat_inj [of "Suc p" 0] by (simp add: word_neq_0_conv [symmetric])
    moreover have "m (s + of_nat (Suc p)) \<noteq> ch"
      using Suc.prems(1,4) False by (metis le_refl nat_less_le)
    ultimately show ?thesis
      by (subst strrchr_loop.simps) (simp add: scast_u8_u32_inj)
  qed
qed

lemma strrchr_loop_none:
  assumes "p < 2 ^ 64" "\<forall>j\<le>p. m (s + of_nat j) \<noteq> ch"
  shows "strrchr_loop m s (scast ch) (of_nat p) = - 1"
  using assms
proof (induction p)
  case 0
  then show ?case by (subst strrchr_loop.simps) (simp add: scast_u8_u32_inj)
next
  case (Suc p)
  then have "strrchr_loop m s (scast ch) (of_nat p) = - 1" by simp
  moreover have "(of_nat (Suc p) :: u64) > 0"
    using Suc.prems(1) u64_of_nat_inj [of "Suc p" 0] by (simp add: word_neq_0_conv [symmetric])
  moreover have "m (s + of_nat (Suc p)) \<noteq> ch" using Suc.prems by blast
  ultimately show ?case
    by (subst strrchr_loop.simps) (simp add: scast_u8_u32_inj)
qed

section \<open>strtok\<close>

lemma is_delim_from:
  "is_delim m delim c n i \<longleftrightarrow> (\<exists>j<n. c = m (delim + i + of_nat j))"
proof (induction n arbitrary: i)
  case 0
  then show ?case by simp
next
  case (Suc n)
  have "(\<exists>j<Suc n. c = m (delim + i + of_nat j)) \<longleftrightarrow>
      c = m (delim + i) \<or> (\<exists>j<n. c = m (delim + i + of_nat (Suc j)))"
    by (auto simp: less_Suc_eq_0_disj)
  then show ?case by (simp add: Suc.IH add.assoc)
qed

lemma is_delim_cstr:
  assumes "cstr m delim ds"
  shows "is_delim m delim c (length ds) 0 \<longleftrightarrow> c \<in> set ds"
  using cstr_nth [OF assms] by (auto simp: is_delim_from in_set_conv_nth)

lemma strtok_loop_token:
  assumes "cstr m delim ds" "d \<in> set ds"
  shows "cstr m str (xs @ d # ys) \<Longrightarrow> set xs \<inter> set ds = {} \<Longrightarrow>
    strtok_loop m delim (length ds) ret str =
      Some (m(str + of_nat (length xs) := 0), str + of_nat (length xs) + 1, ret)"
proof (induction xs arbitrary: str)
  case Nil
  then show ?case using assms
    by (subst strtok_loop.simps) (simp add: is_delim_cstr)
next
  case (Cons x xs)
  then show ?case using assms
    by (subst strtok_loop.simps) (simp add: is_delim_cstr add.assoc fun_upd_def)
qed

section \<open>strchrcount\<close>

lemma strchrcount_loop_cstr:
  assumes "cstr m s xs" "s \<noteq> 0" "i \<le> length xs"
  shows "strchrcount_loop m s c (of_nat i) n = Some (n + of_nat (count_list (drop i xs) c))"
  using assms(3)
proof (induction "length xs - i" arbitrary: i n)
  case 0
  then show ?case using assms
    by (subst strchrcount_loop.simps) (simp add: strlen_cstr)
next
  case (Suc k)
  then have i: "i < length xs" by simp
  have lt: "(of_nat i :: u64) < of_nat (length xs)"
    using i cstr_length_less [OF assms(1)] by (simp add: word_less_nat_alt unat_of_nat_less)
  let ?n = "if xs ! i = c then n + 1 else n"
  have "strchrcount_loop m s c (of_nat (Suc i)) ?n =
      Some (?n + of_nat (count_list (drop (Suc i) xs) c))"
    using Suc.hyps i by (intro Suc.hyps(1)) auto
  moreover have "drop i xs = xs ! i # drop (Suc i) xs" using i by (simp add: Cons_nth_drop_Suc)
  ultimately show ?case using lt cstr_nth [OF assms(1) i] assms
    by (subst strchrcount_loop.simps) (auto simp: strlen_cstr add.commute add.left_commute)
qed


section \<open>Where the functions depart from the C standard\<close>

text \<open>
  The order \<^verbatim>\<open>strcmp\<close> reports is not an order: two different strings of the same length
  that have the same second character compare as \<open>1\<close> in both directions, since
  \<^verbatim>\<open>strncmp\<close> compares index 1 instead of the index of the mismatch.
\<close>

lemma strcmp_not_antisymmetric:
  assumes "cstr m a xs" "cstr m b ys" "a \<noteq> 0" "b \<noteq> 0" "length xs = length ys"
    and "xs \<noteq> ys" "m (a + 1) = m (b + 1)"
  shows "strcmp m a b = Some 1 \<and> strcmp m b a = Some 1"
proof -
  have "strncmp_loop m p q n i \<in> {0, 1}" if "m (p + 1) = m (q + 1)" for p q n i
    using that by (induction m p q n i rule: strncmp_loop.induct)
      (subst strncmp_loop.simps, auto)
  then have one: "strncmp m p q n \<noteq> 0 \<Longrightarrow> strncmp m p q n = 1"
    if "m (p + 1) = m (q + 1)" for p q n
    using that by (auto simp: strncmp_def)
  show ?thesis
    using assms one [of a b "of_nat (length xs)"] one [of b a "of_nat (length xs)"]
      strncmp_zero_iff [OF assms(1,2)] strncmp_zero_iff [OF assms(2,1)]
    by (simp add: strcmp_def strlen_cstr)
qed

text \<open>
  \<^verbatim>\<open>strrchr\<close> finds the last occurrence of a character; when there is none it returns the
  address before the string, not the null pointer.
\<close>

lemma strrchr_found:
  assumes "cstr m s xs" "s \<noteq> 0" "k < length xs" "xs ! k = ch" "ch \<noteq> 0"
    and "\<forall>j. k < j \<and> j < length xs \<longrightarrow> xs ! j \<noteq> ch"
  shows "strrchr m s (scast ch) = Some (s + of_nat k)"
proof -
  note len = cstr_length_less [OF assms(1)]
  have "\<forall>j. k < j \<and> j \<le> length xs \<longrightarrow> m (s + of_nat j) \<noteq> ch"
    using cstr_nth [OF assms(1)] cstr_end [OF assms(1)] assms(5,6) by (metis le_neq_implies_less)
  then have "strrchr_loop m s (scast ch) (of_nat (length xs)) = of_nat k"
    using cstr_nth [OF assms(1,3)] assms(3,4) len by (intro strrchr_loop_last) auto
  moreover have "(of_nat k :: u64) \<noteq> of_nat (length xs)"
    using u64_of_nat_inj [of k "length xs"] assms(3) len by auto
  ultimately show ?thesis using assms by (simp add: strrchr_def strlen_cstr)
qed

lemma strrchr_missing:
  assumes "cstr m s xs" "s \<noteq> 0" "ch \<notin> set xs" "ch \<noteq> 0" "length xs < 2 ^ 64 - 1"
  shows "strrchr m s (scast ch) = Some (s - 1)"
proof -
  have "\<forall>j\<le>length xs. m (s + of_nat j) \<noteq> ch"
    using cstr_nth [OF assms(1)] cstr_end [OF assms(1)] assms(3,4)
    by (metis le_neq_implies_less nth_mem)
  then have "strrchr_loop m s (scast ch) (of_nat (length xs)) = - 1"
    using assms(5) by (intro strrchr_loop_none) auto
  moreover have "(- 1 :: u64) \<noteq> of_nat (length xs)"
  proof
    assume "(- 1 :: u64) = of_nat (length xs)"
    then have "unat (- 1 :: u64) = unat (of_nat (length xs) :: u64)" by simp
    with assms(5) show False by (simp add: unat_of_nat unsigned_minus_1_eq_mask mask_eq_exp_minus_1)
  qed
  ultimately show ?thesis using assms by (simp add: strrchr_def strlen_cstr)
qed

text \<open>
  \<^verbatim>\<open>memmove\<close> copies forwards only, so moving a block one byte up smears its first byte over
  the whole destination.
\<close>

lemma copy_loop_smear:
  "k \<le> n \<Longrightarrow> n < 2 ^ 64 \<Longrightarrow> copy_loop n m (s + 1) s i (s + i + of_nat k) = m (s + i)"
proof (induction n arbitrary: m i k)
  case 0
  then show ?case by simp
next
  case (Suc n)
  let ?m = "m(s + 1 + i := m (s + i))"
  have next_one: "?m (s + (i + 1)) = m (s + i)" by (simp add: add.commute add.left_commute)
  show ?case
  proof (cases k)
    case 0
    have "\<forall>j<n. s + i \<noteq> s + 1 + (i + 1) + of_nat j"
    proof (intro allI impI)
      fix j assume "j < n"
      then show "s + i \<noteq> s + 1 + (i + 1) + of_nat j"
        using u64_neq_offset [of "Suc (Suc j)" "s + i"] Suc.prems(2)
        by (simp add: algebra_simps)
    qed
    then have "copy_loop n ?m (s + 1) s (i + 1) (s + i) = ?m (s + i)"
      by (rule copy_loop_other)
    with 0 show ?thesis by simp
  next
    case (Suc k')
    then have "copy_loop n ?m (s + 1) s (i + 1) (s + (i + 1) + of_nat k') = ?m (s + (i + 1))"
      using Suc.prems by (intro Suc.IH) auto
    with Suc next_one show ?thesis by (simp add: add.assoc)
  qed
qed

lemma memmove_overlap_smears:
  "k \<le> unat n \<Longrightarrow> fst (memmove m (s + 1) s n) (s + of_nat k) = m s"
  using copy_loop_smear [of k "unat n" m s 0] unat_less_bound [of n] by (simp add: memmove_def)

section \<open>Properties\<close>

text \<open>
  \<^verbatim>\<open>strlen\<close> of a non-null pointer returns exactly when a terminated string is
  there, and the value is the length of that string.
\<close>

theorem strlen_exact:
  assumes "s \<noteq> 0"
  shows "strlen m s = Some n \<longleftrightarrow> (\<exists>xs. cstr m s xs \<and> n = of_nat (length xs))"
  using assms strlen_Some_cstr strlen_cstr by blast

theorem strlen_exact_witness:
  "strlen (store_bytes (\<lambda>_. 0) 8 [65, 66]) 8 = Some 2"
proof -
  have "\<exists>xs. cstr (store_bytes (\<lambda>_. 0) 8 [65, 66]) 8 xs \<and> (2 :: u64) = of_nat (length xs)"
    by (rule exI [of _ "[65, 66]"]) simp
  then show ?thesis
    by (rule strlen_exact [THEN iffD2, rotated]) simp
qed

text \<open>
  For strings shorter than 4 GiB \<^verbatim>\<open>strcmp\<close> returns and returns 0 exactly when the
  two strings are equal, although the sign it gives to a difference is not reliable.
\<close>

theorem strcmp_decides_equality:
  assumes "cstr m a xs" "cstr m b ys" "a \<noteq> 0" "b \<noteq> 0"
    and "length xs < 2 ^ 32" "length ys < 2 ^ 32"
  shows "\<exists>r. strcmp m a b = Some r \<and> (r = 0 \<longleftrightarrow> xs = ys)"
  using assms by (rule strcmp_zero_iff)

theorem strcmp_decides_equality_witness:
  "\<exists>r. strcmp (store_bytes (store_bytes (\<lambda>_. 0) 8 [65, 66]) 16 [65, 67]) 8 16 = Some r \<and>
     (r = 0 \<longleftrightarrow> [65, 66] = [65, 67 :: u8])"
  by (rule strcmp_decides_equality) simp_all

text \<open>
  \<^verbatim>\<open>memcpy\<close> of \<open>n\<close> bytes between disjoint regions copies every byte, changes nothing
  outside the destination and returns the destination.
\<close>

theorem memcpy_copies:
  assumes "src \<noteq> 0"
    and "\<forall>i<unat n. \<forall>j<unat n. dest + of_nat i \<noteq> src + of_nat j"
  shows "snd (memcpy m dest src n) = dest \<and>
    (\<forall>i<unat n. fst (memcpy m dest src n) (dest + of_nat i) = m (src + of_nat i)) \<and>
    (\<forall>q. (\<forall>i<unat n. q \<noteq> dest + of_nat i) \<longrightarrow> fst (memcpy m dest src n) q = m q)"
proof -
  have n: "unat n \<le> 2 ^ 64" using unat_less_bound [of n] by simp
  have "fst (memcpy m dest src n) (dest + of_nat i) = m (src + of_nat i)" if "i < unat n" for i
    using copy_loop_copies [OF that n, of dest 0 src m] assms by (simp add: memcpy_def)
  moreover have "fst (memcpy m dest src n) q = m q" if "\<forall>i<unat n. q \<noteq> dest + of_nat i" for q
    using copy_loop_other [of "unat n" q dest 0 m src] that assms by (simp add: memcpy_def)
  ultimately show ?thesis using assms by (simp add: memcpy_def)
qed

theorem memcpy_copies_witness:
  "fst (memcpy (store_bytes (\<lambda>_. 0) 8 [65, 66]) 32 8 2) 33 = 66"
proof -
  have "\<forall>i<unat (2 :: u64). \<forall>j<unat (2 :: u64). (32 :: u64) + of_nat i \<noteq> 8 + of_nat j"
    by (auto simp: less_2_cases_iff)
  then have "\<forall>i<unat (2 :: u64). fst (memcpy (store_bytes (\<lambda>_. 0) 8 [65, 66]) 32 8 2) (32 + of_nat i) =
      store_bytes (\<lambda>_. 0) 8 [65, 66] (8 + of_nat i)"
    by (intro memcpy_copies [THEN conjunct2, THEN conjunct1]) simp_all
  from this [rule_format, of 1] show ?thesis by simp
qed

text \<open>
  The first call of \<^verbatim>\<open>strtok\<close> on a string whose first delimiter comes after a
  non-empty token returns the token: it is terminated in place, and the saved pointer is the
  rest of the string, ready for the next call.
\<close>

theorem strtok_splits:
  assumes "cstr m delim ds" "delim \<noteq> 0" "s \<noteq> 0"
    and "cstr m s (xs @ d # ys)" "xs \<noteq> []" "set xs \<inter> set ds = {}" "d \<in> set ds"
  shows "\<exists>m' p'. strtok m p s delim = Some (m', p', s) \<and> cstr m' s xs \<and> cstr m' p' ys"
proof -
  let ?k = "length xs" and ?m = "m(s + of_nat (length xs) := 0)"
  have len: "length (xs @ d # ys) < 2 ^ 64" using assms(4) by (rule cstr_length_less)
  have ds: "unat (of_nat (length ds) :: u64) = length ds"
    using cstr_length_less [OF assms(1)] by (simp add: unat_of_nat_less)
  obtain x xs' where xs: "xs = x # xs'" using assms(5) by (cases xs) auto
  have "strtok m p s delim = Some (?m, s + of_nat ?k + 1, s)"
    using assms strtok_loop_token [OF assms(1,7), of s xs ys s] xs
    by (simp add: strtok_def strlen_cstr ds is_delim_cstr Let_def)
  moreover have "cstr ?m s xs"
  proof -
    have "m (s + of_nat i) = xs ! i \<and> xs ! i \<noteq> 0" if "i < ?k" for i
      using cstr_nth [OF assms(4), of i] that by (simp add: nth_append)
    then show ?thesis using len by (auto simp: cstr_iff_nth u64_of_nat_inj)
  qed
  moreover have "cstr ?m (s + of_nat ?k + 1) ys"
  proof -
    have rest: "cstr m (s + of_nat ?k + 1) ys"
      using cstr_drop [OF assms(4), of "Suc ?k"] by (simp add: add.commute add.left_commute)
    have "s + of_nat ?k + 1 + of_nat i \<noteq> s + of_nat ?k" if "i \<le> length ys" for i
      using u64_neq_offset [of "Suc i" "s + of_nat ?k"] that len by (simp add: add.assoc)
    with rest show ?thesis by (auto simp: cstr_iff_nth)
  qed
  ultimately show ?thesis by blast
qed

theorem strtok_splits_witness:
  "\<exists>m' p'. strtok (store_bytes (store_bytes (\<lambda>_. 0) 8 [97, 32, 98]) 64 [32]) 0 8 64 =
       Some (m', p', 8) \<and> cstr m' 8 [97] \<and> cstr m' p' [98]"
  by (rule strtok_splits [where ds = "[32]" and d = 32]) simp_all

end
