(* ===== verification/Navy_Itoa.thy ===== *)
theory Navy_Itoa
  imports Navy_String
begin

text \<open>
  Numbers and their decimal and hexadecimal text: \<^verbatim>\<open>libs/navy/itoa.c\<close>,
  \<^verbatim>\<open>libs/ansi/math.c\<close>, \<^verbatim>\<open>libs/ansi/ctype.c\<close> and the numeric functions of
  \<^verbatim>\<open>libs/ansi/stdlib.c\<close>. An \<^verbatim>\<open>int64_t\<close> is an \<open>int\<close>. A local array of
  characters is a memory object of its own, with the uninitialised stack bytes as its
  contents, at the address \<open>LOCAL\<close>. The reference definitions \<open>radix_digits\<close> and
  \<open>radix_string\<close> say what text a number should have.
\<close>

unbundle bit_operations_syntax

section \<open>The functions of itoa.c\<close>

function strrev_loop :: "mem \<Rightarrow> u64 \<Rightarrow> u64 \<Rightarrow> u64 \<Rightarrow> mem" where
  "strrev_loop m s start end' =
     (if start < end'
      then (let tmp = m (s + start);
                m1 = m(s + start := m (s + end'));
                m2 = m1(s + end' := tmp)
            in strrev_loop m2 s (start + 1) (end' - 1))
      else m)"
  by pat_completeness auto
termination
proof (relation "measure (\<lambda>(m, s, a, b). unat b)", goal_cases)
  case 1
  show ?case by simp
next
  case (2 m s start end' x xa xb)
  then have "end' \<noteq> 0" by auto
  then show ?case by (simp add: measure_unat)
qed

definition strrev :: "mem \<Rightarrow> u64 \<Rightarrow> mem option" where
  "strrev m s = map_option (\<lambda>l. strrev_loop m s 0 (l - 1)) (strlen m s)"

text \<open>
  The \<^verbatim>\<open>do ... while (value)\<close> loop. The digit is an \<^verbatim>\<open>int8_t\<close> and \<^verbatim>\<open>%\<close> and \<^verbatim>\<open>/\<close>
  truncate; base 0 is the processor's division fault, so there is no result.
\<close>

definition digit_char :: "u8 \<Rightarrow> u8" where
  "digit_char digit = (if sint digit < 10 then digit + 48 else (digit - 10) + 97)"

partial_function (option) itoa_loop ::
  "u64 \<Rightarrow> u16 \<Rightarrow> mem \<Rightarrow> int \<Rightarrow> u64 \<Rightarrow> (mem \<times> u64) option" where
  "itoa_loop str base m value index =
     (if base = 0 then None
      else let digit = word_of_int (value smod uint base);
               m' = m(str + index := digit_char digit);
               value' = value sdiv uint base
           in if value' \<noteq> 0 then itoa_loop str base m' value' (index + 1)
              else Some (m', index + 1))"

declare itoa_loop.simps [code]

definition itoa_write :: "u64 \<Rightarrow> u16 \<Rightarrow> mem \<Rightarrow> int \<Rightarrow> u64 \<Rightarrow> mem option" where
  "itoa_write str base m value index =
     Option.bind (itoa_loop str base m value index) (\<lambda>(m', index').
       strrev (m'(str + index' := 0)) str)"

text \<open>Copying \<open>n\<close> characters from a local array to \<open>str\<close>.\<close>

primrec put_loop :: "nat \<Rightarrow> mem \<Rightarrow> u64 \<Rightarrow> mem \<Rightarrow> u64 \<Rightarrow> mem" where
  "put_loop 0 m d lm s = m"
| "put_loop (Suc n) m d lm s = put_loop n (m(d := lm s)) (d + 1) lm (s + 1)"

definition LOCAL :: u64 where
  "LOCAL = 1"

text \<open>
  The recursive calls are made on the two 32-bit halves of a negative value, which are not
  negative, so they do not recurse again. \<open>stk\<close> is the uninitialised stack.
\<close>

function itoa :: "mem \<Rightarrow> mem \<Rightarrow> int \<Rightarrow> u64 \<Rightarrow> u16 \<Rightarrow> mem option" where
  "itoa stk m value str base =
     (if value < 0 \<and> base \<noteq> 10
      then (let right = value AND 0xffffffff;
                left = drop_bit 32 (value AND 0xffffffff00000000)
            in Option.bind (itoa stk stk left LOCAL base) (\<lambda>left_str.
               Option.bind (itoa stk stk right LOCAL base) (\<lambda>right_str.
               Option.bind (strlen left_str LOCAL) (\<lambda>nl.
               Option.bind (strlen right_str LOCAL) (\<lambda>nr.
                 Some (put_loop (unat nr) (put_loop (unat nl) m str left_str LOCAL)
                   (str + nl) right_str LOCAL))))))
      else if value < 0
      then itoa_write str base (m(str := 45)) value 1
      else itoa_write str base m value 0)"
  by pat_completeness auto
termination
  by (relation "measure (\<lambda>(stk, m, value, str, base). if value < 0 then 1 else 0)")
    (auto simp: not_less)

declare strrev_loop.simps [simp del] itoa.simps [simp del]

section \<open>math.c, ctype.c, stdlib.c\<close>

primrec pow_loop :: "nat \<Rightarrow> u64 \<Rightarrow> u64 \<Rightarrow> u64" where
  "pow_loop 0 base r = r"
| "pow_loop (Suc n) base r = pow_loop n base (r * base)"

definition pow :: "u64 \<Rightarrow> u64 \<Rightarrow> u64" where
  "pow base pw = (if 0 <s pw then pow_loop (unat pw) base 1 else 1)"

definition isdigit :: "int \<Rightarrow> bool" where
  "isdigit c \<longleftrightarrow> c \<ge> 48 \<and> c \<le> 57"

text \<open>
  One step of \<^verbatim>\<open>atoi\<close>: \<^verbatim>\<open>(nptr[index] - '0') * (uint32_t) pow(10, power)\<close> is computed in
  32 unsigned bits and then added to the 64-bit sum.
\<close>

partial_function (option) atoi_loop :: "mem \<Rightarrow> u64 \<Rightarrow> u64 \<Rightarrow> int \<Rightarrow> int option" where
  "atoi_loop m nptr index acc =
     (if m (nptr + index) = 0 then Some acc
      else Option.bind (strlen m nptr) (\<lambda>l.
        let pw = ucast (l - index - 1) :: u16;
            term = (scast (m (nptr + index)) - 48) * (ucast (pow 10 (ucast pw)) :: u32)
        in atoi_loop m nptr (index + 1) (acc + uint term)))"

declare atoi_loop.simps [code]

definition atoi :: "mem \<Rightarrow> u64 \<Rightarrow> u32 option" where
  "atoi m nptr =
     (let is_negative = (m nptr = 45)
      in map_option (\<lambda>v. word_of_int (if is_negative then v * - 1 else v))
           (atoi_loop m nptr (if is_negative then 1 else 0) 0))"

definition random :: "u32 \<Rightarrow> u32 \<times> u32" where
  "random random_next =
     (let random_next' = random_next * 1103515245 + 12345
      in (random_next', random_next' div 65536 mod 32768))"

definition srandom :: "u32 \<Rightarrow> u32" where
  "srandom seed = seed"

section \<open>Reference: the digits of a number\<close>

fun radix_digits :: "nat \<Rightarrow> nat \<Rightarrow> nat list" where
  "radix_digits b n = (if b < 2 \<or> n < b then [n] else (n mod b) # radix_digits b (n div b))"

declare radix_digits.simps [simp del]

fun radix_value :: "nat \<Rightarrow> nat list \<Rightarrow> nat" where
  "radix_value b [] = 0"
| "radix_value b (d # ds) = d + b * radix_value b ds"

definition radix_string :: "nat \<Rightarrow> nat \<Rightarrow> u8 list" where
  "radix_string b n = map (\<lambda>d. digit_char (of_nat d)) (rev (radix_digits b n))"

lemma radix_digits_not_Nil: "radix_digits b n \<noteq> []"
  by (subst radix_digits.simps) simp

lemma radix_value_digits: "radix_value b (radix_digits b n) = n"
proof (induction b n rule: radix_digits.induct)
  case (1 b n)
  then show ?case by (subst radix_digits.simps) auto
qed

lemma radix_digits_less: "2 \<le> b \<Longrightarrow> d \<in> set (radix_digits b n) \<Longrightarrow> d < b"
proof (induction b n rule: radix_digits.induct)
  case (1 b n)
  then show ?case by (subst (asm) (2) radix_digits.simps) (auto split: if_splits)
qed

lemma radix_digits_length: "2 \<le> b \<Longrightarrow> n < b ^ k \<Longrightarrow> 0 < k \<Longrightarrow> length (radix_digits b n) \<le> k"
proof (induction k arbitrary: n)
  case 0
  then show ?case by simp
next
  case (Suc k)
  show ?case
  proof (cases "n < b")
    case True
    then show ?thesis by (subst radix_digits.simps) simp
  next
    case False
    have "n div b < b ^ k" using Suc.prems by (simp add: less_mult_imp_div_less mult.commute)
    moreover have "0 < k" using Suc.prems False by (cases k) auto
    ultimately have "length (radix_digits b (n div b)) \<le> k" using Suc.IH Suc.prems by simp
    with False show ?thesis using Suc.prems by (subst radix_digits.simps) simp
  qed
qed

lemma length_radix_string [simp]: "length (radix_string b n) = length (radix_digits b n)"
  by (simp add: radix_string_def)

lemma digit_char_of_nat:
  assumes "d < 36"
  shows "digit_char (of_nat d) = of_nat (if d < 10 then d + 48 else d + 87)"
proof -
  have "list_all (\<lambda>d. digit_char (of_nat d) = of_nat (if d < 10 then d + 48 else d + 87)) [0..<36]"
    by code_simp
  with assms show ?thesis by (simp add: list_all_iff)
qed

lemma digit_char_nonzero:
  assumes "d < 36"
  shows "digit_char (of_nat d) \<noteq> 0"
proof -
  have "list_all (\<lambda>d. digit_char (of_nat d) \<noteq> 0) [0..<36]" by code_simp
  with assms show ?thesis by (simp add: list_all_iff)
qed

lemma radix_string_nonzero:
  assumes "2 \<le> b" "b \<le> 36" "c \<in> set (radix_string b n)"
  shows "c \<noteq> 0"
proof -
  from assms(3) obtain d where d: "d \<in> set (radix_digits b n)" "c = digit_char (of_nat d)"
    by (auto simp: radix_string_def)
  have "d < 36" using radix_digits_less [OF assms(1) d(1)] assms(2) by linarith
  then show ?thesis unfolding d(2) by (rule digit_char_nonzero)
qed

section \<open>The digit loop and the reversal\<close>

lemma store_bytes_append:
  "store_bytes m p (xs @ ys) = store_bytes (store_bytes m p xs) (p + of_nat (length xs)) ys"
  by (induction xs arbitrary: m p) (simp_all add: add.assoc)

lemma store_bytes_other:
  "(\<forall>i<length xs. q \<noteq> p + of_nat i) \<Longrightarrow> store_bytes m p xs q = m q"
proof (induction xs arbitrary: m p)
  case Nil
  then show ?case by simp
next
  case (Cons x xs)
  have "q \<noteq> p" using Cons.prems by (auto dest: spec [of _ 0])
  moreover have "\<forall>i<length xs. q \<noteq> p + 1 + of_nat i"
  proof (intro allI impI)
    fix i assume "i < length xs"
    with Cons.prems have "q \<noteq> p + of_nat (Suc i)" by (metis Suc_less_eq length_Cons)
    then show "q \<noteq> p + 1 + of_nat i" by (simp add: add.assoc)
  qed
  ultimately show ?case using Cons.IH by simp
qed

lemma store_bytes_nth:
  "i < length xs \<Longrightarrow> length xs \<le> 2 ^ 64 \<Longrightarrow> store_bytes m p xs (p + of_nat i) = xs ! i"
proof (induction xs arbitrary: m p i)
  case Nil
  then show ?case by simp
next
  case (Cons x xs)
  show ?case
  proof (cases i)
    case 0
    have "p \<noteq> p + 1 + of_nat j" if "j < length xs" for j
      using u64_neq_offset [of "Suc j" p] that Cons.prems(2) by (simp add: add.assoc)
    with 0 show ?thesis using store_bytes_other [of xs p "p + 1"] by simp
  next
    case (Suc j)
    then have "store_bytes (m(p := x)) (p + 1) xs (p + 1 + of_nat j) = xs ! j"
      using Cons.prems by (intro Cons.IH) auto
    with Suc show ?thesis by (simp add: add.assoc)
  qed
qed

lemma smod_nat: "int n smod int b = int (n mod b)"
  by (simp add: signed_modulo_int_def signed_divide_int_def sgn_if zmod_int
      minus_div_mult_eq_mod)

lemma sdiv_nat: "int n sdiv int b = int (n div b)"
  by (simp add: signed_divide_int_def sgn_if zdiv_int)

lemma itoa_loop_digits:
  assumes "2 \<le> unat base"
  shows "itoa_loop str base m (int n) index =
    Some (store_bytes m (str + index)
            (map (\<lambda>d. digit_char (of_nat d)) (radix_digits (unat base) n)),
          index + of_nat (length (radix_digits (unat base) n)))"
proof (induction n arbitrary: m index rule: less_induct)
  case (less n)
  define b where "b = unat base"
  have b: "2 \<le> b" "base \<noteq> 0" "uint base = int b"
    using assms by (auto simp: b_def)
  note step = itoa_loop.simps [of str base m "int n" index] and digits = radix_digits.simps [of b n]
  show ?case
  proof (cases "n < b")
    case True
    then show ?thesis unfolding b_def [symmetric] using b
      by (subst step) (simp add: digits smod_nat sdiv_nat Let_def)
  next
    case False
    have "n div b < n" using False b(1) by simp
    from less.IH [OF this] show ?thesis unfolding b_def [symmetric] using b False
      by (subst step) (simp add: digits smod_nat sdiv_nat Let_def add.assoc div_eq_0_iff)
  qed
qed

lemma strrev_loop_nth:
  assumes "k < 2 ^ 64" "b + 1 < 2 ^ 64" "a \<le> b + 1"
  shows "strrev_loop m s (of_nat a) (of_nat b) (s + of_nat k) =
    (if a \<le> k \<and> k \<le> b then m (s + of_nat (a + b - k)) else m (s + of_nat k))"
  using assms
proof (induction b arbitrary: m a rule: less_induct)
  case (less b)
  note step = strrev_loop.simps [of m s "of_nat a" "of_nat b"]
  have less_iff: "(of_nat a :: u64) < of_nat b \<longleftrightarrow> a < b"
    using less.prems by (simp add: word_less_nat_alt unat_of_nat_less)
  show ?case
  proof (cases "a < b")
    case False
    then have "a = b \<or> a = b + 1" using less.prems by auto
    with False show ?thesis by (subst step) (auto simp: less_iff)
  next
    case True
    let ?m = "m(s + of_nat a := m (s + of_nat b), s + of_nat b := m (s + of_nat a))"
    have pred: "(of_nat b - 1 :: u64) = of_nat (b - 1)" using True by (simp add: of_nat_diff)
    have IH: "strrev_loop ?m s (of_nat (a + 1)) (of_nat (b - 1)) (s + of_nat k) =
        (if a + 1 \<le> k \<and> k \<le> b - 1 then ?m (s + of_nat (a + 1 + (b - 1) - k))
         else ?m (s + of_nat k))"
      using True less.prems by (intro less.IH) auto
    have unchanged: "?m (s + of_nat j) = m (s + of_nat j)" if "a < j" "j < b" for j
      using that less.prems by (simp add: u64_of_nat_inj)
    have ends: "?m (s + of_nat a) = m (s + of_nat b)" "?m (s + of_nat b) = m (s + of_nat a)"
      using True less.prems by (simp_all add: u64_of_nat_inj)
    have out: "?m (s + of_nat k) = m (s + of_nat k)" if "k \<noteq> a" "k \<noteq> b"
      using that True less.prems by (simp add: u64_of_nat_inj)
    have "strrev_loop m s (of_nat a) (of_nat b) (s + of_nat k) =
        strrev_loop ?m s (of_nat (a + 1)) (of_nat (b - 1)) (s + of_nat k)"
      by (subst step) (simp only: less_iff True Let_def if_True pred of_nat_add of_nat_1)
    also have "\<dots> = (if a \<le> k \<and> k \<le> b then m (s + of_nat (a + b - k)) else m (s + of_nat k))"
    proof (cases "a + 1 \<le> k \<and> k \<le> b - 1")
      case inner: True
      then have "a < a + b - k" "a + b - k < b" "a + 1 + (b - 1) - k = a + b - k" using True by auto
      with inner IH unchanged [of "a + b - k"] show ?thesis by auto
    next
      case outer: False
      then have "k = a \<or> k = b \<or> \<not> (a \<le> k \<and> k \<le> b)" using True by auto
      moreover have "strrev_loop ?m s (of_nat (a + 1)) (of_nat (b - 1)) (s + of_nat k) =
          ?m (s + of_nat k)"
        unfolding IH using outer by auto
      ultimately show ?thesis using ends out True by auto
    qed
    finally show ?thesis .
  qed
qed

text \<open>Reversing the non-empty string at \<open>s\<close>: the string is reversed, nothing else changes.\<close>

lemma strrev_cstr:
  assumes "cstr m s xs" "xs \<noteq> []" "s \<noteq> 0"
  shows "\<exists>m'. strrev m s = Some m' \<and> cstr m' s (rev xs) \<and>
    (\<forall>q. (\<forall>i<length xs. q \<noteq> s + of_nat i) \<longrightarrow> m' q = m q)"
proof -
  obtain l where l: "length xs = Suc l" using assms(2) by (cases xs) auto
  let ?m = "strrev_loop m s 0 (of_nat l)"
  have n: "l + 1 < 2 ^ 64" using cstr_length_less [OF assms(1)] l by simp
  have at: "?m (s + of_nat k) = (if k \<le> l then m (s + of_nat (l - k)) else m (s + of_nat k))"
    if "k < 2 ^ 64" for k
    using strrev_loop_nth [of k l 0 m s] that n by simp
  have "cstr ?m s (rev xs)" unfolding cstr_iff_nth
  proof (intro conjI allI impI)
    fix i assume i: "i < length (rev xs)"
    then have "?m (s + of_nat i) = m (s + of_nat (l - i))" using at [of i] n l by simp
    also have "\<dots> = xs ! (l - i)" using cstr_nth [OF assms(1), of "l - i"] l by simp
    also have "\<dots> = rev xs ! i" using i l by (simp add: rev_nth)
    finally show "?m (s + of_nat i) = rev xs ! i" .
    show "rev xs ! i \<noteq> 0" using cstr_nth [OF assms(1), of "l - i"] i l by (simp add: rev_nth)
  next
    show "?m (s + of_nat (length (rev xs))) = 0"
      using at [of "Suc l"] n l cstr_end [OF assms(1)] by simp
  qed
  moreover have "?m q = m q" if q: "\<forall>i<length xs. q \<noteq> s + of_nat i" for q
  proof -
    let ?k = "unat (q - s)"
    have eq: "q = s + of_nat ?k" by simp
    have "\<not> ?k < length xs" using q eq by blast
    moreover have "?k < 2 ^ 64" using unat_less_bound [of "q - s"] by simp
    ultimately show ?thesis using at [of ?k] l eq by simp
  qed
  moreover have "strrev m s = Some ?m"
    using assms l by (simp add: strrev_def strlen_cstr)
  ultimately show ?thesis by blast
qed

text \<open>A number that is not negative: the text of the number, terminated, and nothing else.\<close>

lemma itoa_nonneg:
  assumes "2 \<le> unat base" "unat base \<le> 36" "str \<noteq> 0" "n < 2 ^ 64"
  shows "\<exists>m'. itoa stk m (int n) str base = Some m' \<and>
    cstr m' str (radix_string (unat base) n) \<and>
    (\<forall>q. (\<forall>i\<le>length (radix_string (unat base) n). q \<noteq> str + of_nat i) \<longrightarrow> m' q = m q)"
proof -
  let ?b = "unat base"
  let ?cs = "map (\<lambda>d. digit_char (of_nat d)) (radix_digits ?b n)"
  let ?m = "(store_bytes m str ?cs)(str + of_nat (length ?cs) := 0)"
  have "n < ?b ^ 64" using assms(1,4) power_mono [of 2 ?b 64] by simp
  then have len: "length ?cs \<le> 64" using radix_digits_length [OF assms(1), of n 64] by simp
  have rev: "radix_string ?b n = rev ?cs" by (simp add: radix_string_def rev_map)
  have "itoa stk m (int n) str base = strrev ?m str"
    using itoa_loop_digits [OF assms(1), of str m n 0]
    by (subst itoa.simps) (simp add: itoa_write_def)
  moreover have "cstr ?m str ?cs" unfolding cstr_iff_nth
  proof (intro conjI allI impI)
    fix i assume i: "i < length ?cs"
    then have "str + of_nat i \<noteq> str + of_nat (length ?cs)"
      using u64_of_nat_inj [of i "length ?cs"] i len by simp
    then show "?m (str + of_nat i) = ?cs ! i"
      using store_bytes_nth [OF i, of m str] len by simp
    show "?cs ! i \<noteq> 0"
      using radix_string_nonzero [OF assms(1,2), of "?cs ! i" n] nth_mem [OF i]
      by (simp add: rev)
  qed simp
  then obtain m' where m': "strrev ?m str = Some m'" "cstr m' str (rev ?cs)"
    "\<forall>q. (\<forall>i<length ?cs. q \<noteq> str + of_nat i) \<longrightarrow> m' q = ?m q"
    using strrev_cstr [of ?m str ?cs] assms(3) radix_digits_not_Nil by auto
  moreover have "m' q = m q" if q: "\<forall>i\<le>length ?cs. q \<noteq> str + of_nat i" for q
  proof -
    have "m' q = ?m q" using m'(3) q by simp
    also have "\<dots> = store_bytes m str ?cs q" using q by auto
    also have "\<dots> = m q" using q by (intro store_bytes_other) simp
    finally show ?thesis .
  qed
  ultimately show ?thesis by (simp add: rev)
qed


section \<open>Negative numbers\<close>

lemma put_loop_cstr: "cstr lm s xs \<Longrightarrow> put_loop (length xs) m d lm s = store_bytes m d xs"
  by (induction xs arbitrary: m d s) simp_all

lemma itoa_negative:
  assumes "v < 0" "- (2 ^ 63) \<le> v" "base \<noteq> 10" "2 \<le> unat base" "unat base \<le> 36"
  shows "itoa stk m v str base =
    Some (store_bytes m str
      (radix_string (unat base) (nat (v mod 2 ^ 64 div 2 ^ 32)) @
       radix_string (unat base) (nat (v mod 2 ^ 32))))"
proof -
  define L R where "L = nat (v mod 2 ^ 64 div 2 ^ 32)" and "R = nat (v mod 2 ^ 32)"
  have right: "v AND 0xffffffff = int R"
    using take_bit_eq_mask [of 32 v] by (simp add: R_def mask_eq_exp_minus_1 take_bit_eq_mod)
  have "(0xffffffff00000000 :: int) = push_bit 32 (mask 32)"
    by (simp add: mask_eq_exp_minus_1 push_bit_eq_mult)
  moreover have "drop_bit 32 (v AND push_bit 32 (mask 32)) = take_bit 32 (drop_bit 32 v)"
    by (auto simp: bit_eq_iff bit_simps)
  ultimately have "drop_bit 32 (v AND 0xffffffff00000000) = take_bit 32 (drop_bit 32 v)"
    by (simp only:)
  also have "\<dots> = int L"
    by (simp only: take_bit_drop_bit) (simp add: L_def take_bit_eq_mod drop_bit_eq_div)
  finally have left: "drop_bit 32 (v AND 0xffffffff00000000) = int L" .
  then have left': "drop_bit 32 v AND 0xffffffff = int L" by simp
  have bounds: "L < 2 ^ 64" "R < 2 ^ 64" by (simp_all add: L_def R_def nat_less_iff)
  obtain ml where ml: "itoa stk stk (int L) LOCAL base = Some ml"
    "cstr ml LOCAL (radix_string (unat base) L)"
    using itoa_nonneg [OF assms(4,5), of LOCAL L stk stk] bounds by (auto simp: LOCAL_def)
  obtain mr where mr: "itoa stk stk (int R) LOCAL base = Some mr"
    "cstr mr LOCAL (radix_string (unat base) R)"
    using itoa_nonneg [OF assms(4,5), of LOCAL R stk stk] bounds by (auto simp: LOCAL_def)
  have "strlen ml LOCAL = Some (of_nat (length (radix_string (unat base) L)))"
    "strlen mr LOCAL = Some (of_nat (length (radix_string (unat base) R)))"
    using strlen_cstr [OF ml(2)] strlen_cstr [OF mr(2)] by (simp_all add: LOCAL_def)
  moreover have "unat (of_nat (length (radix_string (unat base) L)) :: u64) =
      length (radix_string (unat base) L)"
    "unat (of_nat (length (radix_string (unat base) R)) :: u64) =
      length (radix_string (unat base) R)"
    using cstr_length_less [OF ml(2)] cstr_length_less [OF mr(2)]
    by (simp_all add: unat_of_nat_less)
  ultimately show ?thesis unfolding L_def [symmetric] R_def [symmetric]
    using assms(1,3) ml mr put_loop_cstr [OF ml(2)] put_loop_cstr [OF mr(2)]
    by (subst itoa.simps) (simp add: Let_def left' right store_bytes_append)
qed

lemma itoa_loop_negative_digits:
  assumes "2 \<le> unat base"
  shows "itoa_loop str base m (- int n) index =
    Some (store_bytes m (str + index)
            (map (\<lambda>d. digit_char (- of_nat d)) (radix_digits (unat base) n)),
          index + of_nat (length (radix_digits (unat base) n)))"
proof (induction n arbitrary: m index rule: less_induct)
  case (less n)
  define b where "b = unat base"
  have b: "2 \<le> b" "base \<noteq> 0" "uint base = int b"
    using assms by (auto simp: b_def)
  note step = itoa_loop.simps [of str base m "- int n" index] and digits = radix_digits.simps [of b n]
  show ?case
  proof (cases "n < b")
    case True
    then show ?thesis unfolding b_def [symmetric] using b
      by (subst step) (simp add: digits smod_nat sdiv_nat Let_def)
  next
    case False
    have "n div b < n" using False b(1) by simp
    from less.IH [OF this] show ?thesis unfolding b_def [symmetric] using b False
      by (subst step) (simp add: digits smod_nat sdiv_nat Let_def add.assoc div_eq_0_iff)
  qed
qed

text \<open>
  In base 10 the digits of a negative number are the characters below \<^verbatim>\<open>'0'\<close>, and the sign
  is last.
\<close>

lemma itoa_negative_ten:
  assumes "0 < n" "n < 2 ^ 64" "str \<noteq> 0"
  shows "\<exists>m'. itoa stk m (- int n) str 10 = Some m' \<and>
    cstr m' str (map (\<lambda>d. digit_char (- of_nat d)) (rev (radix_digits 10 n)) @ [45])"
proof -
  let ?cs = "45 # map (\<lambda>d. digit_char (- of_nat d)) (radix_digits 10 n)"
  let ?m = "(store_bytes m str ?cs)(str + of_nat (length ?cs) := 0)"
  have "n < 10 ^ 64" using assms(2) by simp
  then have len: "length ?cs \<le> 65" using radix_digits_length [of 10 n 64] by simp
  have "itoa stk m (- int n) str 10 = strrev ?m str"
    using itoa_loop_negative_digits [of 10 str "m(str := 45)" n 1] assms(1)
    by (subst itoa.simps) (simp add: itoa_write_def)
  moreover have "cstr ?m str ?cs" unfolding cstr_iff_nth
  proof (intro conjI allI impI)
    fix i assume i: "i < length ?cs"
    then have "str + of_nat i \<noteq> str + of_nat (length ?cs)"
      using u64_of_nat_inj [of i "length ?cs"] i len by simp
    then show "?m (str + of_nat i) = ?cs ! i"
      using store_bytes_nth [OF i, of m str] len by simp
    have "list_all (\<lambda>d. digit_char (- of_nat d) \<noteq> 0) [0..<10]" by code_simp
    then have "digit_char (- of_nat d) \<noteq> 0" if "d \<in> set (radix_digits 10 n)" for d
      using radix_digits_less [of 10 d n] that by (simp add: list_all_iff)
    then show "?cs ! i \<noteq> 0" using nth_mem [OF i] by auto
  qed simp
  then obtain m' where "strrev ?m str = Some m'" "cstr m' str (rev ?cs)"
    using strrev_cstr [of ?m str ?cs] assms(3) by auto
  ultimately show ?thesis by (simp add: rev_map)
qed

section \<open>atoi\<close>

lemma pow_loop_eq: "pow_loop n base r = r * base ^ n"
  by (induction n arbitrary: r) (simp_all add: mult.assoc)

lemma ucast_u32_of_nat: "ucast (of_nat x :: u64) = (of_nat x :: u32)"
  by (simp add: unsigned_of_nat word_of_nat_eq_iff take_bit_eq_mod mod_mod_cancel)


lemma pow_ten: "k < 2 ^ 16 \<Longrightarrow> pow 10 (ucast (of_nat k :: u16)) = of_nat (10 ^ k)"
proof -
  assume k: "k < 2 ^ 16"
  have u: "unat (ucast (of_nat k :: u16) :: u64) = k"
    using k by (simp add: unsigned_ucast_eq unat_of_nat take_bit_eq_mod)
  then have "sint (ucast (of_nat k :: u16) :: u64) = int k"
    using k by (simp add: sint_uint uint_nat signed_take_bit_int_eq_self)
  with u show ?thesis by (simp add: pow_def word_sless_alt pow_loop_eq)
qed

text \<open>The digit characters, most significant first.\<close>

definition digit_text :: "nat list \<Rightarrow> u8 list" where
  "digit_text ds = map (\<lambda>d. of_nat (d + 48)) ds"

lemma scast_digit: "d < 10 \<Longrightarrow> (scast (of_nat (d + 48) :: u8) :: u32) - 48 = of_nat d"
proof -
  assume "d < 10"
  moreover have "list_all (\<lambda>d. (scast (of_nat (d + 48) :: u8) :: u32) - 48 = of_nat d) [0..<10]"
    by code_simp
  ultimately show ?thesis by (simp add: list_all_iff)
qed

lemma radix_value_append:
  "radix_value b (xs @ ys) = radix_value b xs + b ^ length xs * radix_value b ys"
  by (induction xs) (simp_all add: algebra_simps)

lemma atoi_loop_digits:
  assumes c: "cstr m p (pre @ digit_text ds)" "p \<noteq> 0" "length ds \<le> 2 ^ 16"
    and d: "\<forall>d\<in>set ds. d < 10" "radix_value 10 (rev ds) < 2 ^ 32"
  shows "i \<le> length ds \<Longrightarrow>
    atoi_loop m p (of_nat (length pre + i)) acc = Some (acc + int (radix_value 10 (rev (drop i ds))))"
proof (induction "length ds - i" arbitrary: i acc)
  case 0
  have "m (p + of_nat (length pre + length ds)) = 0"
    using cstr_end [OF c(1)] by (simp add: digit_text_def)
  with 0 show ?case by (subst atoi_loop.simps) simp
next
  case (Suc k)
  then have i: "i < length ds" by simp
  let ?x = "ds ! i" and ?n = "length pre + i"
  have x: "?x < 10" using d(1) i by simp
  have dropi: "drop i ds = ?x # drop (Suc i) ds" using i by (simp add: Cons_nth_drop_Suc)
  have char: "m (p + of_nat ?n) = of_nat (?x + 48)" "m (p + of_nat ?n) \<noteq> 0"
    using cstr_nth [OF c(1), of ?n] i by (simp_all add: digit_text_def nth_append)
  have len: "strlen m p = Some (of_nat (length pre + length ds))"
    using strlen_cstr [OF c(1,2)] by (simp add: digit_text_def)
  have k: "k = length ds - i - 1" "k < 2 ^ 16" using Suc.hyps(2) c(3) i by auto
  have idx: "(of_nat (length pre + length ds) - of_nat ?n - 1 :: u64) = of_nat k"
    using i by (simp add: k(1) of_nat_diff Suc_leI algebra_simps)
  have "ucast (of_nat k :: u64) = (of_nat k :: u16)"
    by (simp add: unsigned_of_nat word_of_nat_eq_iff take_bit_eq_mod mod_mod_cancel)
  then have power: "pow 10 (ucast (ucast (of_nat k :: u64) :: u16)) = of_nat (10 ^ k)"
    using pow_ten [OF k(2)] by simp
  have val: "radix_value 10 (rev (drop i ds)) = radix_value 10 (rev (drop (Suc i) ds)) + 10 ^ k * ?x"
    by (simp add: dropi radix_value_append k(1))
  have "rev ds = rev (drop i ds) @ rev (take i ds)" by (simp flip: rev_append)
  then have "radix_value 10 (rev (drop i ds)) \<le> radix_value 10 (rev ds)"
    by (simp add: radix_value_append)
  then have small: "?x * 10 ^ k < 2 ^ 32" using d(2) val by (simp add: mult.commute)
  have "uint ((scast (of_nat (?x + 48) :: u8) - 48) * (ucast (of_nat (10 ^ k) :: u64)) :: u32) =
      int (?x * 10 ^ k)"
  proof -
    have "(scast (of_nat (?x + 48) :: u8) - 48) * ucast (of_nat (10 ^ k) :: u64) =
        (of_nat (?x * 10 ^ k) :: u32)"
      by (simp only: scast_digit [OF x] ucast_u32_of_nat of_nat_mult)
    moreover have "unat (of_nat (?x * 10 ^ k) :: u32) = ?x * 10 ^ k"
      by (rule unat_of_nat_less) (use small in simp)
    ultimately show ?thesis by (simp only: uint_nat)
  qed
  moreover have "atoi_loop m p (of_nat (length pre + Suc i)) (acc + int (?x * 10 ^ k)) =
      Some (acc + int (?x * 10 ^ k) + int (radix_value 10 (rev (drop (Suc i) ds))))"
    using Suc.hyps i by (intro Suc.hyps(1)) auto
  ultimately show ?case
    using char len val
    by (subst atoi_loop.simps) (simp only: idx power Let_def bind.simps if_False, simp add: algebra_simps)
qed


lemma radix_string_ten: "radix_string 10 n = digit_text (rev (radix_digits 10 n))"
  unfolding radix_string_def digit_text_def
proof (rule map_cong [OF refl])
  fix d assume "d \<in> set (rev (radix_digits 10 n))"
  then have "d < 10" using radix_digits_less [of 10 d n] by simp
  then show "digit_char (of_nat d) = of_nat (d + 48)" by (simp add: digit_char_of_nat)
qed

lemma digit_text_not_minus:
  assumes "\<forall>d\<in>set ds. d < 10" "cstr m p (digit_text ds)"
  shows "m p \<noteq> 45"
proof (cases ds)
  case Nil
  with assms show ?thesis by (simp add: digit_text_def)
next
  case (Cons d ds')
  have "list_all (\<lambda>d. (of_nat (d + 48) :: u8) \<noteq> 45) [0..<10]" by code_simp
  then have "(of_nat (d + 48) :: u8) \<noteq> 45" using assms(1) Cons by (simp add: list_all_iff)
  moreover have "m p = of_nat (d + 48)" using assms(2) Cons by (simp add: digit_text_def)
  ultimately show ?thesis by simp
qed

lemma atoi_radix_string:
  assumes "cstr m p (radix_string 10 n)" "p \<noteq> 0" "n < 2 ^ 32"
  shows "atoi m p = Some (of_nat n)"
proof -
  let ?ds = "rev (radix_digits 10 n)"
  have c: "cstr m p ([] @ digit_text ?ds)" using assms(1) by (simp add: radix_string_ten)
  have "length ?ds \<le> 10"
    using radix_digits_length [of 10 n 10] assms(3) by simp
  moreover have ds: "\<forall>d\<in>set ?ds. d < 10" using radix_digits_less [of 10 _ n] by simp
  ultimately have "atoi_loop m p 0 0 = Some (int n)"
    using atoi_loop_digits [OF c assms(2), of 0 0] assms(3) by (simp add: radix_value_digits)
  moreover have "m p \<noteq> 45" using digit_text_not_minus [OF ds] c by simp
  ultimately show ?thesis by (simp add: atoi_def)
qed

section \<open>Where the text is wrong\<close>

text \<open>
  A negative number in base 10 is not negated before its digits are taken
  (\<^verbatim>\<open>value *= 1\<close>), so the digits are characters below \<^verbatim>\<open>'0'\<close> and the sign ends up last:
  \<open>-5\<close> is the text \<^verbatim>\<open>+-\<close>.
\<close>

lemma itoa_minus_five:
  "\<exists>m'. itoa stk m (- 5) 1 10 = Some m' \<and> cstr m' 1 (cstring ''+-'')"
  using itoa_negative_ten [of 5 1 stk m]
  by (simp add: radix_digits.simps digit_char_def cstring_def)

section \<open>Properties\<close>

text \<open>
  \<^verbatim>\<open>itoa\<close> of a value that is not negative terminates and leaves at \<open>str\<close> the
  terminated text of the value in the given base, whose digits, read back, are the value; it
  writes no byte outside that text and its terminator.
\<close>

theorem itoa_text:
  assumes "0 \<le> v" "v < 2 ^ 63" "2 \<le> unat base" "unat base \<le> 36" "str \<noteq> 0"
  shows "\<exists>m' ds. itoa stk m v str base = Some m' \<and>
    cstr m' str (map (\<lambda>d. digit_char (of_nat d)) (rev ds)) \<and>
    int (radix_value (unat base) ds) = v \<and> (\<forall>d\<in>set ds. d < unat base) \<and>
    (\<forall>q. (\<forall>i\<le>length ds. q \<noteq> str + of_nat i) \<longrightarrow> m' q = m q)"
proof -
  have v: "v = int (nat v)" "nat v < 2 ^ 64" using assms(1,2) by auto
  obtain m' where "itoa stk m (int (nat v)) str base = Some m'"
    "cstr m' str (radix_string (unat base) (nat v))"
    "\<forall>q. (\<forall>i\<le>length (radix_string (unat base) (nat v)). q \<noteq> str + of_nat i) \<longrightarrow> m' q = m q"
    using itoa_nonneg [OF assms(3,4,5) v(2), of stk m] by auto
  then show ?thesis using v(1) radix_digits_less [OF assms(3)]
    by (intro exI [of _ m'] exI [of _ "radix_digits (unat base) (nat v)"])
      (simp add: radix_string_def radix_value_digits)
qed

theorem itoa_text_witness:
  "\<exists>m' ds. itoa (\<lambda>_. 0) (\<lambda>_. 0) 255 8 16 = Some m' \<and>
    cstr m' 8 (map (\<lambda>d. digit_char (of_nat d)) (rev ds)) \<and>
    int (radix_value (unat (16 :: u16)) ds) = 255"
  using itoa_text [of 255 16 8 "\<lambda>_. 0" "\<lambda>_. 0"] by auto

text \<open>
  C39: \<^verbatim>\<open>atoi\<close> reads back what \<^verbatim>\<open>itoa\<close> writes in base 10, for every value an
  \<^verbatim>\<open>int\<close> can hold that is not negative.
\<close>

theorem atoi_itoa_roundtrip:
  assumes "0 \<le> v" "v < 2 ^ 31" "str \<noteq> 0"
  shows "\<exists>m'. itoa stk m v str 10 = Some m' \<and> map_option sint (atoi m' str) = Some v"
proof -
  have v: "v = int (nat v)" "nat v < 2 ^ 64" "nat v < 2 ^ 32" using assms(1,2) by auto
  obtain m' where m': "itoa stk m (int (nat v)) str 10 = Some m'"
    "cstr m' str (radix_string 10 (nat v))"
    using itoa_nonneg [of 10 str "nat v" stk m] assms(3) v(2) by auto
  have "sint (of_nat (nat v) :: u32) = v"
    using assms by (simp add: sint_sbintrunc' signed_take_bit_int_eq_self)
  with m' v assms(3) atoi_radix_string [OF m'(2)] show ?thesis by auto
qed

theorem atoi_itoa_roundtrip_witness:
  "\<exists>m'. itoa (\<lambda>_. 0) (\<lambda>_. 0) 2147483647 8 10 = Some m' \<and>
     map_option sint (atoi m' 8) = Some 2147483647"
  by (rule atoi_itoa_roundtrip) simp_all

text \<open>
  For a negative value and a base other than 10, \<^verbatim>\<open>itoa\<close> writes the text of the upper
  32 bits followed at once by the text of the lower 32 bits: the lower half is not padded,
  so the text is that of the 64-bit pattern only if the lower half has all its digits.
\<close>

theorem itoa_negative_halves:
  assumes "v < 0" "- (2 ^ 63) \<le> v" "base \<noteq> 10" "2 \<le> unat base" "unat base \<le> 36"
  shows "itoa stk m v str base =
    Some (store_bytes m str
      (radix_string (unat base) (nat (v mod 2 ^ 64 div 2 ^ 32)) @
       radix_string (unat base) (nat (v mod 2 ^ 32))))"
  using assms by (rule itoa_negative)

text \<open>The higher-half address \<^verbatim>\<open>0xffff800000000000\<close> prints as \<^verbatim>\<open>ffff80000\<close>.\<close>

theorem itoa_negative_halves_witness:
  "itoa (\<lambda>_. 0) (\<lambda>_. 0) (- (2 ^ 47)) 8 16 =
     Some (store_bytes (\<lambda>_. 0) 8 (cstring ''ffff80000''))"
proof -
  have "radix_string 16 4294934528 = cstring ''ffff8000''" "radix_string 16 0 = cstring ''0''"
    by (simp_all add: radix_string_def radix_digits.simps digit_char_def cstring_def)
  moreover have "nat (- (2 ^ 47) mod 2 ^ 64 div 2 ^ 32) = 4294934528" "nat (- (2 ^ 47) mod 2 ^ 32) = 0"
    by simp_all
  moreover have "unat (16 :: u16) = 16" by simp
  ultimately show ?thesis
    using itoa_negative_halves [of "- (2 ^ 47)" 16 "\<lambda>_. 0" "\<lambda>_. 0" 8] by (simp add: cstring_def)
qed

end
