(* ===== verification/Navy_Fmt.thy ===== *)
theory Navy_Fmt
  imports Navy_Itoa
begin

text \<open>
  The formatted output of the kernel and of user programs, \<^verbatim>\<open>libs/navy/fmt.c\<close> and
  \<^verbatim>\<open>fmt.h\<close>. The format is the list of its characters; the calls of the output callback
  are collected in order, each with the string it is given. \<open>fmt_text\<close> is the abstract
  specification: the text of a format as a structural recursion over its characters, without
  the scanner.
\<close>

section \<open>Values and the scanner\<close>

datatype fmt_value =
    FMT_CHAR u8
  | FMT_STRING "u8 list"
  | FMT_DECIMAL int

definition fmtvald :: "u64 \<Rightarrow> fmt_value" where
  "fmtvald val = FMT_DECIMAL (sint val)"

definition fmtvals :: "u8 list \<Rightarrow> fmt_value" where
  "fmtvals val = FMT_STRING val"

definition fmtvalc :: "u8 \<Rightarrow> fmt_value" where
  "fmtvalc val = FMT_CHAR val"

record fmt_scanner =
  sc_format :: "u8 list"
  sc_size :: nat
  sc_offset :: nat

text \<open>\<^verbatim>\<open>fmt_scanner_next\<close> advances; its return value is never used.\<close>

definition fmt_scanner_next :: "fmt_scanner \<Rightarrow> fmt_scanner" where
  "fmt_scanner_next scanner = scanner\<lparr>sc_offset := sc_offset scanner + 1\<rparr>"

definition fmt_scanner_current :: "fmt_scanner \<Rightarrow> u8" where
  "fmt_scanner_current scanner =
     (if sc_offset scanner < sc_size scanner then sc_format scanner ! sc_offset scanner else 0)"

section \<open>PRINT\_FORMAT\<close>

text \<open>The inner loop that reads the mode between the braces (\<^verbatim>\<open>'}'\<close> is 125).\<close>

function scan_mode :: "fmt_scanner \<Rightarrow> u8 \<Rightarrow> fmt_scanner \<times> u8" where
  "scan_mode scanner mode =
     (if fmt_scanner_current scanner \<noteq> 125 \<and> fmt_scanner_current scanner \<noteq> 0
      then (let scanner' = fmt_scanner_next scanner
            in scan_mode scanner'
                 (if fmt_scanner_current scanner' \<noteq> 125 then fmt_scanner_current scanner' else mode))
      else (scanner, mode))"
  by pat_completeness auto
termination
  by (relation "measure (\<lambda>(scanner, mode). sc_size scanner - sc_offset scanner)")
    (auto simp: fmt_scanner_current_def fmt_scanner_next_def split: if_splits)

declare scan_mode.simps [simp del]

text \<open>The string at a pointer, as a callback that walks it sees it.\<close>

partial_function (option) read_cstr :: "mem \<Rightarrow> u64 \<Rightarrow> u8 list option" where
  "read_cstr m p =
     (if m p = 0 then Some []
      else Option.bind (read_cstr m (p + 1)) (\<lambda>xs. Some (m p # xs)))"

declare read_cstr.simps [code]

text \<open>
  \<^verbatim>\<open>case FMT_DECIMAL\<close>: base, padding and unit from the mode, then the calls of the callback.
  The modes are the characters \<^verbatim>\<open>'a'\<close> (97), \<^verbatim>\<open>'x'\<close> (120) and \<^verbatim>\<open>'M'\<close> (77). Division
  truncates.
\<close>

definition decimal_mode :: "u8 \<Rightarrow> int \<Rightarrow> u16 \<times> nat \<times> int \<times> u8 list" where
  "decimal_mode mode nbr =
     (if mode = 97 then (16, 16, nbr, [])
      else if mode = 120 then (16, 0, nbr, [])
      else if mode = 77
      then (if nbr sdiv 1073741824 \<ge> 1 then (10, 0, nbr sdiv 1073741824, [71, 66])
            else if nbr sdiv 1048576 \<ge> 1 then (10, 0, nbr sdiv 1048576, [77, 66])
            else if nbr sdiv 1024 \<ge> 1 then (10, 0, nbr sdiv 1024, [75, 66])
            else (10, 0, nbr, [66]))
      else (10, 0, nbr, []))"

definition print_decimal :: "mem \<Rightarrow> u8 \<Rightarrow> int \<Rightarrow> u8 list list option" where
  "print_decimal stk mode nbr =
     (let (base, pad, nbr', unit) = decimal_mode mode nbr
      in Option.bind (itoa stk (\<lambda>_. 0) nbr' LOCAL base) (\<lambda>m.
         Option.bind (read_cstr m LOCAL) (\<lambda>buffer.
           Some ((if length buffer < pad then [replicate (pad - length buffer) 48] else []) @
             [buffer] @ (if unit \<noteq> [] then [unit] else [])))))"

definition print_value :: "mem \<Rightarrow> u8 \<Rightarrow> fmt_value \<Rightarrow> u8 list list option" where
  "print_value stk mode v =
     (case v of
        FMT_DECIMAL nbr \<Rightarrow> print_decimal stk mode nbr
      | FMT_STRING s \<Rightarrow> Some [s]
      | FMT_CHAR c \<Rightarrow> Some [if c = 0 then [] else [c]])"

lemma scan_mode_offset:
  "sc_offset scanner \<le> sc_offset (fst (scan_mode scanner mode)) \<and>
   sc_size (fst (scan_mode scanner mode)) = sc_size scanner \<and>
   sc_format (fst (scan_mode scanner mode)) = sc_format scanner"
proof (induction scanner mode rule: scan_mode.induct)
  case (1 scanner mode)
  then show ?case
    by (subst (1 2 3) scan_mode.simps) (auto simp: Let_def fmt_scanner_next_def)
qed

text \<open>The main loop (\<^verbatim>\<open>'{'\<close> is 123); \<open>cv\<close> is \<^verbatim>\<open>current_value\<close>.\<close>

function print_loop ::
  "mem \<Rightarrow> fmt_value list \<Rightarrow> fmt_scanner \<Rightarrow> nat \<Rightarrow> u8 list list option" where
  "print_loop stk args scanner cv =
     (if fmt_scanner_current scanner = 0 then Some []
      else if fmt_scanner_current scanner = 123
      then (let (scanner', mode) = scan_mode scanner 0;
                out = (if cv < length args then print_value stk mode (args ! cv) else Some []);
                cv' = (if cv < length args then cv + 1 else cv)
            in Option.bind out (\<lambda>xs.
                 Option.bind (print_loop stk args (fmt_scanner_next scanner') cv') (\<lambda>ys.
                   Some (xs @ ys))))
      else Option.bind (print_loop stk args (fmt_scanner_next scanner) cv) (\<lambda>ys.
             Some ([fmt_scanner_current scanner] # ys)))"
  by pat_completeness auto
termination
proof (relation "measure (\<lambda>(stk, args, scanner, cv). sc_size scanner - sc_offset scanner)", goal_cases)
  case 1
  show ?case by simp
next
  case (2 stk args scanner cv x scanner' mode xa xb xc)
  then have "sc_offset scanner \<le> sc_offset scanner'" "sc_size scanner' = sc_size scanner"
    using scan_mode_offset [of scanner 0] by (auto dest: sym)
  with 2 show ?case
    by (auto simp: fmt_scanner_current_def fmt_scanner_next_def split: if_splits)
next
  case (3 stk args scanner cv)
  then show ?case
    by (auto simp: fmt_scanner_current_def fmt_scanner_next_def split: if_splits)
qed

definition PRINT_FORMAT :: "mem \<Rightarrow> u8 list \<Rightarrow> fmt_value list \<Rightarrow> u8 list list option" where
  "PRINT_FORMAT stk fmt args =
     print_loop stk args \<lparr>sc_format = fmt, sc_size = length fmt, sc_offset = 0\<rparr> 0"

declare print_loop.simps [simp del]

section \<open>Specification: the text of a format\<close>

text \<open>
  The text \<^verbatim>\<open>itoa\<close> gives to a number, as established for the three cases in
  \<open>Navy_Itoa\<close>.
\<close>

definition number_text :: "nat \<Rightarrow> int \<Rightarrow> u8 list" where
  "number_text b v =
     (if 0 \<le> v then radix_string b (nat v)
      else if b = 10
      then map (\<lambda>d. digit_char (- of_nat d)) (rev (radix_digits 10 (nat (- v)))) @ [45]
      else radix_string b (nat (v mod 2 ^ 64 div 2 ^ 32)) @ radix_string b (nat (v mod 2 ^ 32)))"

definition value_text :: "u8 \<Rightarrow> fmt_value \<Rightarrow> u8 list" where
  "value_text mode v =
     (case v of
        FMT_DECIMAL nbr \<Rightarrow>
          (let (base, pad, nbr', unit) = decimal_mode mode nbr;
               text = number_text (unat base) nbr'
           in replicate (pad - length text) 48 @ text @ unit)
      | FMT_STRING s \<Rightarrow> s
      | FMT_CHAR c \<Rightarrow> if c = 0 then [] else [c])"

text \<open>The mode of the placeholder whose characters after the brace are \<open>xs\<close>.\<close>

definition mode_of :: "u8 list \<Rightarrow> u8" where
  "mode_of xs =
     (let spec = takeWhile (\<lambda>c. c \<noteq> 125) xs
      in if length spec = length xs \<or> spec = [] then 0 else last spec)"

function fmt_text :: "u8 list \<Rightarrow> fmt_value list \<Rightarrow> u8 list" where
  "fmt_text [] args = []"
| "fmt_text (c # cs) args =
     (if c = 123
      then (case args of
              [] \<Rightarrow> []
            | v # _ \<Rightarrow> value_text (mode_of cs) v) @
           fmt_text (drop 1 (dropWhile (\<lambda>c. c \<noteq> 125) cs)) (drop 1 args)
      else c # fmt_text cs args)"
  by pat_completeness auto
termination
proof (relation "measure (\<lambda>(cs, args). length cs)", goal_cases)
  case (2 c cs args)
  then show ?case
    using length_dropWhile_le [of "\<lambda>c. c \<noteq> 125" cs] by simp
qed simp_all

section \<open>The scanner follows the specification\<close>

fun mode_from :: "u8 \<Rightarrow> u8 list \<Rightarrow> u8" where
  "mode_from mode [] = 0"
| "mode_from mode (y # ys) = (if y = 125 then mode else mode_from y ys)"

lemma mode_from_eq:
  "mode_from mode xs =
     (let spec = takeWhile (\<lambda>c. c \<noteq> 125) xs
      in if length spec = length xs then 0 else if spec = [] then mode else last spec)"
  by (induction xs arbitrary: mode) (simp_all add: Let_def)

lemma mode_of_from: "mode_of xs = mode_from 0 xs"
  by (simp add: mode_of_def mode_from_eq Let_def)

abbreviation scanner_at :: "u8 list \<Rightarrow> nat \<Rightarrow> fmt_scanner" where
  "scanner_at fmt k \<equiv> \<lparr>sc_format = fmt, sc_size = length fmt, sc_offset = k\<rparr>"

lemma current_Nil: "drop k fmt = [] \<Longrightarrow> fmt_scanner_current (scanner_at fmt k) = 0"
  by (simp add: fmt_scanner_current_def)

lemma current_Cons: "drop k fmt = x # xs \<Longrightarrow> fmt_scanner_current (scanner_at fmt k) = x"
  by (auto simp: fmt_scanner_current_def nth_via_drop dest: arg_cong [of _ _ length])

lemma next_at: "fmt_scanner_next (scanner_at fmt k) = scanner_at fmt (Suc k)"
  by (simp add: fmt_scanner_next_def)

lemma drop_Suc_Cons: "drop k fmt = x # xs \<Longrightarrow> drop (Suc k) fmt = xs"
  by (metis drop_Suc list.sel(3) tl_drop)

lemma drop_Cons_mem: "drop k fmt = x # xs \<Longrightarrow> x \<in> set fmt"
  by (metis in_set_dropD list.set_intros(1))

lemmas scanner_simps = current_Nil current_Cons next_at

lemma scan_mode_from:
  assumes "0 \<notin> set fmt"
  shows "drop k fmt = x # xs \<Longrightarrow> x \<noteq> 125 \<Longrightarrow>
    scan_mode (scanner_at fmt k) mode =
      (scanner_at fmt (k + 1 + length (takeWhile (\<lambda>c. c \<noteq> 125) xs)), mode_from mode xs)"
proof (induction xs arbitrary: k x mode)
  case Nil
  then have "x \<noteq> 0" "drop (Suc k) fmt = []"
    using assms by (auto dest: drop_Cons_mem drop_Suc_Cons)
  with Nil show ?case
    by (subst scan_mode.simps, subst scan_mode.simps) (simp add: scanner_simps)
next
  case (Cons y ys)
  then have d: "x \<noteq> 0" "drop (Suc k) fmt = y # ys"
    using assms by (auto dest: drop_Cons_mem drop_Suc_Cons)
  show ?case
  proof (cases "y = 125")
    case True
    with Cons d show ?thesis
      by (subst scan_mode.simps, subst scan_mode.simps) (simp add: scanner_simps)
  next
    case False
    with Cons.IH [OF d(2), of y] Cons.prems d show ?thesis
      by (subst scan_mode.simps) (simp add: scanner_simps)
  qed
qed

section \<open>Numbers always have a text\<close>

lemma read_cstr_cstr: "cstr m p xs \<Longrightarrow> read_cstr m p = Some xs"
  by (induction xs arbitrary: p) (subst read_cstr.simps, simp)+


lemma itoa_number_text:
  assumes "- (2 ^ 63) \<le> v" "v < 2 ^ 63" "base = 10 \<or> base = 16"
  shows "\<exists>m. itoa stk (\<lambda>_. 0) v LOCAL base = Some m \<and> cstr m LOCAL (number_text (unat base) v)"
proof (cases "0 \<le> v")
  case True
  then have v: "v = int (nat v)" "nat v < 2 ^ 64" using assms by auto
  have "\<exists>m'. itoa stk (\<lambda>_. 0) (int (nat v)) LOCAL base = Some m' \<and>
      cstr m' LOCAL (radix_string (unat base) (nat v))"
    using itoa_nonneg [of base LOCAL "nat v" stk "\<lambda>_. 0"] assms(3) v(2) by (auto simp: LOCAL_def)
  with True show ?thesis by (simp add: number_text_def)
next
  case neg: False
  show ?thesis
  proof (cases "base = 10")
    case True
    have v: "v = - int (nat (- v))" "0 < nat (- v)" "nat (- v) < 2 ^ 64" using assms neg by auto
    have "\<exists>m'. itoa stk (\<lambda>_. 0) (- int (nat (- v))) LOCAL 10 = Some m' \<and>
        cstr m' LOCAL (number_text 10 v)"
      using itoa_negative_ten [OF v(2,3), of LOCAL stk "\<lambda>_. 0"] neg
      by (simp add: number_text_def LOCAL_def)
    with True v show ?thesis by simp
  next
    case False
    then have b: "base = 16" using assms by simp
    let ?xs = "number_text 16 v"
    have bound: "nat (v mod 2 ^ 64 div 2 ^ 32) < 16 ^ 16" "nat (v mod 2 ^ 32) < 16 ^ 16"
      by (simp_all add: nat_less_iff)
    have len: "length ?xs \<le> 32"
      using radix_digits_length [of 16 _ 16, OF _ bound(1)] radix_digits_length [of 16 _ 16, OF _ bound(2)] neg
      by (simp add: number_text_def)
    have nz: "\<forall>c\<in>set ?xs. c \<noteq> 0"
      using neg radix_string_nonzero [of 16] by (auto simp: number_text_def)
    have "cstr (store_bytes (\<lambda>_. 0) LOCAL ?xs) LOCAL ?xs" unfolding cstr_iff_nth
    proof (intro conjI allI impI)
      fix i assume i: "i < length ?xs"
      show "store_bytes (\<lambda>_. 0) LOCAL ?xs (LOCAL + of_nat i) = ?xs ! i"
        using len by (intro store_bytes_nth [OF i]) simp
      show "?xs ! i \<noteq> 0" using nz nth_mem [OF i] by blast
    next
      have "LOCAL + of_nat (length ?xs) \<noteq> LOCAL + of_nat i" if "i < length ?xs" for i
        using u64_of_nat_inj [of i "length ?xs"] that len by auto
      then show "store_bytes (\<lambda>_. 0) LOCAL ?xs (LOCAL + of_nat (length ?xs)) = 0"
        by (subst store_bytes_other) auto
    qed
    moreover have "itoa stk (\<lambda>_. 0) v LOCAL 16 = Some (store_bytes (\<lambda>_. 0) LOCAL ?xs)"
      using itoa_negative [of v 16 stk "\<lambda>_. 0" LOCAL] neg assms by (simp add: number_text_def)
    ultimately show ?thesis using b by simp
  qed
qed

definition int64 :: "int \<Rightarrow> bool" where
  "int64 v \<longleftrightarrow> - (2 ^ 63) \<le> v \<and> v < 2 ^ 63"

fun value_ok :: "fmt_value \<Rightarrow> bool" where
  "value_ok (FMT_DECIMAL v) = int64 v"
| "value_ok (FMT_STRING s) = True"
| "value_ok (FMT_CHAR c) = True"

lemma sdiv_int64: "int64 v \<Longrightarrow> 0 < k \<Longrightarrow> int64 (v sdiv k)"
proof -
  assume v: "int64 v" and k: "0 < k"
  have "\<bar>v\<bar> div k \<le> \<bar>v\<bar>" using zdiv_mono2 [of "\<bar>v\<bar>" 1 k] k by simp
  moreover have "\<bar>v sdiv k\<bar> \<le> \<bar>v\<bar> div k"
    using k by (simp add: signed_divide_int_def abs_mult sgn_if pos_imp_zdiv_nonneg_iff)
  ultimately have "\<bar>v sdiv k\<bar> \<le> \<bar>v\<bar>" by linarith
  moreover have "v sdiv k \<le> 0" if "v = - (2 ^ 63)"
    using k that by (simp add: signed_divide_int_def sgn_if pos_imp_zdiv_nonneg_iff)
  ultimately show ?thesis using v
    by (cases "v = - (2 ^ 63)") (auto simp: int64_def)
qed

lemma decimal_mode_ok:
  assumes "int64 v" "decimal_mode mode v = (base, pad, v', unit)"
  shows "int64 v' \<and> (base = 10 \<or> base = 16)"
  using assms sdiv_int64 [OF assms(1)] by (auto simp: decimal_mode_def split: if_splits)

lemma print_value_text:
  assumes "value_ok v"
  shows "\<exists>outs. print_value stk mode v = Some outs \<and> concat outs = value_text mode v"
proof (cases v)
  case (FMT_DECIMAL nbr)
  obtain base pad nbr' unit where dm: "decimal_mode mode nbr = (base, pad, nbr', unit)"
    by (metis prod_cases4)
  with assms FMT_DECIMAL have "int64 nbr'" "base = 10 \<or> base = 16"
    using decimal_mode_ok [of nbr mode] by auto
  then obtain m where m: "itoa stk (\<lambda>_. 0) nbr' LOCAL base = Some m"
    "cstr m LOCAL (number_text (unat base) nbr')"
    using itoa_number_text [of nbr' base stk] by (auto simp: int64_def)
  from m FMT_DECIMAL dm show ?thesis
    by (auto simp: print_value_def value_text_def print_decimal_def read_cstr_cstr [OF m(2)] Let_def)
qed (simp_all add: print_value_def value_text_def)

lemma print_loop_text:
  assumes "0 \<notin> set fmt" "\<forall>v\<in>set args. value_ok v"
  shows "\<exists>outs. print_loop stk args (scanner_at fmt k) cv = Some outs \<and>
    concat outs = fmt_text (drop k fmt) (drop cv args)"
proof (induction "length fmt - k" arbitrary: k cv rule: less_induct)
  case less
  show ?case
  proof (cases "drop k fmt")
    case Nil
    then show ?thesis by (subst print_loop.simps) (simp add: scanner_simps)
  next
    case (Cons x xs)
    note cur = current_Cons [OF Cons]
    have k: "k < length fmt" using Cons by (metis drop_eq_Nil linorder_not_less list.distinct(1))
    have x: "x \<noteq> 0" using assms(1) drop_Cons_mem [OF Cons] by auto
    have xs: "drop (Suc k) fmt = xs" using Cons by (rule drop_Suc_Cons)
    show ?thesis
    proof (cases "x = 123")
      case False
      obtain outs where "print_loop stk args (scanner_at fmt (Suc k)) cv = Some outs"
        "concat outs = fmt_text xs (drop cv args)"
        using less.hyps [of "Suc k" cv] k xs diff_less_mono2 [of k "Suc k" "length fmt"] by auto
      with False x Cons cur show ?thesis
        by (subst print_loop.simps) (simp add: next_at)
    next
      case True
      let ?k = "k + 1 + length (takeWhile (\<lambda>c. c \<noteq> 125) xs)"
      let ?cv = "if cv < length args then cv + 1 else cv"
      have scan: "scan_mode (scanner_at fmt k) 0 = (scanner_at fmt ?k, mode_of xs)"
        using scan_mode_from [OF assms(1) Cons] True by (simp add: mode_of_from)
      have rest: "drop (Suc ?k) fmt = drop 1 (dropWhile (\<lambda>c. c \<noteq> 125) xs)"
        by (simp add: xs [symmetric] dropWhile_eq_drop add.commute)
      have args: "drop ?cv args = drop 1 (drop cv args)" by simp
      obtain outs where outs: "print_loop stk args (scanner_at fmt (Suc ?k)) ?cv = Some outs"
        "concat outs = fmt_text (drop 1 (dropWhile (\<lambda>c. c \<noteq> 125) xs)) (drop 1 (drop cv args))"
        using less.hyps [of "Suc ?k" ?cv] k rest args diff_less_mono2 [of k "Suc ?k" "length fmt"]
        by auto
      obtain vs where vs: "(if cv < length args then print_value stk (mode_of xs) (args ! cv)
          else Some []) = Some vs"
        "concat vs = (case drop cv args of [] \<Rightarrow> [] | v # _ \<Rightarrow> value_text (mode_of xs) v)"
      proof (cases "cv < length args")
        case True
        then have "drop cv args = args ! cv # drop (Suc cv) args" by (simp add: Cons_nth_drop_Suc)
        with True print_value_text [of "args ! cv" stk "mode_of xs"] assms(2) that show ?thesis
          by auto
      qed (use that in auto)
      have "print_loop stk args (scanner_at fmt k) cv = Some (vs @ outs)"
        using cur True vs(1) outs(1)
        by (subst print_loop.simps) (simp add: scan next_at Let_def)
      with True Cons vs(2) outs(2) show ?thesis by simp
    qed
  qed
qed

lemma radix_value_zeros: "radix_value b (replicate k 0) = 0"
  by (induction k) simp_all

lemma fmtvald_ok: "value_ok (fmtvald w)"
  using sint_ge [of w] sint_lt [of w] by (simp add: fmtvald_def int64_def)

lemma PRINT_FORMAT_spec:
  assumes "0 \<notin> set fmt" "\<forall>v\<in>set args. value_ok v"
  shows "\<exists>outs. PRINT_FORMAT stk fmt args = Some outs \<and> concat outs = fmt_text fmt args"
  using print_loop_text [OF assms, of stk 0 0] by (simp add: PRINT_FORMAT_def)

section \<open>Properties\<close>

text \<open>
  C37: \<^verbatim>\<open>PRINT_FORMAT\<close> always returns, whatever the format and the values, and the strings
  it hands to the callback are, put together, the text of the format: characters outside
  braces unchanged, each placeholder replaced by the text of the next value in its mode,
  placeholders without a value by nothing.
\<close>

theorem PRINT_FORMAT_text:
  assumes "0 \<notin> set fmt" "\<forall>v\<in>set args. value_ok v"
  shows "\<exists>outs. PRINT_FORMAT stk fmt args = Some outs \<and> concat outs = fmt_text fmt args"
  using assms by (rule PRINT_FORMAT_spec)

theorem PRINT_FORMAT_text_witness:
  "\<exists>outs. PRINT_FORMAT (\<lambda>_. 0) (cstring ''v={x}!'') [fmtvald 255] = Some outs \<and>
     concat outs = cstring ''v=ff!''"
proof -
  have "radix_string 16 255 = cstring ''ff''"
    by (simp add: radix_string_def radix_digits.simps digit_char_def cstring_def)
  then have "value_text 120 (FMT_DECIMAL 255) = cstring ''ff''"
    by (simp add: value_text_def decimal_mode_def number_text_def cstring_def)
  moreover have "fmtvald 255 = FMT_DECIMAL 255" by (simp add: fmtvald_def)
  ultimately have eq: "fmt_text (cstring ''v={x}!'') [fmtvald 255] = cstring ''v=ff!''"
    by (simp add: cstring_def mode_of_def Let_def)
  have "0 \<notin> set (cstring ''v={x}!'')" "\<forall>v\<in>set [fmtvald 255]. value_ok v"
    by (simp_all add: cstring_def fmtvald_ok)
  from PRINT_FORMAT_text [OF this] show ?thesis unfolding eq .
qed

text \<open>
  The mode \<^verbatim>\<open>{a}\<close> prints every value below \<open>2\<^sup>63\<close> as exactly sixteen
  hexadecimal digits, which are the digits of the value with leading zeros.
\<close>

theorem address_mode_sixteen_digits:
  assumes "w < 2 ^ 63"
  shows "\<exists>outs ds. PRINT_FORMAT stk (cstring ''{a}'') [fmtvald w] = Some outs \<and>
    concat outs = map (\<lambda>d. digit_char (of_nat d)) ds \<and> length ds = 16 \<and>
    radix_value 16 (rev ds) = unat w"
proof -
  have w: "unat w < 2 ^ 63" using assms by (simp add: word_less_nat_alt)
  have s: "sint w = int (unat w)"
    using assms signed_take_bit_int_eq_self [of 63 "uint w"] order_trans [OF _ uint_ge_0, of "- (2 ^ 63)" w]
    by (simp add: sint_uint word_less_def)
  let ?rd = "radix_digits 16 (unat w)"
  have len: "length ?rd \<le> 16" using radix_digits_length [of 16 "unat w" 16] w by simp
  let ?ds = "replicate (16 - length ?rd) 0 @ rev ?rd"
  have "fmt_text (cstring ''{a}'') [fmtvald w] = map (\<lambda>d. digit_char (of_nat d)) ?ds"
    by (simp add: cstring_def fmtvald_def s mode_of_def Let_def value_text_def decimal_mode_def
        number_text_def radix_string_def map_replicate_const digit_char_def)
  moreover have "radix_value 16 (rev ?ds) = unat w"
    by (simp add: radix_value_append radix_value_digits radix_value_zeros)
  moreover have "length ?ds = 16" using len by simp
  moreover obtain outs where "PRINT_FORMAT stk (cstring ''{a}'') [fmtvald w] = Some outs"
    "concat outs = fmt_text (cstring ''{a}'') [fmtvald w]"
    using PRINT_FORMAT_spec [of "cstring ''{a}''" "[fmtvald w]" stk] fmtvald_ok [of w]
    by (auto simp: cstring_def)
  ultimately show ?thesis by metis
qed

theorem address_mode_sixteen_digits_witness:
  "\<exists>outs ds. PRINT_FORMAT (\<lambda>_. 0) (cstring ''{a}'') [fmtvald 0xfee00000] = Some outs \<and>
     concat outs = map (\<lambda>d. digit_char (of_nat d)) ds \<and> length ds = 16 \<and>
     radix_value 16 (rev ds) = unat (0xfee00000 :: u64)"
  by (rule address_mode_sixteen_digits) simp

end
