(* ===== verification/Navy_Devices.thy ===== *)
theory Navy_Devices
  imports Navy_Fmt
begin

text \<open>
  The device drivers of \<^verbatim>\<open>arch/cross-x86\<close>: port and model-specific-register access
  (\<^verbatim>\<open>asm.c\<close>), the serial line (\<^verbatim>\<open>serial.c\<close>), the interrupt controller (\<^verbatim>\<open>pic.c\<close>), the timer
  (\<^verbatim>\<open>pit.c\<close>), the clock (\<^verbatim>\<open>rtc.c\<close>) and the local APIC (\<^verbatim>\<open>acpi.c\<close>). A driver is a function
  on the trace of device accesses it has made so far; the hardware is an argument, which
  answers each read from that trace. Loops that poll a device are partial functions, whose
  value \<open>None\<close> is a poll that never ends.
\<close>

section \<open>Accesses\<close>

datatype io_event =
    Out u16 u8
  | In u16 u8
  | Store u64 u32
  | Load u64 u32

text \<open>The answer of the hardware to a port read and to a read of a memory-mapped register.\<close>

record device =
  dev_in :: "io_event list \<Rightarrow> u16 \<Rightarrow> u8"
  dev_load :: "io_event list \<Rightarrow> u64 \<Rightarrow> u32"

record ports =
  io_trace :: "io_event list"
  is_serial_init :: bool
  lapic_addr :: u64
  msr :: "u32 \<Rightarrow> u32 \<times> u32"

definition asm_in8 :: "device \<Rightarrow> u16 \<Rightarrow> ports \<Rightarrow> u8 \<times> ports" where
  "asm_in8 dev port s =
     (let data = dev_in dev (io_trace s) port in (data, s\<lparr>io_trace := io_trace s @ [In port data]\<rparr>))"

definition asm_out8 :: "u16 \<Rightarrow> u8 \<Rightarrow> ports \<Rightarrow> ports" where
  "asm_out8 port data s = s\<lparr>io_trace := io_trace s @ [Out port data]\<rparr>"

text \<open>Two jumps to the next instruction.\<close>

definition io_wait :: "ports \<Rightarrow> ports" where
  "io_wait s = s"

definition MSR_EFER :: u32 where "MSR_EFER = 0xC0000080"
definition MSR_STAR :: u32 where "MSR_STAR = 0xC0000081"
definition MSR_LSTAR :: u32 where "MSR_LSTAR = 0xC0000082"
definition MSR_SYSCALL_FLAG_MASK :: u32 where "MSR_SYSCALL_FLAG_MASK = 0xC0000084"
definition MSR_GS_BASE :: u32 where "MSR_GS_BASE = 0xC0000101"
definition MSR_KERN_GS_BASE :: u32 where "MSR_KERN_GS_BASE = 0xC0000102"

lemmas msr_numbers = MSR_EFER_def MSR_STAR_def MSR_LSTAR_def MSR_SYSCALL_FLAG_MASK_def
  MSR_GS_BASE_def MSR_KERN_GS_BASE_def

text \<open>\<^verbatim>\<open>wrmsr\<close> takes the two halves in \<^verbatim>\<open>eax\<close> and \<^verbatim>\<open>edx\<close>; \<^verbatim>\<open>rdmsr\<close> returns them there.\<close>

definition asm_write_msr :: "u32 \<Rightarrow> u64 \<Rightarrow> ports \<Rightarrow> ports" where
  "asm_write_msr r val s =
     (let low = ucast (val AND 0xFFFFFFFF); high = ucast (drop_bit 32 val)
      in s\<lparr>msr := (msr s)(r := (low, high))\<rparr>)"

definition asm_read_msr :: "u32 \<Rightarrow> ports \<Rightarrow> u64" where
  "asm_read_msr r s = (let (low, high) = msr s r in push_bit 32 (ucast high) OR ucast low)"

lemma asm_read_write_msr:
  "asm_read_msr r (asm_write_msr r' val s) = (if r = r' then val else asm_read_msr r s)"
  by (auto simp: asm_read_msr_def asm_write_msr_def mask_simps bit_simps intro!: bit_word_eqI)

section \<open>Serial line\<close>

definition SERIAL_COM1 :: u16 where
  "SERIAL_COM1 = 0x3f8"

definition serial_init :: "u16 \<Rightarrow> ports \<Rightarrow> ports" where
  "serial_init port s =
     (let s = asm_out8 (port + 1) 0x00 s;
          s = asm_out8 (port + 0) 0x03 s;
          s = asm_out8 (port + 1) 0x00 s;
          s = asm_out8 (port + 3) 0x03 s;
          s = asm_out8 (port + 2) 0xc7 s;
          s = asm_out8 (port + 4) 0x0b s;
          s = asm_out8 (port + 4) 0x1e s;
          s = asm_out8 (port + 0) 0xae s;
          s = asm_out8 (port + 4) 0x0f s
      in s\<lparr>is_serial_init := True\<rparr>)"

text \<open>The \<^verbatim>\<open>while\<close> loop of \<^verbatim>\<open>serial_putc\<close> on the line status register.\<close>

partial_function (option) serial_wait :: "device \<Rightarrow> ports \<Rightarrow> ports option" where
  "serial_wait dev s =
     (let (status, s') = asm_in8 dev (SERIAL_COM1 + 5) s
      in if status AND 0x20 = 0 then serial_wait dev s' else Some s')"

declare serial_wait.simps [code]

definition serial_putc :: "device \<Rightarrow> u8 \<Rightarrow> ports \<Rightarrow> ports option" where
  "serial_putc dev c s =
     (let s = (if \<not> is_serial_init s then serial_init SERIAL_COM1 s else s)
      in Option.bind (serial_wait dev s) (\<lambda>s. Some (asm_out8 SERIAL_COM1 c s)))"

partial_function (option) serial_puts :: "device \<Rightarrow> mem \<Rightarrow> u64 \<Rightarrow> ports \<Rightarrow> ports option" where
  "serial_puts dev m p s =
     (if m p \<noteq> 0 then Option.bind (serial_putc dev (m p) s) (serial_puts dev m (p + 1)) else Some s)"

declare serial_puts.simps [code]

section \<open>Interrupt controller\<close>

definition MASTER_CMD :: u16 where "MASTER_CMD = 0x20"
definition MASTER_DATA :: u16 where "MASTER_DATA = 0x21"
definition MASTER_OFFSET :: u8 where "MASTER_OFFSET = 0x20"
definition SLAVE_CMD :: u16 where "SLAVE_CMD = 0xa0"
definition SLAVE_DATA :: u16 where "SLAVE_DATA = 0xa1"
definition SLAVE_OFFSET :: u8 where "SLAVE_OFFSET = 0x28"

lemmas pic_numbers = MASTER_CMD_def MASTER_DATA_def MASTER_OFFSET_def SLAVE_CMD_def SLAVE_DATA_def
  SLAVE_OFFSET_def

definition pic_init :: "ports \<Rightarrow> ports" where
  "pic_init s =
     (let s = io_wait (asm_out8 MASTER_CMD (0x10 OR 0x01) s);
          s = io_wait (asm_out8 SLAVE_CMD (0x10 OR 0x01) s);
          s = io_wait (asm_out8 MASTER_DATA MASTER_OFFSET s);
          s = io_wait (asm_out8 SLAVE_DATA SLAVE_OFFSET s);
          s = io_wait (asm_out8 MASTER_DATA 4 s);
          s = io_wait (asm_out8 SLAVE_DATA 2 s);
          s = io_wait (asm_out8 MASTER_DATA 0x01 s);
          s = io_wait (asm_out8 SLAVE_DATA 0x01 s);
          s = io_wait (asm_out8 MASTER_DATA 0 s)
      in io_wait (asm_out8 SLAVE_DATA 0 s))"

text \<open>The argument is a signed \<^verbatim>\<open>int\<close>.\<close>

definition pic_sendEOI :: "u32 \<Rightarrow> ports \<Rightarrow> ports" where
  "pic_sendEOI intno s =
     (let s = (if 40 \<le>s intno then asm_out8 SLAVE_CMD 0x20 s else s)
      in asm_out8 MASTER_CMD 0x20 s)"

section \<open>Timer and clock\<close>

definition pit_read_count :: "device \<Rightarrow> ports \<Rightarrow> u32 \<times> ports" where
  "pit_read_count dev s =
     (let s = asm_out8 0x43 0 s;
          (lo, s) = asm_in8 dev 0x40 s;
          (hi, s) = asm_in8 dev 0x40 s
      in (ucast lo OR push_bit 8 (ucast hi), s))"

text \<open>\<open>hz\<close> is a signed \<^verbatim>\<open>int\<close>; dividing by 0 raises an exception.\<close>

definition pit_init :: "u32 \<Rightarrow> ports \<Rightarrow> ports outcome" where
  "pit_init hz s =
     (if hz = 0 then Fault Division_by_zero
      else
        let divisor = word_of_int (1193180 sdiv sint hz) :: u32;
            s = asm_out8 0x43 0x36 s;
            s = asm_out8 0x40 (ucast (divisor AND 0xff)) s
        in Done (asm_out8 0x40 (ucast (signed_drop_bit 8 divisor AND 0xff)) s))"

partial_function (option) pit_wait :: "device \<Rightarrow> ports \<Rightarrow> ports option" where
  "pit_wait dev s =
     (let (count, s') = pit_read_count dev s in if count = 0 then pit_wait dev s' else Some s')"

declare pit_wait.simps [code]

definition pit_sleep :: "device \<Rightarrow> u16 \<Rightarrow> ports \<Rightarrow> ports option" where
  "pit_sleep dev ms s =
     (let s = asm_out8 0x43 0x30 s;
          s = asm_out8 0x40 (ucast (ms AND 0xff)) s;
          s = asm_out8 0x40 (ucast (drop_bit 8 ms AND 0xff)) s
      in pit_wait dev s)"

definition is_updating :: "device \<Rightarrow> ports \<Rightarrow> u8 \<times> ports" where
  "is_updating dev s =
     (let (data, s) = asm_in8 dev 0x71 (asm_out8 0x70 0x0a s) in (data AND 0x80, s))"

partial_function (option) rtc_wait :: "device \<Rightarrow> ports \<Rightarrow> ports option" where
  "rtc_wait dev s =
     (let (busy, s') = is_updating dev s in if busy \<noteq> 0 then rtc_wait dev s' else Some s')"

declare rtc_wait.simps [code]

definition rtc_read :: "device \<Rightarrow> u8 \<Rightarrow> ports \<Rightarrow> (u8 \<times> ports) option" where
  "rtc_read dev reg s =
     Option.bind (rtc_wait dev s) (\<lambda>s. Some (asm_in8 dev 0x71 (asm_out8 0x70 reg s)))"

definition rtc_sec :: "device \<Rightarrow> ports \<Rightarrow> (u8 \<times> ports) option" where
  "rtc_sec dev s =
     Option.bind (rtc_read dev 0 s) (\<lambda>(sec, s). Some ((sec AND 0xf) + (sec div 0x10) * 0xa, s))"

section \<open>Local APIC\<close>

definition LAPIC_CPU_ID :: u32 where "LAPIC_CPU_ID = 0x20"
definition LAPIC_EOI :: u32 where "LAPIC_EOI = 0x0b0"
definition APIC_TIMER_REG :: u32 where "APIC_TIMER_REG = 0x320"
definition APIC_TIMER_INITIAL_COUNT :: u32 where "APIC_TIMER_INITIAL_COUNT = 0x380"
definition APIC_TIMER_CURRENT_COUNT :: u32 where "APIC_TIMER_CURRENT_COUNT = 0x390"
definition APIC_TIMER_DEVIDER :: u32 where "APIC_TIMER_DEVIDER = 0x3e0"
definition APIC_LVT_INT_MASKED :: u32 where "APIC_LVT_INT_MASKED = 0x10000"
definition APIC_LVT_TIMER_MODE_PERIODIC :: u32 where "APIC_LVT_TIMER_MODE_PERIODIC = 0x20000"

lemmas apic_numbers = LAPIC_CPU_ID_def LAPIC_EOI_def APIC_TIMER_REG_def APIC_TIMER_INITIAL_COUNT_def
  APIC_TIMER_CURRENT_COUNT_def APIC_TIMER_DEVIDER_def APIC_LVT_INT_MASKED_def
  APIC_LVT_TIMER_MODE_PERIODIC_def

definition lapic_read :: "device \<Rightarrow> u32 \<Rightarrow> ports \<Rightarrow> (u32 \<times> ports) outcome" where
  "lapic_read dev reg s =
     kassert (lapic_addr s \<noteq> 0) (
     let a = lapic_addr s + ucast reg; val = dev_load dev (io_trace s) a
     in Done (val, s\<lparr>io_trace := io_trace s @ [Load a val]\<rparr>))"

definition lapic_write :: "u32 \<Rightarrow> u32 \<Rightarrow> ports \<Rightarrow> ports" where
  "lapic_write reg val s =
     s\<lparr>io_trace := io_trace s @ [Store (lapic_addr s + ucast reg) val]\<rparr>"

text \<open>
  The tables are read from memory: the header of 36 bytes has the signature at 0 and the
  length at 4; the pointers of the root table follow it; the address of the local APIC is at
  36 in the MADT. \<open>lit\<close> is the address of the literal \<^verbatim>\<open>"APIC"\<close>.
\<close>

definition sizeof_rsdt_descriptor :: u64 where
  "sizeof_rsdt_descriptor = 36"

primrec acpi_scan :: "u64 \<Rightarrow> mem \<Rightarrow> u64 \<Rightarrow> nat \<Rightarrow> u64 \<Rightarrow> ports \<Rightarrow> ports" where
  "acpi_scan lit m rsdt 0 i s = s"
| "acpi_scan lit m rsdt (Suc n) i s =
     (let h = ucast (load32 m (rsdt + sizeof_rsdt_descriptor + 4 * i));
          s = (if strncmp m h lit 4 = 0 then s\<lparr>lapic_addr := ucast (load32 m (h + 36))\<rparr> else s)
      in acpi_scan lit m rsdt n (i + 1) s)"

definition acpi_init :: "u64 \<Rightarrow> mem \<Rightarrow> u64 \<Rightarrow> ports \<Rightarrow> ports" where
  "acpi_init lit m rsdt s =
     (let entries = (ucast (load32 m (rsdt + 4)) - sizeof_rsdt_descriptor) div 4
      in acpi_scan lit m rsdt (unat entries) 0 s)"

definition lapic_current_cpu :: "device \<Rightarrow> ports \<Rightarrow> (u32 \<times> ports) outcome" where
  "lapic_current_cpu dev s =
     bind_o (lapic_read dev LAPIC_CPU_ID s) (\<lambda>(val, s). Done (drop_bit 24 val, s))"

definition apic_timer_init :: "device \<Rightarrow> ports \<Rightarrow> ports outcome" where
  "apic_timer_init dev s =
     (let s = lapic_write APIC_TIMER_DEVIDER 0x3 s;
          s = lapic_write APIC_TIMER_INITIAL_COUNT 0xFFFFFFFF s
      in bind_o (of_option (pit_sleep dev 10 s)) (\<lambda>s.
         let s = lapic_write APIC_TIMER_REG APIC_LVT_INT_MASKED s
         in bind_o (lapic_read dev APIC_TIMER_CURRENT_COUNT s) (\<lambda>(count, s).
            let tickIn10ms = 0xFFFFFFFF - count;
                s = lapic_write APIC_TIMER_REG (32 OR APIC_LVT_TIMER_MODE_PERIODIC) s;
                s = lapic_write APIC_TIMER_DEVIDER 0x3 s
            in Done (lapic_write APIC_TIMER_INITIAL_COUNT tickIn10ms s))))"

definition lapic_eoi :: "ports \<Rightarrow> ports" where
  "lapic_eoi s = lapic_write LAPIC_EOI 0 s"

section \<open>Polling\<close>

text \<open>\<open>n\<close> reads of the same port.\<close>

primrec polled :: "device \<Rightarrow> u16 \<Rightarrow> nat \<Rightarrow> ports \<Rightarrow> ports" where
  "polled dev port 0 s = s"
| "polled dev port (Suc n) s = polled dev port n (snd (asm_in8 dev port s))"

definition ready :: "device \<Rightarrow> ports \<Rightarrow> bool" where
  "ready dev s \<longleftrightarrow> dev_in dev (io_trace s) (SERIAL_COM1 + 5) AND 0x20 \<noteq> 0"

text \<open>
  What a transmission looks like: before each byte the status register is read until its bit
  5 is set, and only then the byte is written.
\<close>

inductive sends :: "io_event list \<Rightarrow> u8 list \<Rightarrow> bool" where
  none: "sends [] []"
| byte: "\<forall>v\<in>set vs. v AND 0x20 = 0 \<Longrightarrow> w AND 0x20 \<noteq> 0 \<Longrightarrow> sends tr cs \<Longrightarrow>
    sends (map (In (SERIAL_COM1 + 5)) (vs @ [w]) @ Out SERIAL_COM1 c # tr) (c # cs)"

lemma serial_wait_polls:
  assumes "ready dev (polled dev (SERIAL_COM1 + 5) n s)"
  shows "\<exists>vs w. serial_wait dev s =
      Some (s\<lparr>io_trace := io_trace s @ map (In (SERIAL_COM1 + 5)) (vs @ [w])\<rparr>) \<and>
    (\<forall>v\<in>set vs. v AND 0x20 = 0) \<and> w AND 0x20 \<noteq> 0"
  using assms
proof (induction n arbitrary: s)
  case 0
  then show ?case
    by (intro exI [of _ "[]"] exI [of _ "dev_in dev (io_trace s) (SERIAL_COM1 + 5)"])
      (subst serial_wait.simps, simp add: ready_def asm_in8_def Let_def)
next
  case (Suc n)
  let ?v = "dev_in dev (io_trace s) (SERIAL_COM1 + 5)"
  let ?s = "s\<lparr>io_trace := io_trace s @ [In (SERIAL_COM1 + 5) ?v]\<rparr>"
  show ?case
  proof (cases "?v AND 0x20 = 0")
    case False
    then show ?thesis
      by (intro exI [of _ "[]"] exI [of _ ?v]) (subst serial_wait.simps, simp add: asm_in8_def Let_def)
  next
    case True
    have "ready dev (polled dev (SERIAL_COM1 + 5) n ?s)"
      using Suc.prems by (simp add: asm_in8_def Let_def)
    from Suc.IH [OF this] obtain vs w where
      "serial_wait dev ?s = Some (?s\<lparr>io_trace := io_trace ?s @ map (In (SERIAL_COM1 + 5)) (vs @ [w])\<rparr>)"
      "\<forall>v\<in>set vs. v AND 0x20 = 0" "w AND 0x20 \<noteq> 0"
      by blast
    with True show ?thesis
      by (intro exI [of _ "?v # vs"] exI [of _ w])
        (subst serial_wait.simps, simp add: asm_in8_def Let_def)
  qed
qed

lemma serial_wait_ready:
  assumes "serial_wait dev s = Some s'"
  shows "\<exists>s1. ready dev s1"
  by (rule serial_wait.raw_induct [where P = "\<lambda>dev s s'. \<exists>s1. ready dev s1", OF _ assms])
    (auto simp: asm_in8_def ready_def Let_def split: if_splits)

lemma serial_wait_never: "\<forall>s. \<not> ready dev s \<Longrightarrow> serial_wait dev s = None"
  using serial_wait_ready [of dev s] by (cases "serial_wait dev s") auto

definition responsive :: "device \<Rightarrow> bool" where
  "responsive dev \<longleftrightarrow> (\<forall>s. \<exists>n. ready dev (polled dev (SERIAL_COM1 + 5) n s))"

text \<open>The nine port writes of the initialisation, made once before the first byte.\<close>

definition line_setup :: "ports \<Rightarrow> io_event list" where
  "line_setup s = (if is_serial_init s then [] else io_trace (serial_init SERIAL_COM1 (s\<lparr>io_trace := []\<rparr>)))"

lemma serial_init_trace:
  "serial_init port s =
     s\<lparr>is_serial_init := True,
       io_trace := io_trace s @ io_trace (serial_init port (s\<lparr>io_trace := []\<rparr>))\<rparr>"
  by (cases s) (simp add: serial_init_def asm_out8_def Let_def)

lemma serial_putc_sends:
  assumes "responsive dev"
  shows "\<exists>vs w. serial_putc dev c s =
      Some (s\<lparr>is_serial_init := True, io_trace := io_trace s @ line_setup s @
        map (In (SERIAL_COM1 + 5)) (vs @ [w]) @ [Out SERIAL_COM1 c]\<rparr>) \<and>
    (\<forall>v\<in>set vs. v AND 0x20 = 0) \<and> w AND 0x20 \<noteq> 0"
proof -
  define s1 where "s1 = (if \<not> is_serial_init s then serial_init SERIAL_COM1 s else s)"
  have s1: "s1 = s\<lparr>is_serial_init := True, io_trace := io_trace s @ line_setup s\<rparr>"
    using serial_init_trace [of SERIAL_COM1 s] by (cases s) (auto simp: s1_def line_setup_def)
  obtain n where "ready dev (polled dev (SERIAL_COM1 + 5) n s1)"
    using assms by (auto simp: responsive_def)
  from serial_wait_polls [OF this] show ?thesis
    unfolding serial_putc_def s1_def [symmetric] Let_def by (force simp: s1 asm_out8_def)
qed

lemma serial_puts_sends:
  assumes "responsive dev" "cstr m p xs"
  shows "\<exists>new. serial_puts dev m p s =
      Some (s\<lparr>is_serial_init := (is_serial_init s \<or> xs \<noteq> []),
        io_trace := io_trace s @ (if xs = [] then [] else line_setup s) @ new\<rparr>) \<and> sends new xs"
  using assms(2)
proof (induction xs arbitrary: p s)
  case Nil
  then show ?case by (intro exI [of _ "[]"]) (subst serial_puts.simps, simp add: sends.none)
next
  case (Cons x xs)
  obtain vs w where put: "serial_putc dev x s =
      Some (s\<lparr>is_serial_init := True, io_trace := io_trace s @ line_setup s @
        map (In (SERIAL_COM1 + 5)) (vs @ [w]) @ [Out SERIAL_COM1 x]\<rparr>)"
    (is "_ = Some ?s") and vs: "\<forall>v\<in>set vs. v AND 0x20 = 0" "w AND 0x20 \<noteq> 0"
    using serial_putc_sends [OF assms(1), of x s] by blast
  have "cstr m (p + 1) xs" "m p = x" "x \<noteq> 0" using Cons.prems by simp_all
  moreover obtain new where "serial_puts dev m (p + 1) ?s =
      Some (?s\<lparr>is_serial_init := (is_serial_init ?s \<or> xs \<noteq> []),
        io_trace := io_trace ?s @ (if xs = [] then [] else line_setup ?s) @ new\<rparr>)" "sends new xs"
    using Cons.IH [of "p + 1" ?s] calculation by blast
  moreover have "line_setup ?s = []" by (simp add: line_setup_def)
  ultimately show ?case
    by (intro exI [of _ "map (In (SERIAL_COM1 + 5)) (vs @ [w]) @ Out SERIAL_COM1 x # new"])
      (subst serial_puts.simps, simp add: put sends.byte [OF vs, simplified])
qed

section \<open>The clock, the timer and the interrupt controller\<close>

lemma rtc_wait_idle:
  assumes "\<forall>tr. dev_in dev tr 0x71 AND 0x80 = 0 \<or> last tr \<noteq> Out 0x70 0x0a"
  shows "\<exists>s'. rtc_wait dev s = Some s' \<and> is_serial_init s' = is_serial_init s"
proof -
  have "dev_in dev (io_trace s @ [Out 0x70 0x0a]) 0x71 AND 0x80 = 0"
    using assms by (metis last_snoc)
  then show ?thesis
    by (subst rtc_wait.simps) (simp add: is_updating_def asm_in8_def asm_out8_def Let_def)
qed

definition bcd :: "nat \<Rightarrow> u8" where
  "bcd n = of_nat (16 * (n div 10) + n mod 10)"

lemma bcd_decode:
  assumes "n < 100"
  shows "(bcd n AND 0xf) + (bcd n div 0x10) * 0xa = of_nat n"
proof -
  have "n div 10 < 10" "n mod 10 < 10" using assms by simp_all
  then have "16 * (n div 10) + n mod 10 < 2 ^ LENGTH(8)" by simp
  then have "unat (bcd n) = 16 * (n div 10) + n mod 10"
    unfolding bcd_def by (rule unat_of_nat_less)
  moreover have "unat (bcd n AND 0xf) = unat (bcd n) mod 16"
    by (simp add: mask_simps take_bit_eq_mod unat_mod)
  moreover have "unat (bcd n div 0x10) = unat (bcd n) div 16"
    by (simp add: unat_div)
  ultimately have "unat (bcd n AND 0xf) = n mod 10" "unat (bcd n div 0x10) = n div 10"
    using assms by simp_all
  then have "bcd n AND 0xf = of_nat (n mod 10)" "bcd n div 0x10 = of_nat (n div 10)"
    by (metis of_nat_unat ucast_id)+
  then have "(bcd n AND 0xf) + (bcd n div 0x10) * 0xa = of_nat (n mod 10 + n div 10 * 10)"
    by (simp only: of_nat_add of_nat_mult of_nat_numeral)
  then show ?thesis by (simp only: mod_div_mult_eq)
qed

text \<open>The two bytes sent to the timer's data port, as the divisor they program.\<close>

lemma pit_init_programs:
  assumes "hz \<noteq> 0" "divisor = word_of_int (1193180 sdiv sint hz)"
  shows "\<exists>lo hi. pit_init hz s =
      Done (s\<lparr>io_trace := io_trace s @ [Out 0x43 0x36, Out 0x40 lo, Out 0x40 hi]\<rparr>) \<and>
    ucast lo OR push_bit 8 (ucast hi) = take_bit 16 (divisor :: u32)"
proof -
  have "ucast (ucast (divisor AND 0xff) :: u8) OR
      push_bit 8 (ucast (ucast (signed_drop_bit 8 divisor AND 0xff) :: u8)) = take_bit 16 divisor"
    by (auto simp: mask_simps bit_simps intro!: bit_word_eqI)
  with assms show ?thesis by (auto simp: pit_init_def asm_out8_def Let_def)
qed

lemma pit_wait_counting:
  assumes "fst (pit_read_count dev s) \<noteq> 0"
  shows "pit_wait dev s = Some (snd (pit_read_count dev s))"
  using assms by (subst pit_wait.simps) (simp add: split_beta)

section \<open>Looking for the local APIC\<close>

definition apic_table :: "mem \<Rightarrow> u64 \<Rightarrow> bool" where
  "apic_table m h \<longleftrightarrow> m h = 0x41 \<and> m (h + 1) = 0x50 \<and> m (h + 2) = 0x49 \<and> m (h + 3) = 0x43"

lemma strncmp_apic:
  assumes "apic_table m lit"
  shows "strncmp m h lit 4 = 0 \<longleftrightarrow> apic_table m h"
  using assms unfolding strncmp_def apic_table_def
  by (subst strncmp_loop.simps, subst strncmp_loop.simps, subst strncmp_loop.simps,
      subst strncmp_loop.simps, subst strncmp_loop.simps) auto

definition rsdt_tables :: "mem \<Rightarrow> u64 \<Rightarrow> nat \<Rightarrow> u64 list" where
  "rsdt_tables m rsdt n = map (\<lambda>i. ucast (load32 m (rsdt + 36 + 4 * of_nat i))) [0..<n]"

lemma acpi_scan_spec:
  assumes "apic_table m lit"
  shows "acpi_scan lit m rsdt n i s =
    s\<lparr>lapic_addr := last (lapic_addr s # map (\<lambda>h. ucast (load32 m (h + 36)))
       (filter (apic_table m) (rsdt_tables m (rsdt + 4 * i) n)))\<rparr>"
proof (induction n arbitrary: i s)
  case 0
  then show ?case by (simp add: rsdt_tables_def)
next
  case (Suc n)
  have "rsdt_tables m (rsdt + 4 * i) (Suc n) =
      ucast (load32 m (rsdt + 36 + 4 * i)) # rsdt_tables m (rsdt + 4 * (i + 1)) n"
    unfolding rsdt_tables_def
    by (subst upt_conv_Cons, simp, subst map_Suc_upt [symmetric]) (simp add: algebra_simps o_def)
  then show ?case
    by (simp add: Suc.IH strncmp_apic [OF assms] sizeof_rsdt_descriptor_def Let_def)
qed

section \<open>Properties\<close>

text \<open>
  C29: \<^verbatim>\<open>serial_puts\<close> sends a terminated string byte by byte, in order, writing a byte only after
  the line status register has reported an empty transmitter since the last byte, and sets the
  line up before the first byte ever sent; it returns whenever the device becomes ready again
  after each byte. On a device that is never ready it never returns.
\<close>

theorem serial_puts_paced:
  assumes "cstr m p xs"
  shows "(responsive dev \<longrightarrow>
      (\<exists>new. serial_puts dev m p s =
        Some (s\<lparr>is_serial_init := (is_serial_init s \<or> xs \<noteq> []),
          io_trace := io_trace s @ (if xs = [] then [] else line_setup s) @ new\<rparr>) \<and> sends new xs)) \<and>
    ((\<forall>s. \<not> ready dev s) \<and> xs \<noteq> [] \<longrightarrow> serial_puts dev m p s = None)"
proof (intro conjI impI)
  assume never: "(\<forall>s. \<not> ready dev s) \<and> xs \<noteq> []"
  then have "m p \<noteq> 0" using assms by (cases xs) auto
  with never show "serial_puts dev m p s = None"
    by (subst serial_puts.simps) (simp add: serial_putc_def serial_wait_never)
qed (rule serial_puts_sends [OF _ assms])

definition idle_device :: device where
  "idle_device = \<lparr>dev_in = (\<lambda>tr port. if port = 0x3fd then 0x20 else if port = 0x71 then 0x59 else 0),
     dev_load = (\<lambda>tr a. 0)\<rparr>"

definition dead_device :: device where
  "dead_device = \<lparr>dev_in = (\<lambda>tr port. 0), dev_load = (\<lambda>tr a. 0)\<rparr>"

definition quiet_ports :: ports where
  "quiet_ports = \<lparr>io_trace = [], is_serial_init = False, lapic_addr = 0, msr = (\<lambda>_. (0, 0))\<rparr>"

lemma idle_responsive: "responsive idle_device"
  unfolding responsive_def by (auto intro!: exI [of _ 0] simp: ready_def idle_device_def SERIAL_COM1_def)

theorem serial_puts_paced_witness:
  "(\<exists>new. serial_puts idle_device ((\<lambda>_. 0)(8 := 72, 9 := 105)) 8 quiet_ports =
      Some (quiet_ports\<lparr>is_serial_init := True, io_trace := line_setup quiet_ports @ new\<rparr>) \<and>
      sends new [72, 105]) \<and>
   serial_puts dead_device ((\<lambda>_. 0)(8 := 72, 9 := 105)) 8 quiet_ports = None"
proof -
  have c: "cstr ((\<lambda>_. 0)(8 := 72, 9 := 105)) 8 [72, 105]" by simp
  have "\<forall>s. \<not> ready dead_device s" by (simp add: ready_def dead_device_def)
  with serial_puts_paced [OF c, of idle_device quiet_ports] serial_puts_paced [OF c, of dead_device quiet_ports]
    idle_responsive
  show ?thesis by (simp add: quiet_ports_def)
qed

text \<open>
  \<^verbatim>\<open>rtc_sec\<close> decodes the binary-coded seconds register: on a clock that is not being
  updated and whose register 0 holds the code of \<open>n\<close>, it returns \<open>n\<close>.
\<close>

theorem rtc_sec_decodes:
  assumes "n < 100" "\<forall>tr. last tr = Out 0x70 0x0a \<longrightarrow> dev_in dev tr 0x71 AND 0x80 = 0"
    and "\<forall>tr. last tr = Out 0x70 0 \<longrightarrow> dev_in dev tr 0x71 = bcd n"
  shows "\<exists>s'. rtc_sec dev s = Some (of_nat n, s')"
proof -
  obtain s1 where "rtc_wait dev s = Some s1" using rtc_wait_idle assms(2) by blast
  then show ?thesis
    using bcd_decode [OF assms(1)] assms(3)
    by (simp add: rtc_sec_def rtc_read_def asm_in8_def asm_out8_def Let_def)
qed

theorem rtc_sec_decodes_witness:
  "\<exists>s'. rtc_sec idle_device quiet_ports = Some (59, s')"
  using rtc_sec_decodes [of 59 idle_device quiet_ports] by (simp add: idle_device_def bcd_def)

text \<open>
  \<^verbatim>\<open>acpi_init\<close> takes the address of the local APIC from the last table of the root table
  whose signature is \<^verbatim>\<open>APIC\<close>, and leaves it unchanged when there is none; everything else
  is left alone.
\<close>

theorem acpi_init_finds_apic:
  assumes "apic_table m lit" "n = unat ((ucast (load32 m (rsdt + 4)) - 36 :: u64) div 4)"
  shows "acpi_init lit m rsdt s =
    s\<lparr>lapic_addr := last (lapic_addr s # map (\<lambda>h. ucast (load32 m (h + 36)))
       (filter (apic_table m) (rsdt_tables m rsdt n)))\<rparr>"
  using acpi_scan_spec [OF assms(1), of rsdt n 0 s] assms(2)
  by (simp add: acpi_init_def sizeof_rsdt_descriptor_def)

definition acpi_mem :: mem where
  "acpi_mem = ((\<lambda>_. 0)(104 := 40, 136 := 0, 137 := 2,
     512 := 0x41, 513 := 0x50, 514 := 0x49, 515 := 0x43, 550 := 0xe0, 551 := 0xfe,
     16 := 0x41, 17 := 0x50, 18 := 0x49, 19 := 0x43))"

theorem acpi_init_finds_apic_witness:
  "lapic_addr (acpi_init 16 acpi_mem 100 quiet_ports) = 0xfee00000"
proof -
  have "load32 acpi_mem (100 + 4) = 40" "load32 acpi_mem (100 + 36 + 4 * 0) = 512"
    "load32 acpi_mem (512 + 36) = 0xfee00000"
    by (simp_all add: load32_def load16_def acpi_mem_def)
  moreover have "apic_table acpi_mem 16" "apic_table acpi_mem 512"
    by (simp_all add: apic_table_def acpi_mem_def)
  ultimately show ?thesis
    using acpi_init_finds_apic [of acpi_mem 16 1 100 quiet_ports]
    by (simp add: rsdt_tables_def)
qed

end
