(* ===== verification/Navy_Handover.thy ===== *)
theory Navy_Handover
  imports Navy_Prelude
begin

text \<open>
  The hand-over from the boot loader: the structure of \<^verbatim>\<open>libs/navy/handover.h\<close>, the search
  for a module (\<^verbatim>\<open>handover.c\<close>) and the translation of the stivale2 tag list
  (\<^verbatim>\<open>arch/x86_64/stivale2_handover.c\<close>). The tags live in a store from addresses to tags;
  a module name is the 128-byte array the code fills, its string the bytes before the first
  zero, which is what \<^verbatim>\<open>strcmp\<close> compares (theory \<open>Navy_String\<close>).
\<close>

section \<open>The handover structure\<close>

definition LIMIT_MEMORY_MAP_SIZE :: nat where
  "LIMIT_MEMORY_MAP_SIZE = 64"

record mmap_entry =
  mm_range :: range_t
  mm_type :: u16
  is_free :: bool

record framebuffer =
  fb_addr :: u64
  fb_height :: u16
  fb_width :: u16
  fb_pitch :: u16

record handover_module =
  hm_name :: "u8 list"
  hm_addr :: range_t

text \<open>The used prefix of \<open>mmap[64]\<close> and \<open>modules[64]\<close>; the counters are their lengths.\<close>

record handover =
  memory_usable :: u64
  usable_pages_h :: u64
  rsdt :: u64
  ho_framebuffer :: framebuffer
  ho_mmap :: "mmap_entry list"
  ho_modules :: "handover_module list"

definition memory_map_size :: "handover \<Rightarrow> nat" where
  "memory_map_size h = length (ho_mmap h)"

definition module_count :: "handover \<Rightarrow> nat" where
  "module_count h = length (ho_modules h)"

definition str_of :: "u8 list \<Rightarrow> u8 list" where
  "str_of bs = takeWhile (\<lambda>b. b \<noteq> 0) bs"

fun find_module_loop :: "handover_module list \<Rightarrow> u8 list \<Rightarrow> range_t" where
  "find_module_loop [] name = \<lparr>rbase = 0, rlength = 0\<rparr>"
| "find_module_loop (x # xs) name =
     (if str_of (hm_name x) = name then hm_addr x else find_module_loop xs name)"

definition handover_find_module :: "handover \<Rightarrow> u8 list \<Rightarrow> range_t" where
  "handover_find_module h name = find_module_loop (ho_modules h) name"

section \<open>The stivale2 tags\<close>

definition STIVALE2_MMAP_USABLE :: u32 where
  "STIVALE2_MMAP_USABLE = 1"

definition STIVALE2_MMAP_KERNEL_AND_MODULES :: u16 where
  "STIVALE2_MMAP_KERNEL_AND_MODULES = 0x1001"

record stivale2_mmap_entry =
  sm_base :: u64
  sm_length :: u64
  sm_type :: u32

record stivale2_module =
  st_begin :: u64
  st_end :: u64
  st_string :: "u8 list"

datatype tag_body =
    Tag_memmap "stivale2_mmap_entry list"
  | Tag_modules "stivale2_module list"
  | Tag_smp
  | Tag_rsdp u64
  | Tag_framebuffer u64 u16 u16 u16
  | Tag_other u64

record stivale2_tag =
  tg_body :: tag_body
  tg_next :: u64

text \<open>One iteration of \<^verbatim>\<open>parse_mmap\<close>; the array has 64 entries and no check guards it.\<close>

definition parse_mmap_entry :: "stivale2_mmap_entry \<Rightarrow> handover \<Rightarrow> handover outcome" where
  "parse_mmap_entry e this =
     (if memory_map_size this < LIMIT_MEMORY_MAP_SIZE
      then Done (this\<lparr>
        memory_usable := (if sm_type e = STIVALE2_MMAP_USABLE
                          then memory_usable this + sm_length e else memory_usable this),
        ho_mmap := ho_mmap this @
          [\<lparr>mm_range = \<lparr>rbase = sm_base e, rlength = sm_length e\<rparr>,
            mm_type = ucast (sm_type e),
            is_free = (sm_type e = STIVALE2_MMAP_USABLE)\<rparr>]\<rparr>)
      else Fault Out_of_bounds)"

fun parse_mmap_loop :: "stivale2_mmap_entry list \<Rightarrow> handover \<Rightarrow> handover outcome" where
  "parse_mmap_loop [] this = Done this"
| "parse_mmap_loop (e # es) this = bind_o (parse_mmap_entry e this) (parse_mmap_loop es)"

definition parse_mmap :: "stivale2_mmap_entry list \<Rightarrow> handover \<Rightarrow> handover outcome" where
  "parse_mmap es this =
     bind_o (parse_mmap_loop es this) (\<lambda>this'.
       Done (this'\<lparr>usable_pages_h := memory_usable this' div PAGE_SIZE\<rparr>))"

text \<open>
  The name buffer of one module: 128 uninitialised bytes \<open>garbage\<close>, of which the first 64
  are cleared before the string is copied over them.
\<close>

definition name_buffer :: "u8 list \<Rightarrow> u8 list \<Rightarrow> u8 list" where
  "name_buffer garbage string =
     (let cleared = replicate 64 0 @ drop 64 garbage
      in str_of string @ drop (length (str_of string)) cleared)"

definition parse_module_entry ::
  "u8 list \<Rightarrow> stivale2_module \<Rightarrow> handover \<Rightarrow> handover outcome" where
  "parse_module_entry garbage m h =
     (if module_count h < 64
      then Done (h\<lparr>ho_modules := ho_modules h @
        [\<lparr>hm_name = name_buffer garbage (st_string m),
          hm_addr = \<lparr>rbase = st_begin m, rlength = st_end m - st_begin m\<rparr>\<rparr>]\<rparr>)
      else Fault Out_of_bounds)"

fun parse_module :: "u8 list \<Rightarrow> stivale2_module list \<Rightarrow> handover \<Rightarrow> handover outcome" where
  "parse_module garbage [] h = Done h"
| "parse_module garbage (m # ms) h =
     bind_o (parse_module_entry garbage m h) (parse_module garbage ms)"

text \<open>\<open>rsdp\<close> maps the address of the RSDP descriptor to its \<^verbatim>\<open>rsdt\<close> field.\<close>

definition parse_rsdp :: "(u64 \<Rightarrow> u32) \<Rightarrow> u64 \<Rightarrow> handover \<Rightarrow> handover" where
  "parse_rsdp rsdp addr h = h\<lparr>rsdt := ucast (rsdp addr)\<rparr>"

definition parse_framebuffer :: "u64 \<Rightarrow> u16 \<Rightarrow> u16 \<Rightarrow> u16 \<Rightarrow> handover \<Rightarrow> handover" where
  "parse_framebuffer addr width height pitch h =
     h\<lparr>ho_framebuffer := \<lparr>fb_addr = addr, fb_height = height, fb_width = width, fb_pitch = pitch\<rparr>\<rparr>"

definition parse_tag ::
  "u8 list \<Rightarrow> (u64 \<Rightarrow> u32) \<Rightarrow> tag_body \<Rightarrow> handover \<Rightarrow> handover outcome" where
  "parse_tag garbage rsdp b h =
     (case b of
        Tag_memmap es \<Rightarrow> parse_mmap es h
      | Tag_modules ms \<Rightarrow> parse_module garbage ms h
      | Tag_smp \<Rightarrow> Done h
      | Tag_rsdp addr \<Rightarrow> Done (parse_rsdp rsdp addr h)
      | Tag_framebuffer addr width height pitch \<Rightarrow>
          Done (parse_framebuffer addr width height pitch h)
      | Tag_other _ \<Rightarrow> Done h)"

text \<open>
  The walk over the tag list. A cyclic list is never left (\<open>None\<close>); an address that holds
  no tag is a fault.
\<close>

partial_function (option) parse_tags ::
  "u8 list \<Rightarrow> (u64 \<Rightarrow> u32) \<Rightarrow> (u64 \<Rightarrow> stivale2_tag option) \<Rightarrow> u64 \<Rightarrow> handover \<Rightarrow>
   handover outcome option" where
  "parse_tags garbage rsdp store tag h =
     (if tag = 0 then Some (Done h)
      else (case store tag of
              None \<Rightarrow> Some (Fault Null_deref)
            | Some t \<Rightarrow>
                (case parse_tag garbage rsdp (tg_body t) h of
                   Done h' \<Rightarrow> parse_tags garbage rsdp store (tg_next t) h'
                 | Fault e \<Rightarrow> Some (Fault e)
                 | Hang \<Rightarrow> Some Hang)))"

declare parse_tags.simps [code]

definition empty_handover :: handover where
  "empty_handover =
     \<lparr>memory_usable = 0, usable_pages_h = 0, rsdt = 0,
      ho_framebuffer = \<lparr>fb_addr = 0, fb_height = 0, fb_width = 0, fb_pitch = 0\<rparr>,
      ho_mmap = [], ho_modules = []\<rparr>"

definition stivale2_parse_header ::
  "u8 list \<Rightarrow> (u64 \<Rightarrow> u32) \<Rightarrow> (u64 \<Rightarrow> stivale2_tag option) \<Rightarrow> u64 \<Rightarrow> handover outcome" where
  "stivale2_parse_header garbage rsdp store tags =
     (case parse_tags garbage rsdp store tags empty_handover of None \<Rightarrow> Hang | Some r \<Rightarrow> r)"


section \<open>Parsing a tag list\<close>

text \<open>\<open>tag_chain store p ts\<close>: the tags \<open>ts\<close> are linked from \<open>p\<close>, and the list ends.\<close>

fun tag_chain :: "(u64 \<Rightarrow> stivale2_tag option) \<Rightarrow> u64 \<Rightarrow> stivale2_tag list \<Rightarrow> bool" where
  "tag_chain store p [] = (p = 0)"
| "tag_chain store p (t # ts) = (p \<noteq> 0 \<and> store p = Some t \<and> tag_chain store (tg_next t) ts)"

fun fold_tags ::
  "u8 list \<Rightarrow> (u64 \<Rightarrow> u32) \<Rightarrow> stivale2_tag list \<Rightarrow> handover \<Rightarrow> handover outcome" where
  "fold_tags garbage rsdp [] h = Done h"
| "fold_tags garbage rsdp (t # ts) h =
     bind_o (parse_tag garbage rsdp (tg_body t) h) (fold_tags garbage rsdp ts)"

lemma parse_tags_chain:
  "tag_chain store p ts \<Longrightarrow> parse_tags garbage rsdp store p h = Some (fold_tags garbage rsdp ts h)"
proof (induction ts arbitrary: p h)
  case Nil
  then show ?case by (subst parse_tags.simps) simp
next
  case (Cons t ts)
  then show ?case
    by (subst parse_tags.simps) (cases "parse_tag garbage rsdp (tg_body t) h"; simp)
qed

text \<open>What the entries of the tags become in the handover.\<close>

definition to_entry :: "stivale2_mmap_entry \<Rightarrow> mmap_entry" where
  "to_entry e =
     \<lparr>mm_range = \<lparr>rbase = sm_base e, rlength = sm_length e\<rparr>, mm_type = ucast (sm_type e),
      is_free = (sm_type e = STIVALE2_MMAP_USABLE)\<rparr>"

definition to_module :: "u8 list \<Rightarrow> stivale2_module \<Rightarrow> handover_module" where
  "to_module garbage m =
     \<lparr>hm_name = name_buffer garbage (st_string m),
      hm_addr = \<lparr>rbase = st_begin m, rlength = st_end m - st_begin m\<rparr>\<rparr>"

definition usable_sum :: "stivale2_mmap_entry list \<Rightarrow> u64" where
  "usable_sum es = sum_list (map sm_length (filter (\<lambda>e. sm_type e = STIVALE2_MMAP_USABLE) es))"

fun memmaps :: "stivale2_tag list \<Rightarrow> stivale2_mmap_entry list" where
  "memmaps [] = []"
| "memmaps (t # ts) = (case tg_body t of Tag_memmap es \<Rightarrow> es | _ \<Rightarrow> []) @ memmaps ts"

fun mods :: "stivale2_tag list \<Rightarrow> stivale2_module list" where
  "mods [] = []"
| "mods (t # ts) = (case tg_body t of Tag_modules ms \<Rightarrow> ms | _ \<Rightarrow> []) @ mods ts"

lemma parse_mmap_loop_eq:
  "length (ho_mmap h) + length es \<le> 64 \<Longrightarrow>
   parse_mmap_loop es h =
     Done (h\<lparr>memory_usable := memory_usable h + usable_sum es,
             ho_mmap := ho_mmap h @ map to_entry es\<rparr>)"
proof (induction es arbitrary: h)
  case Nil
  then show ?case by (simp add: usable_sum_def)
next
  case (Cons e es)
  then show ?case
    by (simp add: parse_mmap_entry_def memory_map_size_def LIMIT_MEMORY_MAP_SIZE_def
        usable_sum_def to_entry_def add.assoc)
qed

lemma parse_module_eq:
  "length (ho_modules h) + length ms \<le> 64 \<Longrightarrow>
   parse_module garbage ms h =
     Done (h\<lparr>ho_modules := ho_modules h @ map (to_module garbage) ms\<rparr>)"
  by (induction ms arbitrary: h)
    (simp_all add: parse_module_entry_def module_count_def to_module_def)

lemma fold_tags_Done:
  "length (ho_mmap h) + length (memmaps ts) \<le> 64 \<Longrightarrow>
   length (ho_modules h) + length (mods ts) \<le> 64 \<Longrightarrow>
   \<exists>h'. fold_tags garbage rsdp ts h = Done h' \<and>
     ho_mmap h' = ho_mmap h @ map to_entry (memmaps ts) \<and>
     ho_modules h' = ho_modules h @ map (to_module garbage) (mods ts) \<and>
     memory_usable h' = memory_usable h + usable_sum (memmaps ts)"
proof (induction ts arbitrary: h)
  case Nil
  then show ?case by (simp add: usable_sum_def)
next
  case (Cons t ts)
  show ?case
  proof (cases "tg_body t")
    case (Tag_memmap es)
    let ?h = "h\<lparr>memory_usable := memory_usable h + usable_sum es,
      ho_mmap := ho_mmap h @ map to_entry es\<rparr>"
    let ?h' = "?h\<lparr>usable_pages_h := memory_usable ?h div PAGE_SIZE\<rparr>"
    have "parse_tag garbage rsdp (tg_body t) h = Done ?h'"
      using Cons.prems Tag_memmap by (simp add: parse_tag_def parse_mmap_def parse_mmap_loop_eq)
    with Cons.IH [of ?h'] Cons.prems Tag_memmap show ?thesis
      by (auto simp: usable_sum_def add.assoc)
  next
    case (Tag_modules ms)
    let ?h' = "h\<lparr>ho_modules := ho_modules h @ map (to_module garbage) ms\<rparr>"
    have "parse_tag garbage rsdp (tg_body t) h = Done ?h'"
      using Cons.prems Tag_modules by (simp add: parse_tag_def parse_module_eq)
    with Cons.IH [of ?h'] Cons.prems Tag_modules show ?thesis by simp
  next
    case Tag_smp
    with Cons.IH [of h] Cons.prems show ?thesis by (simp add: parse_tag_def)
  next
    case (Tag_rsdp a)
    with Cons.IH [of "parse_rsdp rsdp a h"] Cons.prems show ?thesis
      by (simp add: parse_tag_def parse_rsdp_def)
  next
    case (Tag_framebuffer a w i p)
    with Cons.IH [of "parse_framebuffer a w i p h"] Cons.prems show ?thesis
      by (simp add: parse_tag_def parse_framebuffer_def)
  next
    case (Tag_other u)
    with Cons.IH [of h] Cons.prems show ?thesis by (simp add: parse_tag_def)
  qed
qed

lemma parse_mmap_loop_overflow:
  "length (ho_mmap h) \<le> 64 \<Longrightarrow> 64 < length (ho_mmap h) + length es \<Longrightarrow>
   parse_mmap_loop es h = Fault Out_of_bounds"
  by (induction es arbitrary: h)
    (auto simp: parse_mmap_entry_def memory_map_size_def LIMIT_MEMORY_MAP_SIZE_def)

section \<open>Finding a module\<close>

lemma takeWhile_terminated:
  "takeWhile (\<lambda>b. b \<noteq> 0) (str_of s @ 0 # ys) = str_of s"
  by (simp add: str_of_def takeWhile_append takeWhile_eq_all_conv)

lemma drop_zeros: "n < k \<Longrightarrow> drop n (replicate k x @ ys) = x # replicate (k - Suc n) x @ ys"
proof (induction n arbitrary: k)
  case 0
  then show ?case by (cases k) simp_all
next
  case (Suc n)
  then show ?case by (cases k) simp_all
qed

lemma str_of_name_buffer:
  assumes "length (str_of s) < 64"
  shows "str_of (name_buffer garbage s) = str_of s"
  unfolding name_buffer_def Let_def drop_zeros [OF assms]
  by (subst (1) str_of_def) (rule takeWhile_terminated)

lemma find_module_loop_map:
  assumes "\<forall>m\<in>set ms. length (str_of (st_string m)) < 64"
  shows "find_module_loop (map (to_module garbage) ms) name =
    (case find (\<lambda>m. str_of (st_string m) = name) ms of
       None \<Rightarrow> \<lparr>rbase = 0, rlength = 0\<rparr>
     | Some m \<Rightarrow> \<lparr>rbase = st_begin m, rlength = st_end m - st_begin m\<rparr>)"
  using assms
  by (induction ms) (auto simp: to_module_def str_of_name_buffer split: option.splits)

section \<open>Properties\<close>

text \<open>
  C38: for every tag list that ends and holds at most 64 memory-map entries and 64 modules,
  \<^verbatim>\<open>stivale2_parse_header\<close> returns, the memory map holds the entries in order, the usable
  memory is the sum of the usable entries, and a module whose names are shorter than 64
  characters is found under its name (the first one with it), any other name giving the
  empty range.
\<close>

theorem stivale2_parse_header_spec:
  assumes "tag_chain store p ts" "length (memmaps ts) \<le> 64" "length (mods ts) \<le> 64"
    and "\<forall>m\<in>set (mods ts). length (str_of (st_string m)) < 64"
  shows "\<exists>h. stivale2_parse_header garbage rsdp store p = Done h \<and>
    ho_mmap h = map to_entry (memmaps ts) \<and> memory_usable h = usable_sum (memmaps ts) \<and>
    (\<forall>name. handover_find_module h name =
      (case find (\<lambda>m. str_of (st_string m) = name) (mods ts) of
         None \<Rightarrow> \<lparr>rbase = 0, rlength = 0\<rparr>
       | Some m \<Rightarrow> \<lparr>rbase = st_begin m, rlength = st_end m - st_begin m\<rparr>))"
proof -
  obtain h where "fold_tags garbage rsdp ts empty_handover = Done h"
    "ho_mmap h = map to_entry (memmaps ts)"
    "ho_modules h = map (to_module garbage) (mods ts)"
    "memory_usable h = usable_sum (memmaps ts)"
    using fold_tags_Done [of empty_handover ts garbage rsdp] assms(2,3)
    by (auto simp: empty_handover_def)
  then show ?thesis
    using find_module_loop_map [OF assms(4), of garbage] parse_tags_chain [OF assms(1)]
    by (simp add: stivale2_parse_header_def handover_find_module_def)
qed

theorem stivale2_parse_header_spec_witness:
  "\<exists>h. stivale2_parse_header (replicate 128 7) (\<lambda>_. 0)
      [8 \<mapsto> \<lparr>tg_body = Tag_memmap [\<lparr>sm_base = 0x1000, sm_length = 0x5000, sm_type = 1\<rparr>], tg_next = 16\<rparr>,
       16 \<mapsto> \<lparr>tg_body = Tag_modules [\<lparr>st_begin = 0x9000, st_end = 0x9800, st_string = [115, 0]\<rparr>], tg_next = 0\<rparr>]
      8 = Done h \<and> memory_usable h = 0x5000 \<and>
    handover_find_module h [115] = \<lparr>rbase = 0x9000, rlength = 0x800\<rparr>"
proof -
  let ?t1 = "\<lparr>tg_body = Tag_memmap [\<lparr>sm_base = 0x1000, sm_length = 0x5000, sm_type = 1\<rparr>], tg_next = 16\<rparr>"
  let ?t2 = "\<lparr>tg_body = Tag_modules [\<lparr>st_begin = 0x9000, st_end = 0x9800, st_string = [115, 0]\<rparr>], tg_next = 0\<rparr>"
  have "tag_chain [8 \<mapsto> ?t1, 16 \<mapsto> ?t2] 8 [?t1, ?t2]" by simp
  moreover have "length (memmaps [?t1, ?t2]) \<le> 64" "length (mods [?t1, ?t2]) \<le> 64"
    "\<forall>m\<in>set (mods [?t1, ?t2]). length (str_of (st_string m)) < 64"
    by (simp_all add: str_of_def)
  ultimately show ?thesis
    using stivale2_parse_header_spec [of "[8 \<mapsto> ?t1, 16 \<mapsto> ?t2]" 8 "[?t1, ?t2]" "replicate 128 7" "\<lambda>_. 0"]
    by (auto simp: usable_sum_def STIVALE2_MMAP_USABLE_def str_of_def)
qed

end
