(* ===== verification/Navy_Pmm.thy ===== *)
theory Navy_Pmm
  imports Navy_Handover
begin

text \<open>
  The physical page allocator, \<^verbatim>\<open>arch/x86_64/pmm.c\<close>: one bit per page (set = used) in a
  byte array, a count of usable pages, the page at which the next search starts and a spin
  lock. \<open>bm\<close> is the memory seen through the pointer \<^verbatim>\<open>bitmap\<close>, byte by byte; the file's
  static variables are the other fields. The search calls itself again when it has found
  nothing, so it is a partial function: \<open>None\<close> is a call that never returns.
\<close>

section \<open>The address windows\<close>

definition MMAP_IO_BASE :: u64 where
  "MMAP_IO_BASE = 0xffff800000000000"

definition MMAP_KERNEL_BASE :: u64 where
  "MMAP_KERNEL_BASE = 0xffffffff80000000"

definition mmap_phys_to_io :: "u64 \<Rightarrow> u64" where
  "mmap_phys_to_io phys_addr = phys_addr + MMAP_IO_BASE"

definition mmap_io_to_phys :: "u64 \<Rightarrow> u64" where
  "mmap_io_to_phys vaddr = vaddr - MMAP_IO_BASE"

definition mmap_phys_to_kernel :: "u64 \<Rightarrow> u64" where
  "mmap_phys_to_kernel phys_addr = phys_addr + MMAP_KERNEL_BASE"

definition mmap_kernel_to_phys :: "u64 \<Rightarrow> u64" where
  "mmap_kernel_to_phys vaddr = vaddr - MMAP_KERNEL_BASE"

section \<open>State and bitmap\<close>

record pmm =
  bitmap :: u64
  bm :: "u64 \<Rightarrow> u8"
  bitmap_size :: u64
  usable_pages :: u64
  last_page :: u64
  pmm_lock :: u32

definition bitmap_unused :: "u64 \<Rightarrow> pmm \<Rightarrow> pmm" where
  "bitmap_unused index s =
     s\<lparr>bm := (bm s)(index div 8 := bm s (index div 8) AND NOT (push_bit (unat (index mod 8)) 1)),
       usable_pages := usable_pages s + 1\<rparr>"

definition bitmap_used :: "u64 \<Rightarrow> pmm \<Rightarrow> pmm" where
  "bitmap_used index s =
     s\<lparr>bm := (bm s)(index div 8 := bm s (index div 8) OR push_bit (unat (index mod 8)) 1),
       usable_pages := usable_pages s - 1\<rparr>"

definition is_set_pmm :: "pmm \<Rightarrow> u64 \<Rightarrow> bool" where
  "is_set_pmm s index \<longleftrightarrow> bm s (index div 8) AND push_bit (unat (index mod 8)) 1 \<noteq> 0"

function used_loop :: "u64 \<Rightarrow> u64 \<Rightarrow> u64 \<Rightarrow> pmm \<Rightarrow> pmm" where
  "used_loop target i n s =
     (if i < n then used_loop target (i + 1) n (bitmap_used (target + i) s) else s)"
  by auto
termination
  by (relation "measure (\<lambda>(target, i, n, s). unat n - unat i)")
    (auto simp: word_less_nat_alt unat_Suc_less)

declare used_loop.simps [simp del]

definition pmm_range_used :: "range_t \<Rightarrow> pmm \<Rightarrow> pmm" where
  "pmm_range_used rng s = used_loop (rbase rng div PAGE_SIZE) 0 (rlength rng div PAGE_SIZE) s"

function unused_loop :: "u64 \<Rightarrow> u64 \<Rightarrow> u64 \<Rightarrow> pmm \<Rightarrow> pmm" where
  "unused_loop target i n s =
     (if i < n then unused_loop target (i + 1) n (bitmap_unused (target + i) s) else s)"
  by auto
termination
  by (relation "measure (\<lambda>(target, i, n, s). unat n - unat i)")
    (auto simp: word_less_nat_alt unat_Suc_less)

declare unused_loop.simps [simp del]

definition pmm_range_unused :: "range_t \<Rightarrow> pmm \<Rightarrow> pmm" where
  "pmm_range_unused rng s =
     unused_loop (rbase rng div PAGE_SIZE) 0 (rlength rng div PAGE_SIZE) s"

section \<open>The search\<close>

definition scan_step :: "pmm \<Rightarrow> u64 \<Rightarrow> range_t \<Rightarrow> range_t" where
  "scan_step s i rng =
     (if \<not> is_set_pmm s i
      then \<lparr>rbase = (if rlength rng = 0 then i * PAGE_SIZE else rbase rng),
            rlength = rlength rng + PAGE_SIZE\<rparr>
      else rng\<lparr>rlength := 0\<rparr>)"

function scan_loop :: "pmm \<Rightarrow> u64 \<Rightarrow> u64 \<Rightarrow> range_t \<Rightarrow> range_t" where
  "scan_loop s amount i rng =
     (if i < bitmap_size s \<and> rlength rng < amount
      then scan_loop s amount (i + 1) (scan_step s i rng)
      else rng)"
  by auto
termination
  by (relation "measure (\<lambda>(s, amount, i, rng). unat (bitmap_size s) - unat i)")
    (auto simp: word_less_nat_alt unat_Suc_less)

declare scan_loop.simps [simp del]

definition empty_range :: range_t where
  "empty_range = \<lparr>rbase = 0, rlength = 0\<rparr>"

partial_function (option) pmm_find_pages :: "u64 \<Rightarrow> pmm \<Rightarrow> (range_t \<times> pmm) option" where
  "pmm_find_pages amount s =
     (let rng = scan_loop s amount (last_page s) empty_range
      in if amount \<le> rlength rng
         then Some (rng,
                pmm_range_used rng (s\<lparr>last_page := (rbase rng + rlength rng) div PAGE_SIZE\<rparr>))
         else if last_page s = 0 then Some (empty_range, s)
         else pmm_find_pages amount s)"

declare pmm_find_pages.simps [code]

section \<open>Allocation and release\<close>

definition pmm_alloc :: "u64 \<Rightarrow> pmm \<Rightarrow> (range_t \<times> pmm) outcome" where
  "pmm_alloc amount s =
     bind_o (arch_acquire (pmm_lock s)) (\<lambda>l.
     let s = s\<lparr>pmm_lock := l\<rparr> in
     kassert (usable_pages s > 0) (
     bind_o (of_option (pmm_find_pages amount s)) (\<lambda>(result, s).
     Done (result, s\<lparr>pmm_lock := arch_release (pmm_lock s)\<rparr>))))"

definition pmm_free :: "range_t \<Rightarrow> pmm \<Rightarrow> pmm outcome" where
  "pmm_free rng s =
     bind_o (arch_acquire (pmm_lock s)) (\<lambda>l.
     let s = pmm_range_unused rng (s\<lparr>pmm_lock := l\<rparr>) in
     Done (s\<lparr>pmm_lock := arch_release (pmm_lock s)\<rparr>))"

definition get_usable_pages :: "pmm \<Rightarrow> u64" where
  "get_usable_pages s = usable_pages s"

section \<open>Initialisation\<close>

text \<open>
  The first loop of \<^verbatim>\<open>pmm_init\<close> looks for a place for the bitmap and cuts that place off
  its memory-map entry; it runs on until the pointer is not \<^verbatim>\<open>NULL\<close>.
\<close>

fun place_bitmap :: "u64 \<Rightarrow> u64 \<Rightarrow> mmap_entry list \<Rightarrow> u64 \<times> mmap_entry list" where
  "place_bitmap bsize ptr [] = (ptr, [])"
| "place_bitmap bsize ptr (e # es) =
     (if ptr = 0
      then if is_free e \<and> rlength (mm_range e) > bsize
           then let e' = e\<lparr>mm_range :=
                      \<lparr>rbase = rbase (mm_range e) + ALIGN_UP bsize PAGE_SIZE,
                       rlength = rlength (mm_range e) - ALIGN_UP bsize PAGE_SIZE\<rparr>\<rparr>;
                    (ptr', es') = place_bitmap bsize (mmap_phys_to_io (rbase (mm_range e))) es
                in (ptr', e' # es')
           else let (ptr', es') = place_bitmap bsize ptr es in (ptr', e # es')
      else (ptr, e # es))"

fun unused_entries :: "mmap_entry list \<Rightarrow> pmm \<Rightarrow> pmm" where
  "unused_entries [] s = s"
| "unused_entries (e # es) s =
     unused_entries es
       (if is_free e
        then pmm_range_unused
               \<lparr>rbase = ALIGN_DOWN (rbase (mm_range e)) PAGE_SIZE,
                rlength = ALIGN_UP (rlength (mm_range e)) PAGE_SIZE\<rparr> s
        else s)"

definition pmm_init :: "handover \<Rightarrow> pmm \<Rightarrow> (handover \<times> pmm) outcome" where
  "pmm_init h s =
     (if memory_map_size h = 0 then Fault Out_of_bounds
      else
        let memory_end = range_end (mm_range (last (ho_mmap h)));
            bsize = memory_end div (PAGE_SIZE * 8);
            (ptr, mmap) = place_bitmap bsize (bitmap s) (ho_mmap h);
            s = s\<lparr>bitmap := ptr, bitmap_size := bsize\<rparr>
        in kassert (ptr \<noteq> 0) (
             let s = s\<lparr>bm := (\<lambda>i. if i < bsize then 0xff else bm s i)\<rparr>;
                 s = unused_entries mmap s;
                 s = pmm_range_used \<lparr>rbase = mmap_io_to_phys (bitmap s), rlength = bitmap_size s\<rparr> s
             in Done (h\<lparr>ho_mmap := mmap\<rparr>, s)))"

section \<open>The bitmap as a set of pages\<close>

lemma u8_and_bit: "n < 8 \<Longrightarrow> (w :: u8) AND push_bit n 1 \<noteq> 0 \<longleftrightarrow> bit w n"
proof (cases "bit w n")
  case True
  assume "n < 8"
  with True have "bit (w AND push_bit n 1) n" by (simp add: bit_simps)
  with True show ?thesis by auto
next
  case False
  then have "w AND push_bit n 1 = 0" by (intro bit_word_eqI) (auto simp: bit_simps)
  with False show ?thesis by simp
qed

lemma page_bit_less: "unat ((i :: u64) mod 8) < 8"
  by (simp add: unat_mod)

lemma is_set_bit: "is_set_pmm s i \<longleftrightarrow> bit (bm s (i div 8)) (unat (i mod 8))"
  using u8_and_bit [OF page_bit_less] by (simp add: is_set_pmm_def)

lemma page_index_eq: "(i :: u64) div 8 = j div 8 \<Longrightarrow> unat (i mod 8) = unat (j mod 8) \<Longrightarrow> i = j"
  by (metis div_mult_mod_eq unsigned_word_eqI)

lemma bit_or_push: "n < 8 \<Longrightarrow> bit ((w :: u8) OR push_bit n 1) m \<longleftrightarrow> m = n \<or> bit w m"
  by (auto simp: bit_simps)

lemma bit_and_not_push: "n < 8 \<Longrightarrow> m < 8 \<Longrightarrow> bit ((w :: u8) AND NOT (push_bit n 1)) m \<longleftrightarrow> m \<noteq> n \<and> bit w m"
  by (auto simp: bit_simps)

lemma bm_used: "bm (bitmap_used i s) = (bm s)(i div 8 := bm s (i div 8) OR push_bit (unat (i mod 8)) 1)"
  by (simp add: bitmap_used_def)

lemma bm_unused:
  "bm (bitmap_unused i s) = (bm s)(i div 8 := bm s (i div 8) AND NOT (push_bit (unat (i mod 8)) 1))"
  by (simp add: bitmap_unused_def)

lemma is_set_used [simp]: "is_set_pmm (bitmap_used i s) j \<longleftrightarrow> j = i \<or> is_set_pmm s j"
proof (cases "j div 8 = i div 8")
  case True
  then have "unat (j mod 8) = unat (i mod 8) \<longleftrightarrow> j = i" using page_index_eq [of j i] by auto
  with True show ?thesis
    by (simp only: is_set_bit bm_used fun_upd_same
        bit_or_push [OF page_bit_less])
next
  case False
  then show ?thesis by (auto simp: is_set_bit bitmap_used_def)
qed

lemma is_set_unused [simp]: "is_set_pmm (bitmap_unused i s) j \<longleftrightarrow> j \<noteq> i \<and> is_set_pmm s j"
proof (cases "j div 8 = i div 8")
  case True
  then have "unat (j mod 8) = unat (i mod 8) \<longleftrightarrow> j = i" using page_index_eq [of j i] by auto
  with True show ?thesis
    by (simp only: is_set_bit bm_unused fun_upd_same
        bit_and_not_push [OF page_bit_less page_bit_less])
next
  case False
  then show ?thesis by (auto simp: is_set_bit bitmap_unused_def)
qed

lemma is_set_fields [simp]:
  "is_set_pmm (s\<lparr>last_page := l\<rparr>) j = is_set_pmm s j"
  "is_set_pmm (s\<lparr>pmm_lock := k\<rparr>) j = is_set_pmm s j"
  by (simp_all add: is_set_pmm_def)

text \<open>The other fields are left alone by the two bit operations.\<close>

lemma bitmap_used_fields [simp]:
  "bitmap (bitmap_used i s) = bitmap s"
  "bitmap_size (bitmap_used i s) = bitmap_size s"
  "last_page (bitmap_used i s) = last_page s"
  "pmm_lock (bitmap_used i s) = pmm_lock s"
  "usable_pages (bitmap_used i s) = usable_pages s - 1"
  by (simp_all add: bitmap_used_def)

lemma bitmap_unused_fields [simp]:
  "bitmap (bitmap_unused i s) = bitmap s"
  "bitmap_size (bitmap_unused i s) = bitmap_size s"
  "last_page (bitmap_unused i s) = last_page s"
  "pmm_lock (bitmap_unused i s) = pmm_lock s"
  "usable_pages (bitmap_unused i s) = usable_pages s + 1"
  by (simp_all add: bitmap_unused_def)

text \<open>\<open>in_pages r j\<close>: page \<open>j\<close> is one of the pages a loop over the range \<open>r\<close> visits.\<close>

definition in_pages :: "range_t \<Rightarrow> u64 \<Rightarrow> bool" where
  "in_pages r j \<longleftrightarrow> j - rbase r div PAGE_SIZE < rlength r div PAGE_SIZE"

lemma word_between_Suc:
  assumes "(i :: u64) < n"
  shows "i + 1 \<le> x \<and> x < n \<or> x = i \<longleftrightarrow> i \<le> x \<and> x < n"
proof -
  have "x = i \<longleftrightarrow> unat x = unat i" by (simp add: word_unat_eq_iff)
  with assms show ?thesis
    by (auto simp: word_less_nat_alt word_le_nat_alt unat_Suc_less [OF assms])
qed

lemma used_loop_set:
  "is_set_pmm (used_loop t i n s) j \<longleftrightarrow> is_set_pmm s j \<or> (i \<le> j - t \<and> j - t < n)"
proof (induction t i n s rule: used_loop.induct)
  case (1 t i n s)
  show ?case
  proof (cases "i < n")
    case True
    have "j = t + i \<longleftrightarrow> j - t = i" by auto
    then show ?thesis
      using True 1 word_between_Suc [OF True, of "j - t"]
      by (subst used_loop.simps) auto
  next
    case False
    then show ?thesis by (subst used_loop.simps) auto
  qed
qed

lemma unused_loop_set:
  "is_set_pmm (unused_loop t i n s) j \<longleftrightarrow> is_set_pmm s j \<and> \<not> (i \<le> j - t \<and> j - t < n)"
proof (induction t i n s rule: unused_loop.induct)
  case (1 t i n s)
  show ?case
  proof (cases "i < n")
    case True
    have "j = t + i \<longleftrightarrow> j - t = i" by auto
    then show ?thesis
      using True 1 word_between_Suc [OF True, of "j - t"]
      by (subst unused_loop.simps) auto
  next
    case False
    then show ?thesis by (subst unused_loop.simps) auto
  qed
qed

lemma used_loop_fields:
  "i \<le> n \<Longrightarrow>
   bitmap (used_loop t i n s) = bitmap s \<and>
   bitmap_size (used_loop t i n s) = bitmap_size s \<and>
   last_page (used_loop t i n s) = last_page s \<and>
   pmm_lock (used_loop t i n s) = pmm_lock s \<and>
   usable_pages (used_loop t i n s) = usable_pages s - (n - i)"
proof (induction t i n s rule: used_loop.induct)
  case (1 t i n s)
  then show ?case
    by (cases "i < n") (simp_all add: used_loop.simps [of t i n s] used_loop.simps [of t n n s] word_Suc_le)
qed

lemma unused_loop_fields:
  "i \<le> n \<Longrightarrow>
   bitmap (unused_loop t i n s) = bitmap s \<and>
   bitmap_size (unused_loop t i n s) = bitmap_size s \<and>
   last_page (unused_loop t i n s) = last_page s \<and>
   pmm_lock (unused_loop t i n s) = pmm_lock s \<and>
   usable_pages (unused_loop t i n s) = usable_pages s + (n - i)"
proof (induction t i n s rule: unused_loop.induct)
  case (1 t i n s)
  then show ?case
    by (cases "i < n") (simp_all add: unused_loop.simps [of t i n s] unused_loop.simps [of t n n s] word_Suc_le)
qed

lemma pmm_range_used_set [simp]:
  "is_set_pmm (pmm_range_used r s) j \<longleftrightarrow> is_set_pmm s j \<or> in_pages r j"
  by (simp add: pmm_range_used_def used_loop_set in_pages_def)

lemma pmm_range_unused_set [simp]:
  "is_set_pmm (pmm_range_unused r s) j \<longleftrightarrow> is_set_pmm s j \<and> \<not> in_pages r j"
  by (simp add: pmm_range_unused_def unused_loop_set in_pages_def)

lemma pmm_range_used_fields [simp]:
  "bitmap (pmm_range_used r s) = bitmap s"
  "bitmap_size (pmm_range_used r s) = bitmap_size s"
  "last_page (pmm_range_used r s) = last_page s"
  "pmm_lock (pmm_range_used r s) = pmm_lock s"
  "usable_pages (pmm_range_used r s) = usable_pages s - rlength r div PAGE_SIZE"
  by (simp_all add: pmm_range_used_def used_loop_fields)

lemma pmm_range_unused_fields [simp]:
  "bitmap (pmm_range_unused r s) = bitmap s"
  "bitmap_size (pmm_range_unused r s) = bitmap_size s"
  "last_page (pmm_range_unused r s) = last_page s"
  "pmm_lock (pmm_range_unused r s) = pmm_lock s"
  "usable_pages (pmm_range_unused r s) = usable_pages s + rlength r div PAGE_SIZE"
  by (simp_all add: pmm_range_unused_def unused_loop_fields)

section \<open>First fit\<close>

text \<open>
  The specification of the search, over page numbers: the first page from \<open>lo\<close> on that
  starts a run of \<open>need\<close> free pages below \<^verbatim>\<open>bitmap_size\<close>.
\<close>

definition free_run :: "pmm \<Rightarrow> nat \<Rightarrow> nat \<Rightarrow> bool" where
  "free_run s p k \<longleftrightarrow> list_all (\<lambda>q. \<not> is_set_pmm s (of_nat q)) [p..<p + k]"

definition need_pages :: "u64 \<Rightarrow> nat" where
  "need_pages amount = (unat amount + 4095) div 4096"

definition first_fit :: "pmm \<Rightarrow> nat \<Rightarrow> nat \<Rightarrow> nat option" where
  "first_fit s lo need = find (\<lambda>p. free_run s p need) [lo..<Suc (unat (bitmap_size s)) - need]"

definition pages_range :: "nat \<Rightarrow> nat \<Rightarrow> range_t" where
  "pages_range p k = \<lparr>rbase = of_nat (4096 * p), rlength = of_nat (4096 * k)\<rparr>"

lemma free_run_iff: "free_run s p k \<longleftrightarrow> (\<forall>q. p \<le> q \<and> q < p + k \<longrightarrow> \<not> is_set_pmm s (of_nat q))"
  by (auto simp: free_run_def list_all_iff)

lemma free_run_Suc: "free_run s p (Suc k) \<longleftrightarrow> free_run s p k \<and> \<not> is_set_pmm s (of_nat (p + k))"
  by (auto simp: free_run_def)

lemma find_upt_Some:
  "lo \<le> p \<Longrightarrow> p < n \<Longrightarrow> P p \<Longrightarrow> (\<And>q. lo \<le> q \<Longrightarrow> q < p \<Longrightarrow> \<not> P q) \<Longrightarrow>
   find P [lo..<n] = Some p"
  unfolding find_Some_iff by (rule exI [of _ "p - lo"]) auto

lemma first_fit_SomeD:
  "first_fit s lo need = Some p \<Longrightarrow>
   lo \<le> p \<and> p + need \<le> unat (bitmap_size s) \<and> free_run s p need"
  by (auto simp: first_fit_def find_Some_iff)

lemma u64_eq_of_nat: "unat (w :: u64) = n \<Longrightarrow> w = of_nat n"
  using unat_less_bound [of w] by (auto simp: word_unat_eq_iff unat_of_nat)

lemma pages_range_eqI:
  "unat (rbase r) = 4096 * p \<Longrightarrow> unat (rlength r) = 4096 * k \<Longrightarrow> r = pages_range p k"
  unfolding pages_range_def by (cases r) (auto dest: u64_eq_of_nat)

text \<open>The invariant of the scan at page \<open>i\<close>: the last \<open>k\<close> pages are free.\<close>

definition scan_inv :: "pmm \<Rightarrow> nat \<Rightarrow> nat \<Rightarrow> nat \<Rightarrow> nat \<Rightarrow> range_t \<Rightarrow> bool" where
  "scan_inv s lo need i k r \<longleftrightarrow>
     k \<le> need \<and> lo + k \<le> i \<and> unat (rlength r) = 4096 * k \<and> free_run s (i - k) k \<and>
     (0 < k \<longrightarrow> unat (rbase r) = 4096 * (i - k)) \<and>
     (\<forall>p. lo \<le> p \<and> p < i - k \<longrightarrow> \<not> free_run s p need)"

lemma below_need: "4096 * k < unat amount \<longleftrightarrow> k < need_pages amount"
  by (auto simp: need_pages_def)

lemma scan_step_free:
  assumes inv: "scan_inv s lo need (unat i) k r" and "k < need" "\<not> is_set_pmm s i"
    and i: "Suc (unat i) < 2 ^ 52"
  shows "scan_inv s lo need (Suc (unat i)) (Suc k) (scan_step s i r)"
proof -
  have k: "k \<le> unat i" using inv by (simp add: scan_inv_def)
  have "unat (rlength r + PAGE_SIZE) = 4096 * k + 4096"
    using inv i k by (simp add: scan_inv_def PAGE_SIZE_def unat_word_ariths)
  moreover have "unat (i * PAGE_SIZE) = 4096 * unat i"
    using i by (simp add: PAGE_SIZE_def unat_word_ariths)
  moreover have "rlength r = 0 \<longleftrightarrow> k = 0"
    using inv by (auto simp: scan_inv_def unat_eq_zero)
  moreover have "free_run s (unat i - k) (Suc k)"
    using inv assms(3) k by (simp add: scan_inv_def free_run_Suc)
  ultimately show ?thesis
    using inv assms(2,3) by (auto simp: scan_inv_def scan_step_def)
qed

lemma scan_step_set:
  assumes inv: "scan_inv s lo need (unat i) k r" and k: "k < need" and set: "is_set_pmm s i"
  shows "scan_inv s lo need (Suc (unat i)) 0 (scan_step s i r)"
proof -
  have "\<not> free_run s p need" if "lo \<le> p" "p < Suc (unat i)" for p
  proof (cases "p < unat i - k")
    case True
    then show ?thesis using inv that by (simp add: scan_inv_def)
  next
    case False
    then have "p \<le> unat i \<and> unat i < p + need" using that k by auto
    then show ?thesis using set by (auto simp: free_run_iff intro!: exI [of _ "unat i"])
  qed
  then show ?thesis using inv set by (auto simp: scan_inv_def scan_step_def free_run_def)
qed

lemma scan_loop_inv:
  assumes "scan_inv s lo (need_pages amount) (unat i) k r" "unat (bitmap_size s) < 2 ^ 52"
  shows "\<exists>i' k'. scan_inv s lo (need_pages amount) i' k' (scan_loop s amount i r) \<and>
    (i' \<le> unat (bitmap_size s) \<or> i' = unat i) \<and> 
    (unat (bitmap_size s) \<le> i' \<or> k' = need_pages amount)"
  using assms
proof (induction s amount i r arbitrary: k rule: scan_loop.induct)
  case (1 s amount i r)
  show ?case
  proof (cases "i < bitmap_size s \<and> rlength r < amount")
    case True
    have i: "Suc (unat i) < 2 ^ 52" "unat (i + 1) = Suc (unat i)" "Suc (unat i) \<le> unat (bitmap_size s)"
      using True 1(3) unat_Suc_less [of i "bitmap_size s"] by (auto simp: word_less_nat_alt)
    have "k < need_pages amount"
      using True 1(2) by (simp add: scan_inv_def word_less_nat_alt below_need)
    then have "\<exists>k. scan_inv s lo (need_pages amount) (unat (i + 1)) k (scan_step s i r)"
      using scan_step_free [OF 1(2)] scan_step_set [OF 1(2)] i by metis
    then obtain k' where "scan_inv s lo (need_pages amount) (unat (i + 1)) k' (scan_step s i r)" ..
    from 1(1) [OF True this 1(3)] i show ?thesis
      using True by (auto simp: scan_loop.simps [of s amount i r])
  next
    case False
    then have "unat (bitmap_size s) \<le> unat i \<or> k = need_pages amount"
      using 1(2) below_need [of k amount] by (auto simp: scan_inv_def word_less_nat_alt)
    with False 1(2) show ?thesis by (auto simp: scan_loop.simps [of s amount i r])
  qed
qed

lemma scan_loop_first_fit:
  assumes "unat (bitmap_size s) < 2 ^ 52" "amount \<noteq> 0"
  defines "r \<equiv> scan_loop s amount (last_page s) empty_range"
  shows "case first_fit s (unat (last_page s)) (need_pages amount) of
      Some p \<Rightarrow> r = pages_range p (need_pages amount) \<and> amount \<le> rlength r
    | None \<Rightarrow> rlength r < amount"
proof -
  let ?need = "need_pages amount" and ?lo = "unat (last_page s)" and ?B = "unat (bitmap_size s)"
  have need: "0 < ?need" using assms(2) by (simp add: need_pages_def div_greater_zero_iff unat_gt_0 Suc_le_eq)
  have "scan_inv s ?lo ?need ?lo 0 empty_range"
    by (simp add: scan_inv_def empty_range_def free_run_def)
  from scan_loop_inv [OF this assms(1)] obtain i k where
    inv: "scan_inv s ?lo ?need i k r" and i: "i \<le> ?B \<or> i = ?lo" and ik: "?B \<le> i \<or> k = ?need"
    by (auto simp: r_def)
  show ?thesis
  proof (cases "k = ?need")
    case True
    have "first_fit s ?lo ?need = Some (i - k)"
      unfolding first_fit_def using inv True i need
      by (intro find_upt_Some) (auto simp: scan_inv_def)
    moreover have "unat (rbase r) = 4096 * (i - k)" "unat (rlength r) = 4096 * k"
      using inv True need by (auto simp: scan_inv_def)
    then have "r = pages_range (i - k) ?need"
      using True by (simp add: pages_range_eqI)
    moreover have "amount \<le> rlength r"
      using inv True below_need [of k amount] by (simp add: scan_inv_def word_le_nat_alt not_less)
    ultimately show ?thesis by simp
  next
    case False
    then have k: "k < ?need" "?B \<le> i" using inv ik by (auto simp: scan_inv_def)
    have "\<not> free_run s p ?need" if "?lo \<le> p" "p + ?need \<le> ?B" for p
      using inv that k by (auto simp: scan_inv_def)
    then have "first_fit s ?lo ?need = None" by (auto simp: first_fit_def find_None_iff)
    moreover have "rlength r < amount"
      using k inv below_need [of k amount] by (simp add: scan_inv_def word_less_nat_alt)
    ultimately show ?thesis by simp
  qed
qed

lemma pages_range_fields:
  assumes "p + k < 2 ^ 52"
  shows "rbase (pages_range p k) div PAGE_SIZE = of_nat p"
    "rlength (pages_range p k) div PAGE_SIZE = of_nat k"
    "(rbase (pages_range p k) + rlength (pages_range p k)) div PAGE_SIZE = of_nat (p + k)"
proof -
  have *: "(of_nat (4096 * n) :: u64) div PAGE_SIZE = of_nat n" if "n < 2 ^ 52" for n
  proof -
    have "unat (of_nat (4096 * n) :: u64) = 4096 * n" "unat (of_nat n :: u64) = n"
      using that by (simp_all add: unat_of_nat_less del: of_nat_mult)
    then show ?thesis by (metis PAGE_SIZE_def nonzero_mult_div_cancel_left unat_div_page
          word_unat_eq_iff zero_neq_numeral)
  qed
  show "rbase (pages_range p k) div PAGE_SIZE = of_nat p"
    "rlength (pages_range p k) div PAGE_SIZE = of_nat k"
    "(rbase (pages_range p k) + rlength (pages_range p k)) div PAGE_SIZE = of_nat (p + k)"
    using assms *[of p] *[of k] *[of "p + k"] by (simp_all add: pages_range_def distrib_left)
qed

lemma in_pages_range:
  assumes "p + k < 2 ^ 52"
  shows "in_pages (pages_range p k) j \<longleftrightarrow> p \<le> unat j \<and> unat j < p + k"
proof -
  have p: "unat (of_nat p :: u64) = p" and k: "unat (of_nat k :: u64) = k"
    using assms by (simp_all add: unat_of_nat_less)
  show ?thesis
    unfolding in_pages_def pages_range_fields [OF assms]
    using unat_less_bound [of j] assms
    by (simp add: word_less_nat_alt unat_sub_if' p k) linarith
qed

section \<open>What an allocation does\<close>

lemma find_pages_fit:
  assumes "unat (bitmap_size s) < 2 ^ 52" "amount \<noteq> 0"
    and fit: "first_fit s (unat (last_page s)) (need_pages amount) = Some p"
  shows "pmm_find_pages amount s =
    Some (pages_range p (need_pages amount),
          pmm_range_used (pages_range p (need_pages amount))
            (s\<lparr>last_page := of_nat (p + need_pages amount)\<rparr>))"
proof -
  let ?r = "scan_loop s amount (last_page s) empty_range"
  have r: "?r = pages_range p (need_pages amount)" "amount \<le> rlength ?r"
    using scan_loop_first_fit [OF assms(1,2)] fit by auto
  have "p + need_pages amount < 2 ^ 52" using first_fit_SomeD [OF fit] assms(1) by linarith
  from r pages_range_fields(3) [OF this] show ?thesis
    by (subst pmm_find_pages.simps) (simp only: Let_def if_True)
qed

lemma find_pages_never:
  assumes "rlength (scan_loop s amount (last_page s) empty_range) < amount" "last_page s \<noteq> 0"
  shows "pmm_find_pages amount s = None"
proof -
  have "rlength (scan_loop s amount (last_page s) empty_range) \<ge> amount \<or> last_page s = 0"
    if "pmm_find_pages amount s = Some y" for y
    by (rule pmm_find_pages.raw_induct
          [where P = "\<lambda>amount s y. rlength (scan_loop s amount (last_page s) empty_range) \<ge> amount \<or>
             last_page s = 0", OF _ that])
      (auto simp: Let_def split: if_splits)
  with assms show ?thesis by (cases "pmm_find_pages amount s") auto
qed

lemma find_pages_no_fit:
  assumes "unat (bitmap_size s) < 2 ^ 52" "amount \<noteq> 0"
    and none: "first_fit s (unat (last_page s)) (need_pages amount) = None"
  shows "pmm_find_pages amount s = (if last_page s = 0 then Some (empty_range, s) else None)"
proof -
  have less: "rlength (scan_loop s amount (last_page s) empty_range) < amount"
    using scan_loop_first_fit [OF assms(1,2)] none by auto
  show ?thesis
  proof (cases "last_page s = 0")
    case True
    with less show ?thesis by (subst pmm_find_pages.simps) (simp add: Let_def)
  next
    case False
    with find_pages_never [OF less] show ?thesis by simp
  qed
qed

lemma first_fit_lock [simp]: "first_fit (s\<lparr>pmm_lock := l\<rparr>) lo need = first_fit s lo need"
  by (simp add: first_fit_def free_run_def)

lemma bitmap_op_lock:
  "bitmap_used i (s\<lparr>pmm_lock := l\<rparr>) = (bitmap_used i s)\<lparr>pmm_lock := l\<rparr>"
  "bitmap_unused i (s\<lparr>pmm_lock := l\<rparr>) = (bitmap_unused i s)\<lparr>pmm_lock := l\<rparr>"
  by (cases s; simp add: bitmap_used_def bitmap_unused_def)+

lemma used_loop_lock: "used_loop t i n (s\<lparr>pmm_lock := l\<rparr>) = (used_loop t i n s)\<lparr>pmm_lock := l\<rparr>"
proof (induction t i n s rule: used_loop.induct)
  case (1 t i n s)
  then show ?case
    by (simp add: used_loop.simps [of t i n s] used_loop.simps [of t i n "s\<lparr>pmm_lock := l\<rparr>"]
        bitmap_op_lock)
qed

lemma unused_loop_lock: "unused_loop t i n (s\<lparr>pmm_lock := l\<rparr>) = (unused_loop t i n s)\<lparr>pmm_lock := l\<rparr>"
proof (induction t i n s rule: unused_loop.induct)
  case (1 t i n s)
  then show ?case
    by (simp add: unused_loop.simps [of t i n s] unused_loop.simps [of t i n "s\<lparr>pmm_lock := l\<rparr>"]
        bitmap_op_lock)
qed

lemma relock: "pmm_lock s = 0 \<Longrightarrow> s\<lparr>pmm_lock := 1, pmm_lock := 0\<rparr> = s"
  by (cases s) simp

lemma range_used_unlock:
  "pmm_lock s = 0 \<Longrightarrow> (pmm_range_used r (s\<lparr>pmm_lock := 1\<rparr>))\<lparr>pmm_lock := 0\<rparr> = pmm_range_used r s"
  by (simp only: pmm_range_used_def flip: used_loop_lock) (simp only: relock)

lemma range_unused_unlock:
  "pmm_lock s = 0 \<Longrightarrow> (pmm_range_unused r (s\<lparr>pmm_lock := 1\<rparr>))\<lparr>pmm_lock := 0\<rparr> = pmm_range_unused r s"
  by (simp only: pmm_range_unused_def flip: unused_loop_lock) (simp only: relock)

text \<open>Allocation from an unlocked allocator, as one equation over the first-fit search.\<close>

lemma pmm_alloc_eq:
  assumes "unat (bitmap_size s) < 2 ^ 52" "amount \<noteq> 0" "pmm_lock s = 0" "usable_pages s \<noteq> 0"
  shows "pmm_alloc amount s =
    (case first_fit s (unat (last_page s)) (need_pages amount) of
       Some p \<Rightarrow>
         Done (pages_range p (need_pages amount),
               pmm_range_used (pages_range p (need_pages amount))
                 (s\<lparr>last_page := of_nat (p + need_pages amount)\<rparr>))
     | None \<Rightarrow> if last_page s = 0 then Done (empty_range, s) else Hang)"
proof -
  let ?s = "s\<lparr>pmm_lock := 1\<rparr>"
  have unlock: "(pmm_range_used r (?s\<lparr>last_page := l\<rparr>))\<lparr>pmm_lock := 0\<rparr> =
      pmm_range_used r (s\<lparr>last_page := l\<rparr>)" for r l
  proof -
    have "?s\<lparr>last_page := l\<rparr> = s\<lparr>last_page := l, pmm_lock := 1\<rparr>" by (cases s) simp
    moreover have "pmm_lock (s\<lparr>last_page := l\<rparr>) = 0" using assms(3) by simp
    ultimately show ?thesis by (simp only: range_used_unlock)
  qed
  have s: "unat (bitmap_size ?s) < 2 ^ 52" "usable_pages s > 0"
    using assms(1,4) by (simp_all add: word_gt_0)
  show ?thesis
  proof (cases "first_fit s (unat (last_page s)) (need_pages amount)")
    case None
    then show ?thesis
      using find_pages_no_fit [OF s(1) assms(2)] s(2) assms(3)
      by (simp add: pmm_alloc_def Let_def arch_release_def)
  next
    case (Some p)
    then show ?thesis
      using find_pages_fit [OF s(1) assms(2), of p] s(2) assms(3) unlock
      by (simp add: pmm_alloc_def Let_def arch_release_def)
  qed
qed

lemma pmm_free_eq:
  assumes "pmm_lock s = 0"
  shows "pmm_free r s = Done (pmm_range_unused r s)"
proof -
  show ?thesis using assms range_unused_unlock [OF assms] by (simp add: pmm_free_def Let_def arch_release_def)
qed

section \<open>The contract of a page allocator\<close>

text \<open>
  What the rest of the kernel relies on (\<^verbatim>\<open>vmm.c\<close>, \<^verbatim>\<open>compat.c\<close>, \<^verbatim>\<open>arch.c\<close>): \<open>used s j\<close> says
  that page \<open>j\<close> is in use, \<open>ok\<close> is the allocator's invariant. An allocation that returns a
  range of length 0 has failed.
\<close>

locale page_allocator =
  fixes alloc :: "u64 \<Rightarrow> 's \<Rightarrow> (range_t \<times> 's) outcome"
    and free :: "range_t \<Rightarrow> 's \<Rightarrow> 's outcome"
    and used :: "'s \<Rightarrow> u64 \<Rightarrow> bool"
    and ok :: "'s \<Rightarrow> bool"
  assumes alloc_ok: "ok s \<Longrightarrow> n \<noteq> 0 \<Longrightarrow> alloc n s = Done (r, s') \<Longrightarrow> ok s'"
    and alloc_size: "ok s \<Longrightarrow> n \<noteq> 0 \<Longrightarrow> alloc n s = Done (r, s') \<Longrightarrow> rlength r \<noteq> 0 \<Longrightarrow>
      n \<le> rlength r"
    and alloc_aligned: "ok s \<Longrightarrow> n \<noteq> 0 \<Longrightarrow> alloc n s = Done (r, s') \<Longrightarrow>
      push_bit 12 (drop_bit 12 (rbase r)) = rbase r"
    and alloc_fresh: "ok s \<Longrightarrow> n \<noteq> 0 \<Longrightarrow> alloc n s = Done (r, s') \<Longrightarrow> in_pages r j \<Longrightarrow> \<not> used s j"
    and alloc_used: "ok s \<Longrightarrow> n \<noteq> 0 \<Longrightarrow> alloc n s = Done (r, s') \<Longrightarrow>
      used s' j \<longleftrightarrow> used s j \<or> in_pages r j"
    and free_ok: "ok s \<Longrightarrow> \<exists>s'. free r s = Done s' \<and> ok s'"
    and free_used: "ok s \<Longrightarrow> free r s = Done s' \<Longrightarrow> used s' j \<longleftrightarrow> used s j \<and> \<not> in_pages r j"

text \<open>A sequence of requests, each on the state the one before left.\<close>

fun alloc_many ::
  "(u64 \<Rightarrow> 's \<Rightarrow> (range_t \<times> 's) outcome) \<Rightarrow> u64 list \<Rightarrow> 's \<Rightarrow> (range_t list \<times> 's) outcome" where
  "alloc_many alloc [] s = Done ([], s)"
| "alloc_many alloc (n # ns) s =
     bind_o (alloc n s) (\<lambda>(r, s'). bind_o (alloc_many alloc ns s') (\<lambda>(rs, s''). Done (r # rs, s'')))"

definition disjoint_pages :: "range_t \<Rightarrow> range_t \<Rightarrow> bool" where
  "disjoint_pages r r' \<longleftrightarrow> (\<forall>j. \<not> (in_pages r j \<and> in_pages r' j))"

context page_allocator
begin

lemma alloc_many_used:
  "ok s \<Longrightarrow> 0 \<notin> set ns \<Longrightarrow> alloc_many alloc ns s = Done (rs, s') \<Longrightarrow>
   ok s' \<and> (\<forall>j. used s' j \<longleftrightarrow> used s j \<or> (\<exists>r\<in>set rs. in_pages r j)) \<and>
   (\<forall>r\<in>set rs. \<forall>j. in_pages r j \<longrightarrow> \<not> used s j)"
proof (induction ns arbitrary: s rs)
  case Nil
  then show ?case by simp
next
  case (Cons n ns)
  then obtain r s1 rs' where a: "alloc n s = Done (r, s1)" "alloc_many alloc ns s1 = Done (rs', s')"
    and rs: "rs = r # rs'" by auto
  from Cons.prems have n: "n \<noteq> 0" "0 \<notin> set ns" by auto
  with Cons.IH [OF alloc_ok [OF _ _ a(1)] _ a(2)] Cons.prems(1) a(1) rs show ?case
    by (auto simp: alloc_used [OF Cons.prems(1) n(1) a(1)] dest: alloc_fresh [OF Cons.prems(1) n(1) a(1)])
qed

lemma alloc_many_disjoint:
  "ok s \<Longrightarrow> 0 \<notin> set ns \<Longrightarrow> alloc_many alloc ns s = Done (rs, s') \<Longrightarrow>
   sorted_wrt disjoint_pages rs"
proof (induction ns arbitrary: s rs)
  case Nil
  then show ?case by simp
next
  case (Cons n ns)
  then obtain r s1 rs' where a: "alloc n s = Done (r, s1)" "alloc_many alloc ns s1 = Done (rs', s')"
    and rs: "rs = r # rs'" by auto
  from Cons.prems have n: "n \<noteq> 0" "0 \<notin> set ns" by auto
  have ok: "ok s1" using alloc_ok [OF Cons.prems(1) n(1) a(1)] .
  have "disjoint_pages r r'" if "r' \<in> set rs'" for r'
    using alloc_many_used [OF ok n(2) a(2)] alloc_used [OF Cons.prems(1) n(1) a(1)] that
    by (auto simp: disjoint_pages_def)
  with Cons.IH [OF ok n(2) a(2)] rs show ?case by simp
qed

lemma alloc_free_restores:
  assumes "ok s" "n \<noteq> 0" "alloc n s = Done (r, s')"
  shows "\<exists>s''. free r s' = Done s'' \<and> ok s'' \<and> (\<forall>j. used s'' j \<longleftrightarrow> used s j)"
proof -
  have ok: "ok s'" using alloc_ok [OF assms] .
  obtain s'' where "free r s' = Done s''" "ok s''" using free_ok [OF ok] by blast
  with free_used [OF ok] alloc_used [OF assms] alloc_fresh [OF assms] show ?thesis by blast
qed

end

definition pmm_ok :: "pmm \<Rightarrow> bool" where
  "pmm_ok s \<longleftrightarrow> unat (bitmap_size s) < 2 ^ 52 \<and> pmm_lock s = 0"

lemma in_pages_empty [simp]: "\<not> in_pages empty_range j"
  by (simp add: in_pages_def empty_range_def PAGE_SIZE_def)

lemma pmm_alloc_zero: "pmm_lock s = 0 \<Longrightarrow> usable_pages s = 0 \<Longrightarrow> pmm_alloc n s = Fault Assert_failed"
  by (simp add: pmm_alloc_def Let_def)

lemma pmm_alloc_DoneE:
  assumes "pmm_ok s" "n \<noteq> 0" "pmm_alloc n s = Done (r, s')"
  obtains (failed) "r = empty_range" "s' = s" "last_page s = 0"
      "first_fit s (unat (last_page s)) (need_pages n) = None"
  | (found) p where "first_fit s (unat (last_page s)) (need_pages n) = Some p"
      "r = pages_range p (need_pages n)" "p + need_pages n \<le> unat (bitmap_size s)"
      "free_run s p (need_pages n)"
      "s' = pmm_range_used r (s\<lparr>last_page := of_nat (p + need_pages n)\<rparr>)"
proof -
  have s: "unat (bitmap_size s) < 2 ^ 52" "pmm_lock s = 0" using assms(1) by (simp_all add: pmm_ok_def)
  have "usable_pages s \<noteq> 0" using pmm_alloc_zero [OF s(2)] assms(3) by force
  from pmm_alloc_eq [OF s(1) assms(2) s(2) this] assms(3) show thesis
    using found failed first_fit_SomeD [of s "unat (last_page s)" "need_pages n"]
    by (auto split: option.splits if_splits)
qed

lemma free_run_in_pages:
  assumes "free_run s p k" "p + k < 2 ^ 52" "in_pages (pages_range p k) j"
  shows "\<not> is_set_pmm s j"
  using assms(1,3) by (auto simp: in_pages_range [OF assms(2)] free_run_iff dest: spec [of _ "unat j"])

lemma need_le: "amount \<noteq> 0 \<Longrightarrow> unat amount \<le> 4096 * need_pages amount"
  by (simp add: need_pages_def)

lemma pages_range_length:
  "p + k < 2 ^ 52 \<Longrightarrow> unat (rlength (pages_range p k)) = 4096 * k"
  by (simp add: pages_range_def unat_of_nat_less del: of_nat_mult)

lemma pages_range_aligned: "push_bit 12 (drop_bit 12 (rbase (pages_range p k))) = rbase (pages_range p k)"
proof -
  have "(of_nat (4096 * p) :: u64) = push_bit 12 (of_nat p)" by (simp add: push_bit_eq_mult)
  then show ?thesis by (auto simp: pages_range_def bit_simps intro!: bit_word_eqI simp del: of_nat_mult)
qed

interpretation pmm_pages: page_allocator pmm_alloc pmm_free is_set_pmm pmm_ok
proof unfold_locales
  fix s n r s' j
  assume ok: "pmm_ok s" and n: "n \<noteq> 0" and a: "pmm_alloc n s = Done (r, s')"
  show "pmm_ok s'"
    using ok by (rule_tac pmm_alloc_DoneE [OF ok n a]) (simp_all add: pmm_ok_def)
  show "is_set_pmm s' j \<longleftrightarrow> is_set_pmm s j \<or> in_pages r j"
    by (rule pmm_alloc_DoneE [OF ok n a]) simp_all
  show "n \<le> rlength r" if "rlength r \<noteq> 0"
    using ok need_le [OF n] that
    by (rule_tac pmm_alloc_DoneE [OF ok n a])
      (simp_all add: pages_range_length word_le_nat_alt empty_range_def pmm_ok_def)
  show "push_bit 12 (drop_bit 12 (rbase r)) = rbase r"
    by (rule pmm_alloc_DoneE [OF ok n a]) (simp_all add: empty_range_def pages_range_aligned)
  show "\<not> is_set_pmm s j" if "in_pages r j"
    using ok that
    by (rule_tac pmm_alloc_DoneE [OF ok n a]) (auto simp: pmm_ok_def dest!: free_run_in_pages)
next
  fix s r s' j
  assume ok: "pmm_ok s"
  show "\<exists>s'. pmm_free r s = Done s' \<and> pmm_ok s'"
    using ok pmm_free_eq [of s r] by (simp add: pmm_ok_def)
  show "is_set_pmm s' j \<longleftrightarrow> is_set_pmm s j \<and> \<not> in_pages r j" if "pmm_free r s = Done s'"
    using ok pmm_free_eq [of s r] that by (auto simp: pmm_ok_def)
qed

section \<open>The count of usable pages\<close>

text \<open>The pages the bitmap has a bit for, and how many of them are free.\<close>

definition free_pages :: "pmm \<Rightarrow> nat list" where
  "free_pages s = filter (\<lambda>j. \<not> is_set_pmm s (of_nat j)) [0..<8 * unat (bitmap_size s)]"

definition count_ok :: "pmm \<Rightarrow> bool" where
  "count_ok s \<longleftrightarrow> usable_pages s = of_nat (length (free_pages s))"

lemma free_pages_card:
  "length (free_pages s) = card {j. j < 8 * unat (bitmap_size s) \<and> \<not> is_set_pmm s (of_nat j)}"
  unfolding free_pages_def
  by (subst distinct_card [symmetric]) (auto intro: arg_cong [where f = card])

lemma page_of_nat: "j < 2 ^ 55 \<Longrightarrow> unat (of_nat j :: u64) = j"
  by (simp add: unat_of_nat_less)

lemma free_pages_split:
  assumes "unat (bitmap_size s) < 2 ^ 52" "bitmap_size s' = bitmap_size s"
    and "p + k \<le> 8 * unat (bitmap_size s)" "p + k < 2 ^ 52"
    and set: "\<And>j. is_set_pmm s' j \<longleftrightarrow> is_set_pmm s j \<or> in_pages (pages_range p k) j"
    and free: "\<And>j. in_pages (pages_range p k) j \<Longrightarrow> \<not> is_set_pmm s j"
  shows "length (free_pages s) = length (free_pages s') + k"
proof -
  let ?B = "8 * unat (bitmap_size s)"
  have in_iff: "in_pages (pages_range p k) (of_nat j) \<longleftrightarrow> p \<le> j \<and> j < p + k" if "j < ?B" for j
    using that assms(1) by (simp add: in_pages_range [OF assms(4)] page_of_nat)
  have "{j. j < ?B \<and> \<not> is_set_pmm s (of_nat j)} =
      {j. j < ?B \<and> \<not> is_set_pmm s' (of_nat j)} \<union> {p..<p + k}"
    using assms(3) free in_iff by (auto simp: set)
  moreover have "{j. j < ?B \<and> \<not> is_set_pmm s' (of_nat j)} \<inter> {p..<p + k} = {}"
    using in_iff by (auto simp: set)
  ultimately show ?thesis
    unfolding free_pages_card assms(2) by (simp add: card_Un_disjoint)
qed

lemma alloc_count:
  assumes "pmm_ok s" "count_ok s" "n \<noteq> 0" "pmm_alloc n s = Done (r, s')"
  shows "count_ok s'"
proof (cases rule: pmm_alloc_DoneE [OF assms(1,3,4)])
  case 1
  then show ?thesis using assms(2) by simp
next
  case (2 p)
  let ?k = "need_pages n"
  have b: "unat (bitmap_size s) < 2 ^ 52" "p + ?k < 2 ^ 52"
    using assms(1) 2(3) by (simp_all add: pmm_ok_def)
  have "length (free_pages s) = length (free_pages s') + ?k"
    using 2 b free_run_in_pages [OF 2(4) b(2)]
    by (intro free_pages_split [of s s' p ?k]) auto
  moreover have "usable_pages s' = usable_pages s - of_nat ?k"
    using 2(2,5) pages_range_fields(2) [OF b(2)] by simp
  ultimately show ?thesis using assms(2) by (simp add: count_ok_def)
qed

lemma free_count:
  assumes "pmm_ok s" "count_ok s" "p + k \<le> 8 * unat (bitmap_size s)" "p + k < 2 ^ 52"
    and "\<And>j. in_pages (pages_range p k) j \<Longrightarrow> is_set_pmm s j"
    and "pmm_free (pages_range p k) s = Done s'"
  shows "count_ok s'"
proof -
  have s': "s' = pmm_range_unused (pages_range p k) s"
    using assms(1,6) pmm_free_eq [of s "pages_range p k"] by (simp add: pmm_ok_def)
  have "length (free_pages s') = length (free_pages s) + k"
    using assms(1,3,4,5) unfolding pmm_ok_def
    by (intro free_pages_split [of s' s p k]) (auto simp: s')
  moreover have "usable_pages s' = usable_pages s + of_nat k"
    using s' pages_range_fields(2) [OF assms(4)] by simp
  ultimately show ?thesis using assms(2) by (simp add: count_ok_def)
qed

section \<open>Progress\<close>

text \<open>The free pages the search can still reach, and what it takes for \<open>k\<close> one-page requests.\<close>

definition reachable_free :: "pmm \<Rightarrow> nat list" where
  "reachable_free s =
     filter (\<lambda>j. \<not> is_set_pmm s (of_nat j)) [unat (last_page s)..<unat (bitmap_size s)]"

definition enough :: "nat \<Rightarrow> pmm \<Rightarrow> bool" where
  "enough k s \<longleftrightarrow> pmm_ok s \<and> k \<le> length (reachable_free s) \<and>
     length (reachable_free s) \<le> unat (usable_pages s)"

lemma need_one: "need_pages PAGE_SIZE = 1"
  by (simp add: need_pages_def PAGE_SIZE_def)

lemma find_filter: "find P xs = (case filter P xs of [] \<Rightarrow> None | x # _ \<Rightarrow> Some x)"
  by (induction xs) auto

lemma filter_upt_Cons:
  assumes "filter P [lo..<n] = p # ps"
  shows "lo \<le> p" "p < n" "P p" "filter P [Suc p..<n] = ps"
proof -
  have "lo \<le> p \<and> p < n \<and> P p \<and> filter P [Suc p..<n] = ps"
    using assms
  proof (induction "n - lo" arbitrary: lo)
    case 0
    then show ?case by simp
  next
    case (Suc d)
    then have "[lo..<n] = lo # [Suc lo..<n]" by (simp add: upt_conv_Cons)
    moreover have "d = n - Suc lo" "lo < n" using Suc.hyps(2) by simp_all
    ultimately show ?case
      using Suc.prems Suc.hyps(1) [of "Suc lo"] by (cases "P lo") auto
  qed
  then show "lo \<le> p" "p < n" "P p" "filter P [Suc p..<n] = ps" by blast+
qed

lemma alloc_progress:
  assumes "enough (Suc k) s"
  shows "\<exists>r s'. pmm_alloc PAGE_SIZE s = Done (r, s') \<and> rlength r > 0 \<and> enough k s'"
proof -
  let ?lo = "unat (last_page s)" and ?B = "unat (bitmap_size s)"
  have ok: "?B < 2 ^ 52" "pmm_lock s = 0" using assms by (simp_all add: enough_def pmm_ok_def)
  obtain p ps where ps: "reachable_free s = p # ps"
    using assms by (cases "reachable_free s") (auto simp: enough_def)
  note fl = filter_upt_Cons [OF ps [unfolded reachable_free_def]]
  have "first_fit s ?lo 1 = Some p"
    using ps by (simp add: first_fit_def find_filter free_run_def reachable_free_def)
  moreover have "usable_pages s \<noteq> 0" using assms ps by (auto simp: enough_def)
  moreover have "PAGE_SIZE \<noteq> 0" by (simp add: PAGE_SIZE_def)
  ultimately have a: "pmm_alloc PAGE_SIZE s = Done (pages_range p 1,
      pmm_range_used (pages_range p 1) (s\<lparr>last_page := of_nat (p + 1)\<rparr>))" (is "_ = Done (_, ?s')")
    using pmm_alloc_eq [OF ok(1) _ ok(2), of PAGE_SIZE] need_one by simp
  have b: "p + 1 < 2 ^ 52" using fl(2) ok(1) by simp
  have "reachable_free ?s' = ps"
  proof -
    have "unat (of_nat (p + 1) :: u64) = Suc p" using b by (simp add: unat_of_nat_less del: of_nat_add of_nat_Suc)
    moreover have "is_set_pmm ?s' (of_nat j) = is_set_pmm s (of_nat j)" if "Suc p \<le> j" "j < ?B" for j
    proof -
      have "unat (of_nat j :: u64) = j" using that ok(1) by (simp add: unat_of_nat_less)
      then have "\<not> in_pages (pages_range p 1) (of_nat j)" using that in_pages_range [OF b] by simp
      then show ?thesis by simp
    qed
    then have "filter (\<lambda>j. \<not> is_set_pmm ?s' (of_nat j)) [Suc p..<?B] =
        filter (\<lambda>j. \<not> is_set_pmm s (of_nat j)) [Suc p..<?B]"
      by (intro filter_cong) auto
    ultimately show ?thesis using fl(4) by (simp add: reachable_free_def del: of_nat_add of_nat_Suc)
  qed
  moreover have "unat (usable_pages ?s') = unat (usable_pages s) - 1"
    using assms ps pages_range_fields(2) [OF b] by (simp add: enough_def unat_sub word_le_nat_alt)
  ultimately have "enough k ?s'"
    using assms ps by (auto simp: enough_def pmm_ok_def)
  moreover have "rlength (pages_range p 1) > 0"
    by (simp add: pages_range_def)
  ultimately show ?thesis using a by blast
qed

section \<open>Initialisation\<close>

definition entry_range :: "mmap_entry \<Rightarrow> range_t" where
  "entry_range e =
     \<lparr>rbase = ALIGN_DOWN (rbase (mm_range e)) PAGE_SIZE,
      rlength = ALIGN_UP (rlength (mm_range e)) PAGE_SIZE\<rparr>"

definition entry_pages :: "mmap_entry list \<Rightarrow> u64" where
  "entry_pages es = sum_list (map (\<lambda>e. rlength (entry_range e) div PAGE_SIZE) (filter is_free es))"

lemma unused_entries_spec:
  "(is_set_pmm (unused_entries es s) j \<longleftrightarrow>
     is_set_pmm s j \<and> \<not> (\<exists>e\<in>set es. is_free e \<and> in_pages (entry_range e) j)) \<and>
   usable_pages (unused_entries es s) = usable_pages s + entry_pages es \<and>
   bitmap (unused_entries es s) = bitmap s \<and>
   bitmap_size (unused_entries es s) = bitmap_size s \<and>
   pmm_lock (unused_entries es s) = pmm_lock s \<and>
   last_page (unused_entries es s) = last_page s"
  by (induction es arbitrary: s) (auto simp: entry_range_def entry_pages_def)

lemma bit_ff: "n < 8 \<Longrightarrow> bit (0xff :: u8) n"
proof -
  assume "n < 8"
  have "(0xff :: u8) = mask 8" by (simp add: mask_eq_exp_minus_1)
  then show ?thesis using \<open>n < 8\<close> by (simp only: bit_mask_iff) simp
qed

lemma is_set_memset:
  assumes "j < 8 * unat b" "j < 2 ^ 64"
  shows "is_set_pmm (s\<lparr>bm := (\<lambda>i. if i < b then 0xff else bm s i)\<rparr>) (of_nat j)"
proof -
  have "unat (of_nat j :: u64) = j" using assms(2) by (simp add: unat_of_nat_less)
  then have "(of_nat j :: u64) div 8 < b" using assms(1) by (simp add: word_less_nat_alt unat_div)
  then show ?thesis using bit_ff [OF page_bit_less] by (simp add: is_set_bit)
qed

lemma pmm_init_DoneE:
  assumes "pmm_init h s = Done (h', s')"
  obtains b ptr mmap where "memory_map_size h \<noteq> 0"
    "b = range_end (mm_range (last (ho_mmap h))) div (PAGE_SIZE * 8)"
    "place_bitmap b (bitmap s) (ho_mmap h) = (ptr, mmap)" "ptr \<noteq> 0"
    "h' = h\<lparr>ho_mmap := mmap\<rparr>"
    "s' = pmm_range_used \<lparr>rbase = mmap_io_to_phys ptr, rlength = b\<rparr>
       (unused_entries mmap (s\<lparr>bitmap := ptr, bitmap_size := b,
          bm := (\<lambda>i. if i < b then 0xff else bm s i)\<rparr>))"
  using assms
  by (auto simp: pmm_init_def Let_def unused_entries_spec cong: if_cong split: if_splits prod.splits)

section \<open>Properties\<close>

text \<open>
  C3: an allocation from an unlocked allocator with usable pages does exactly first fit from
  the page after the last allocation: it returns the first run of free pages that holds the
  request, marks it used and remembers its end; when there is no such run it returns the
  empty range if the search started at page 0, and otherwise never returns.
\<close>

theorem pmm_alloc_first_fit:
  assumes "unat (bitmap_size s) < 2 ^ 52" "amount \<noteq> 0" "pmm_lock s = 0" "usable_pages s \<noteq> 0"
  shows "pmm_alloc amount s =
    (case first_fit s (unat (last_page s)) (need_pages amount) of
       Some p \<Rightarrow>
         Done (pages_range p (need_pages amount),
               pmm_range_used (pages_range p (need_pages amount))
                 (s\<lparr>last_page := of_nat (p + need_pages amount)\<rparr>))
     | None \<Rightarrow> if last_page s = 0 then Done (empty_range, s) else Hang)"
  using assms by (rule pmm_alloc_eq)

text \<open>An allocator over 4 pages with its search starting at page \<open>l\<close>, all bytes \<open>b\<close>.\<close>

definition small_pmm :: "u8 \<Rightarrow> u64 \<Rightarrow> pmm" where
  "small_pmm b l = \<lparr>bitmap = 0xffff800000001000, bm = (\<lambda>_. b), bitmap_size = 4,
     usable_pages = 32, last_page = l, pmm_lock = 0\<rparr>"

lemma small_pmm_fit:
  "first_fit (small_pmm 2 0) 0 2 = Some 2" "first_fit (small_pmm 2 3) 3 2 = None"
  "need_pages 5000 = 2"
  by code_simp+

theorem pmm_alloc_first_fit_witness:
  "pmm_alloc 5000 (small_pmm 2 0) =
     Done (\<lparr>rbase = 8192, rlength = 8192\<rparr>,
           pmm_range_used \<lparr>rbase = 8192, rlength = 8192\<rparr> ((small_pmm 2 0)\<lparr>last_page := 4\<rparr>)) \<and>
   pmm_alloc 5000 (small_pmm 2 3) = Hang"
  using pmm_alloc_first_fit [of "small_pmm 2 0" 5000] pmm_alloc_first_fit [of "small_pmm 2 3" 5000]
    small_pmm_fit
  by (simp add: small_pmm_def pages_range_def)

text \<open>
  C4: the ranges that a sequence of allocations returns have no page in common, none of their
  pages was in use before, and afterwards exactly their pages are in use in addition.
\<close>

theorem pmm_alloc_many_disjoint:
  assumes "pmm_ok s" "0 \<notin> set amounts" "alloc_many pmm_alloc amounts s = Done (rs, s')"
  shows "sorted_wrt disjoint_pages rs \<and>
    (\<forall>r\<in>set rs. \<forall>j. in_pages r j \<longrightarrow> \<not> is_set_pmm s j) \<and>
    (\<forall>j. is_set_pmm s' j \<longleftrightarrow> is_set_pmm s j \<or> (\<exists>r\<in>set rs. in_pages r j))"
  using pmm_pages.alloc_many_disjoint [OF assms] pmm_pages.alloc_many_used [OF assms] by blast

lemma small_pmm_two:
  "alloc_many pmm_alloc [4096, 4096] (small_pmm 0 0) =
     Done ([pages_range 0 1, pages_range 1 1],
       pmm_range_used (pages_range 1 1)
         ((pmm_range_used (pages_range 0 1) ((small_pmm 0 0)\<lparr>last_page := 1\<rparr>))\<lparr>last_page := 2\<rparr>))"
proof -
  let ?s = "pmm_range_used (pages_range 0 1) ((small_pmm 0 0)\<lparr>last_page := 1\<rparr>)"
  have n: "need_pages 4096 = 1" by code_simp
  have "first_fit (small_pmm 0 0) 0 1 = Some 0" by code_simp
  then have 1: "pmm_alloc 4096 (small_pmm 0 0) = Done (pages_range 0 1, ?s)"
    using pmm_alloc_eq [of "small_pmm 0 0" 4096] by (simp add: small_pmm_def n)
  have "first_fit ?s 1 1 = Some 1" by code_simp
  then have 2: "pmm_alloc 4096 ?s = Done (pages_range 1 1, pmm_range_used (pages_range 1 1) (?s\<lparr>last_page := 2\<rparr>))"
    using pmm_alloc_eq [of ?s 4096] pages_range_fields(2) [of 0 1] by (simp add: small_pmm_def n)
  from 1 2 show ?thesis by simp
qed

theorem pmm_alloc_many_disjoint_witness:
  "disjoint_pages (pages_range 0 1) (pages_range 1 1)"
  using pmm_alloc_many_disjoint [OF _ _ small_pmm_two] by (simp add: pmm_ok_def small_pmm_def)

text \<open>
  C30: releasing what an allocation has returned gives back exactly the pages it took: every
  page is in use again as it was before, the counter is restored and the lock is free.
\<close>

theorem pmm_alloc_free_roundtrip:
  assumes "pmm_ok s" "amount \<noteq> 0" "pmm_alloc amount s = Done (r, s')"
  shows "\<exists>s''. pmm_free r s' = Done s'' \<and> (\<forall>j. is_set_pmm s'' j \<longleftrightarrow> is_set_pmm s j) \<and>
    get_usable_pages s'' = get_usable_pages s \<and> pmm_lock s'' = 0"
proof -
  obtain s'' where s'': "pmm_free r s' = Done s''" "pmm_ok s''"
    "\<forall>j. is_set_pmm s'' j \<longleftrightarrow> is_set_pmm s j"
    using pmm_pages.alloc_free_restores [OF assms] by blast
  have "pmm_lock s' = 0" using pmm_pages.alloc_ok [OF assms] by (simp add: pmm_ok_def)
  then have "s'' = pmm_range_unused r s'" using s''(1) pmm_free_eq by simp
  then have "usable_pages s'' = usable_pages s"
    by (cases rule: pmm_alloc_DoneE [OF assms]) (simp_all add: empty_range_def PAGE_SIZE_def)
  with s'' show ?thesis by (auto simp: get_usable_pages_def pmm_ok_def)
qed

theorem pmm_alloc_free_roundtrip_witness:
  "\<exists>s''. pmm_free (pages_range 2 2)
      (pmm_range_used (pages_range 2 2) ((small_pmm 2 0)\<lparr>last_page := 4\<rparr>)) = Done s'' \<and>
    get_usable_pages s'' = 32"
proof -
  have "pmm_alloc 5000 (small_pmm 2 0) =
      Done (pages_range 2 2, pmm_range_used (pages_range 2 2) ((small_pmm 2 0)\<lparr>last_page := 4\<rparr>))"
    using pmm_alloc_eq [of "small_pmm 2 0" 5000] small_pmm_fit by (simp add: small_pmm_def)
  from pmm_alloc_free_roundtrip [OF _ _ this] show ?thesis
    by (auto simp: pmm_ok_def small_pmm_def get_usable_pages_def)
qed



text \<open>
  C36: after \<^verbatim>\<open>pmm_init\<close> a page the bitmap covers is free exactly when a free entry of the
  memory map (from which the bitmap's own place has been cut) contains it and it is not one of
  the pages counted for the bitmap; the counter has been raised by the pages of the free
  entries and lowered by the bitmap's pages, although these were never counted in.
\<close>

theorem pmm_init_pages:
  assumes "pmm_init h s = Done (h', s')" "j < 8 * unat (bitmap_size s')" "j < 2 ^ 64"
  shows "(\<not> is_set_pmm s' (of_nat j) \<longleftrightarrow>
      (\<exists>e\<in>set (ho_mmap h'). is_free e \<and> in_pages (entry_range e) (of_nat j)) \<and>
      \<not> in_pages \<lparr>rbase = mmap_io_to_phys (bitmap s'), rlength = bitmap_size s'\<rparr> (of_nat j)) \<and>
    usable_pages s' =
      usable_pages s + entry_pages (ho_mmap h') - bitmap_size s' div PAGE_SIZE \<and>
    bitmap_size s' = range_end (mm_range (last (ho_mmap h))) div (PAGE_SIZE * 8)"
  using assms(1)
proof (rule pmm_init_DoneE)
  fix b ptr mmap
  let ?m = "s\<lparr>bitmap := ptr, bitmap_size := b, bm := (\<lambda>i. if i < b then 0xff else bm s i)\<rparr>"
  assume b: "b = range_end (mm_range (last (ho_mmap h))) div (PAGE_SIZE * 8)"
    and h': "h' = h\<lparr>ho_mmap := mmap\<rparr>"
    and s': "s' = pmm_range_used \<lparr>rbase = mmap_io_to_phys ptr, rlength = b\<rparr> (unused_entries mmap ?m)"
  have f: "bitmap_size s' = b" "bitmap s' = ptr" by (simp_all add: s' unused_entries_spec)
  have "is_set_pmm ?m (of_nat j)"
    using is_set_memset [of j b "s\<lparr>bitmap := ptr, bitmap_size := b\<rparr>"] assms(2,3) f
    by (simp cong: if_cong)
  then show ?thesis
    using unused_entries_spec [of mmap ?m] by (auto simp: f h' b [symmetric]) (auto simp: s')
qed

text \<open>One free entry of 1 MiB at 0x100000: the bitmap takes 64 bytes, cut off as one page.\<close>

definition one_entry :: handover where
  "one_entry = empty_handover\<lparr>ho_mmap :=
     [\<lparr>mm_range = \<lparr>rbase = 0x100000, rlength = 0x100000\<rparr>, mm_type = 1, is_free = True\<rparr>]\<rparr>"

theorem pmm_init_pages_witness:
  "\<exists>h' s'. pmm_init one_entry ((small_pmm 0 0)\<lparr>bitmap := 0, usable_pages := 0\<rparr>) = Done (h', s') \<and>
     \<not> is_set_pmm s' 0x101 \<and> is_set_pmm s' 0x100 \<and> usable_pages s' = 255"
proof -
  let ?s = "(small_pmm 0 0)\<lparr>bitmap := 0, usable_pages := 0\<rparr>"
  let ?cut = "[\<lparr>mm_range = \<lparr>rbase = 0x101000, rlength = 0xff000\<rparr>, mm_type = 1, is_free = True\<rparr>]"
  have "\<exists>s'. pmm_init one_entry ?s = Done (one_entry\<lparr>ho_mmap := ?cut\<rparr>, s') \<and>
      bitmap s' = 0xffff800000100000 \<and> bitmap_size s' = 64"
    by (simp add: pmm_init_def one_entry_def Let_def small_pmm_def memory_map_size_def range_end_def
        PAGE_SIZE_def ALIGN_UP_def mmap_phys_to_io_def MMAP_IO_BASE_def unused_entries_spec)
  then obtain s' where i: "pmm_init one_entry ?s = Done (one_entry\<lparr>ho_mmap := ?cut\<rparr>, s')"
    and s': "bitmap s' = 0xffff800000100000" "bitmap_size s' = 64" by blast
  have "\<not> is_set_pmm s' 0x101" "is_set_pmm s' 0x100" "usable_pages s' = 255"
    using pmm_init_pages [where j = "0x101", OF i] pmm_init_pages [where j = "0x100", OF i] s'
    by (simp_all add: in_pages_def entry_range_def entry_pages_def ALIGN_UP_def ALIGN_DOWN_def
        PAGE_SIZE_def mmap_io_to_phys_def MMAP_IO_BASE_def small_pmm_def)
  with i show ?thesis by blast
qed

end
