(* ===== verification/Navy_Vmm.thy ===== *)
theory Navy_Vmm
  imports Navy_Pmm "HOL-Library.Sublist"
begin

text \<open>
  The virtual memory manager, \<^verbatim>\<open>arch/x86_64/vmm.c\<close> and \<^verbatim>\<open>vmm.h\<close>: four-level page tables.
  A \<^verbatim>\<open>struct pml\<close> is one page, so \<open>tables s p\<close> is the table at the pointer \<open>p\<close> (an address
  in the window of \<^verbatim>\<open>mmap_phys_to_io\<close>), a 64-bit entry for every index. The entries are kept
  raw; the bit fields of \<^verbatim>\<open>struct pml_entry\<close> are read and built with shifts and masks.
  \<open>invlpg\<close> and \<open>cr3\<close> record what the two assembly helpers are called with.
\<close>

section \<open>Entries and indices\<close>

definition PMLX_GET_INDEX :: "u64 \<Rightarrow> nat \<Rightarrow> u64" where
  "PMLX_GET_INDEX addr level =
     drop_bit (12 + level * 9) (addr AND push_bit (12 + level * 9) 0x1ff)"

definition PML4_GET_INDEX :: "u64 \<Rightarrow> u64" where
  "PML4_GET_INDEX addr = PMLX_GET_INDEX addr 3"

definition PML3_GET_INDEX :: "u64 \<Rightarrow> u64" where
  "PML3_GET_INDEX addr = PMLX_GET_INDEX addr 2"

definition PML2_GET_INDEX :: "u64 \<Rightarrow> u64" where
  "PML2_GET_INDEX addr = PMLX_GET_INDEX addr 1"

definition PML1_GET_INDEX :: "u64 \<Rightarrow> u64" where
  "PML1_GET_INDEX addr = PMLX_GET_INDEX addr 0"

definition present :: "u64 \<Rightarrow> bool" where
  "present raw \<longleftrightarrow> bit raw 0"

definition physical :: "u64 \<Rightarrow> u64" where
  "physical raw = drop_bit 12 raw"

text \<open>Bit 0 is \<^verbatim>\<open>present\<close>, bit 1 \<^verbatim>\<open>read_write\<close>, bit 2 \<^verbatim>\<open>user\<close>; the frame starts at bit 12.\<close>

definition pml_make_entry :: "u64 \<Rightarrow> bool \<Rightarrow> u64" where
  "pml_make_entry phys is_user =
     push_bit 12 (drop_bit 12 phys) OR (if is_user then 7 else 3)"

section \<open>State\<close>

record vmm =
  tables :: "u64 \<Rightarrow> u64 \<Rightarrow> u64"
  kernel_pml4 :: u64
  vmm_lock :: u32
  vm_pmm :: pmm
  invlpg :: "u64 list"
  cr3 :: u64

definition set_entry :: "u64 \<Rightarrow> u64 \<Rightarrow> u64 \<Rightarrow> vmm \<Rightarrow> vmm" where
  "set_entry p index e s = s\<lparr>tables := (tables s)(p := (tables s p)(index := e))\<rparr>"

definition clear_table :: "u64 \<Rightarrow> vmm \<Rightarrow> vmm" where
  "clear_table p s = s\<lparr>tables := (tables s)(p := (\<lambda>_. 0))\<rparr>"

definition get_kernel_space :: "vmm \<Rightarrow> u64" where
  "get_kernel_space s = kernel_pml4 s"

definition vmm_kernel_space :: "vmm \<Rightarrow> u64" where
  "vmm_kernel_space s = kernel_pml4 s"

section \<open>Flushing\<close>

text \<open>The loop calls \<^verbatim>\<open>asm_invlpg\<close> once per page, always with the same address.\<close>

fun flush_loop :: "nat \<Rightarrow> range_t \<Rightarrow> vmm \<Rightarrow> vmm" where
  "flush_loop 0 virt_range s = s"
| "flush_loop (Suc n) virt_range s =
     flush_loop n virt_range
       (s\<lparr>invlpg := invlpg s @ [(rbase virt_range div PAGE_SIZE + 1) * PAGE_SIZE]\<rparr>)"

definition vmm_flush :: "range_t \<Rightarrow> vmm \<Rightarrow> vmm" where
  "vmm_flush virt_range s = flush_loop (unat (rlength virt_range div PAGE_SIZE)) virt_range s"

section \<open>Walking and extending the tables\<close>

definition call_pmm_alloc :: "u64 \<Rightarrow> vmm \<Rightarrow> (range_t \<times> vmm) outcome" where
  "call_pmm_alloc amount s =
     bind_o (pmm_alloc amount (vm_pmm s)) (\<lambda>(r, p). Done (r, s\<lparr>vm_pmm := p\<rparr>))"

definition vmm_get_pml_alloc :: "u64 \<Rightarrow> u64 \<Rightarrow> bool \<Rightarrow> vmm \<Rightarrow> (range_t \<times> vmm) outcome" where
  "vmm_get_pml_alloc pml index is_user s =
     (let entry = tables s pml index in
      if present entry
      then Done (\<lparr>rbase = mmap_phys_to_io (push_bit 12 (physical entry)), rlength = PAGE_SIZE\<rparr>, s)
      else
        bind_o (call_pmm_alloc PAGE_SIZE s) (\<lambda>(target_range, s).
        kassert (rlength target_range > 0) (
        let s = clear_table (mmap_phys_to_io (rbase target_range)) s;
            s = set_entry pml index (pml_make_entry (rbase target_range) is_user) s
        in Done (\<lparr>rbase = mmap_phys_to_io (rbase target_range), rlength = PAGE_SIZE\<rparr>, s))))"

definition vmm_get_pml :: "u64 \<Rightarrow> u64 \<Rightarrow> vmm \<Rightarrow> range_t" where
  "vmm_get_pml pml index s =
     (let entry = tables s pml index in
      if present entry
      then \<lparr>rbase = mmap_phys_to_io (push_bit 12 (physical entry)), rlength = PAGE_SIZE\<rparr>
      else \<lparr>rbase = 0, rlength = 0\<rparr>)"

section \<open>Mapping\<close>

definition vmm_map_page :: "u64 \<Rightarrow> u64 \<Rightarrow> u64 \<Rightarrow> bool \<Rightarrow> vmm \<Rightarrow> vmm outcome" where
  "vmm_map_page pml virt phys is_user s =
     bind_o (vmm_get_pml_alloc pml (PML4_GET_INDEX virt) True s) (\<lambda>(pml3_range, s).
     bind_o (vmm_get_pml_alloc (rbase pml3_range) (PML3_GET_INDEX virt) True s) (\<lambda>(pml2_range, s).
     bind_o (vmm_get_pml_alloc (rbase pml2_range) (PML2_GET_INDEX virt) True s) (\<lambda>(pml1_range, s).
     Done (set_entry (rbase pml1_range) (PML1_GET_INDEX virt) (pml_make_entry phys is_user) s))))"

function map_loop :: "u64 \<Rightarrow> u64 \<Rightarrow> u64 \<Rightarrow> bool \<Rightarrow> u64 \<Rightarrow> u64 \<Rightarrow> vmm \<Rightarrow> vmm outcome" where
  "map_loop pml vbase pbase is_user i n s =
     (if i < n
      then bind_o
             (vmm_map_page pml (i * PAGE_SIZE + ALIGN_DOWN vbase PAGE_SIZE)
                (i * PAGE_SIZE + ALIGN_DOWN pbase PAGE_SIZE) is_user s)
             (map_loop pml vbase pbase is_user (i + 1) n)
      else Done s)"
  by auto
termination
  by (relation "measure (\<lambda>(pml, vbase, pbase, u, i, n, s). unat n - unat i)")
    (auto simp: word_less_nat_alt unat_Suc_less)

declare map_loop.simps [simp del]

definition with_lock :: "vmm \<Rightarrow> (vmm \<Rightarrow> vmm outcome) \<Rightarrow> vmm outcome" where
  "with_lock s f =
     bind_o (arch_acquire (vmm_lock s)) (\<lambda>l.
     bind_o (f (s\<lparr>vmm_lock := l\<rparr>)) (\<lambda>s.
     Done (s\<lparr>vmm_lock := arch_release (vmm_lock s)\<rparr>)))"

definition vmm_map_range :: "u64 \<Rightarrow> range_t \<Rightarrow> range_t \<Rightarrow> bool \<Rightarrow> vmm \<Rightarrow> vmm outcome" where
  "vmm_map_range pml virt phys is_user s =
     kassert (rlength phys = rlength virt) (
     bind_o
       (with_lock s (map_loop pml (rbase virt) (rbase phys) is_user 0 (rlength virt div PAGE_SIZE)))
       (\<lambda>s. Done (vmm_flush virt s)))"

definition vmm_switch_space :: "u64 \<Rightarrow> vmm \<Rightarrow> vmm" where
  "vmm_switch_space pml s = s\<lparr>cr3 := mmap_io_to_phys pml\<rparr>"

section \<open>Unmapping\<close>

definition vmm_unmap_page :: "u64 \<Rightarrow> u64 \<Rightarrow> vmm \<Rightarrow> vmm outcome" where
  "vmm_unmap_page ctx vaddr s =
     (let pml3_range = vmm_get_pml ctx (PML4_GET_INDEX vaddr) s in
      kassert (rlength pml3_range \<noteq> 0) (
      let pml2_range = vmm_get_pml (rbase pml3_range) (PML3_GET_INDEX vaddr) s in
      kassert (rlength pml2_range \<noteq> 0) (
      let pml1_range = vmm_get_pml (rbase pml2_range) (PML2_GET_INDEX vaddr) s in
      kassert (rlength pml1_range \<noteq> 0) (
      Done (set_entry (rbase pml1_range) (PML1_GET_INDEX vaddr) 0 s)))))"

function unmap_loop :: "u64 \<Rightarrow> u64 \<Rightarrow> u64 \<Rightarrow> u64 \<Rightarrow> vmm \<Rightarrow> vmm outcome" where
  "unmap_loop ctx vbase i n s =
     (if i < n
      then bind_o (vmm_unmap_page ctx (i * PAGE_SIZE + (vbase AND NOT (PAGE_SIZE - 1))) s)
             (unmap_loop ctx vbase (i + 1) n)
      else Done s)"
  by auto
termination
  by (relation "measure (\<lambda>(ctx, vbase, i, n, s). unat n - unat i)")
    (auto simp: word_less_nat_alt unat_Suc_less)

declare unmap_loop.simps [simp del]

definition vmm_unmap :: "u64 \<Rightarrow> range_t \<Rightarrow> vmm \<Rightarrow> vmm outcome" where
  "vmm_unmap ctx virtual_range s =
     with_lock s (unmap_loop ctx (rbase virtual_range) 0 (rlength virtual_range div PAGE_SIZE))"

section \<open>Address spaces\<close>

function copy_entries :: "u64 \<Rightarrow> u64 \<Rightarrow> vmm \<Rightarrow> vmm" where
  "copy_entries pml_table i s =
     (if i < 512
      then copy_entries pml_table (i + 1) (set_entry pml_table i (tables s (kernel_pml4 s) i) s)
      else s)"
  by auto
termination
  by (relation "measure (\<lambda>(t, i, s). 512 - unat i)")
    (auto simp: word_less_nat_alt unat_Suc_less [where n = 512])

declare copy_entries.simps [simp del]

definition vmm_space_create :: "vmm \<Rightarrow> (u64 \<times> vmm) outcome" where
  "vmm_space_create s =
     bind_o (arch_acquire (vmm_lock s)) (\<lambda>l.
     bind_o (call_pmm_alloc PAGE_SIZE (s\<lparr>vmm_lock := l\<rparr>)) (\<lambda>(phys, s).
     kassert (rlength phys > 0) (
     let pml_table = mmap_phys_to_io (rbase phys);
         s = copy_entries pml_table 255 (clear_table pml_table s)
     in Done (pml_table, s\<lparr>vmm_lock := arch_release (vmm_lock s)\<rparr>))))"

definition vmm_space_destroy :: "u64 \<Rightarrow> vmm \<Rightarrow> vmm outcome" where
  "vmm_space_destroy space s =
     (let s = clear_table space s in
      bind_o (pmm_free \<lparr>rbase = mmap_io_to_phys space, rlength = PAGE_SIZE\<rparr> (vm_pmm s))
        (\<lambda>p. Done (s\<lparr>vm_pmm := p\<rparr>)))"

section \<open>Initialisation\<close>

definition map_mmap_entry :: "mmap_entry \<Rightarrow> vmm \<Rightarrow> vmm outcome" where
  "map_mmap_entry e s =
     (let base = ALIGN_DOWN (rbase (mm_range e)) PAGE_SIZE;
          len = ALIGN_UP (rlength (mm_range e)) PAGE_SIZE + PAGE_SIZE;
          phys = \<lparr>rbase = base, rlength = len\<rparr>
      in bind_o
           (if mm_type e = STIVALE2_MMAP_KERNEL_AND_MODULES
            then vmm_map_range (kernel_pml4 s) \<lparr>rbase = mmap_phys_to_kernel base, rlength = len\<rparr> phys False s
            else Done s)
           (\<lambda>s. vmm_map_range (kernel_pml4 s) \<lparr>rbase = mmap_phys_to_io base, rlength = len\<rparr> phys False s))"

fun map_mmap_entries :: "mmap_entry list \<Rightarrow> vmm \<Rightarrow> vmm outcome" where
  "map_mmap_entries [] s = Done s"
| "map_mmap_entries (e # es) s = bind_o (map_mmap_entry e s) (map_mmap_entries es)"

definition vmm_init :: "handover \<Rightarrow> vmm \<Rightarrow> vmm outcome" where
  "vmm_init h s =
     bind_o (call_pmm_alloc PAGE_SIZE s) (\<lambda>(kernel_range, s).
     kassert (rlength kernel_range > 0) (
     let s = s\<lparr>kernel_pml4 := mmap_phys_to_io (rbase kernel_range)\<rparr>;
         s = clear_table (kernel_pml4 s) s
     in bind_o (vmm_map_range (kernel_pml4 s)
                  \<lparr>rbase = mmap_phys_to_io 0, rlength = 0xffffffff\<rparr>
                  \<lparr>rbase = 0, rlength = 0xffffffff\<rparr> False s) (\<lambda>s.
        bind_o (map_mmap_entries (ho_mmap h) s) (\<lambda>s.
        Done (vmm_switch_space (kernel_pml4 s) s)))))"

section \<open>Indices\<close>

lemma bit_index: "level \<le> 3 \<Longrightarrow> bit (PMLX_GET_INDEX a level) n \<longleftrightarrow> n < 9 \<and> bit a (12 + level * 9 + n)"
proof -
  assume l: "level \<le> 3"
  have "(0x1ff :: u64) = mask 9" by (simp add: mask_eq_exp_minus_1)
  then have "PMLX_GET_INDEX a level = drop_bit (12 + level * 9) (a AND push_bit (12 + level * 9) (mask 9))"
    by (simp only: PMLX_GET_INDEX_def)
  with l show ?thesis by (auto simp: bit_simps)
qed

lemma index_less: "level \<le> 3 \<Longrightarrow> PMLX_GET_INDEX a level < 512"
proof -
  assume "level \<le> 3"
  then have "PMLX_GET_INDEX a level = take_bit 9 (PMLX_GET_INDEX a level)"
    by (intro bit_word_eqI) (auto simp: bit_index bit_simps)
  also have "\<dots> < 512"
    using take_bit_nat_less_exp [of 9 "unat (PMLX_GET_INDEX a level)"]
    by (simp add: word_less_nat_alt unsigned_take_bit_eq)
  finally show ?thesis .
qed

text \<open>The 36-bit number of the virtual page of an address.\<close>

definition vpage :: "u64 \<Rightarrow> u64" where
  "vpage v = take_bit 36 (drop_bit 12 v)"

definition vpath :: "u64 \<Rightarrow> u64 list" where
  "vpath v = [PML4_GET_INDEX v, PML3_GET_INDEX v, PML2_GET_INDEX v]"

lemmas index_defs = PML4_GET_INDEX_def PML3_GET_INDEX_def PML2_GET_INDEX_def PML1_GET_INDEX_def

lemma index_inj:
  "vpath v = vpath w \<and> PML1_GET_INDEX v = PML1_GET_INDEX w \<longleftrightarrow> vpage v = vpage w"
proof
  assume eq: "vpath v = vpath w \<and> PML1_GET_INDEX v = PML1_GET_INDEX w"
  have lv: "PMLX_GET_INDEX v l = PMLX_GET_INDEX w l" if "l \<le> 3" for l
  proof -
    from that have "l = 0 \<or> l = 1 \<or> l = 2 \<or> l = 3" by auto
    with eq show ?thesis by (auto simp: vpath_def index_defs)
  qed
  show "vpage v = vpage w"
  proof (rule bit_word_eqI)
    fix n :: nat
    assume "n < LENGTH(64)"
    have "bit v (12 + n) = bit w (12 + n)" if "n < 36"
    proof -
      have l: "n div 9 \<le> 3" using that by auto
      have e: "12 + n div 9 * 9 + n mod 9 = 12 + n" by simp
      have "n mod 9 < 9" by simp
      then show ?thesis
        using bit_index [OF l, of v "n mod 9"] bit_index [OF l, of w "n mod 9"] lv [OF l]
        unfolding e by simp
    qed
    then show "bit (vpage v) n = bit (vpage w) n" by (auto simp: vpage_def bit_simps)
  qed
next
  assume "vpage v = vpage w"
  then have "bit (vpage v) n = bit (vpage w) n" for n by simp
  then have b: "n < 36 \<Longrightarrow> bit v (12 + n) = bit w (12 + n)" for n
    by (fastforce simp: vpage_def bit_simps)
  have "PMLX_GET_INDEX v l = PMLX_GET_INDEX w l" if "l \<le> 3" for l
    using that b [of "l * 9 + m" for m]
    by (intro bit_word_eqI) (auto simp: bit_index add.assoc)
  then show "vpath v = vpath w \<and> PML1_GET_INDEX v = PML1_GET_INDEX w"
    by (simp add: vpath_def index_defs)
qed

lemma present_make_entry [simp]: "present (pml_make_entry phys u)"
  by (simp add: present_def pml_make_entry_def bit_simps)

lemma physical_make_entry: "push_bit 12 (physical (pml_make_entry phys u)) = push_bit 12 (drop_bit 12 phys)"
proof -
  have "\<not> bit (if u then 7 else 3 :: u64) n" if "12 \<le> n" for n
  proof -
    have "(if u then 7 else 3 :: u64) = mask (if u then 3 else 2)" by (simp add: mask_eq_exp_minus_1)
    with that show ?thesis by (simp only: bit_mask_iff) simp
  qed
  then show ?thesis
    by (intro bit_word_eqI) (auto simp: pml_make_entry_def physical_def bit_simps simp del: if_split)
qed

section \<open>The table tree\<close>

definition next_table :: "u64 \<Rightarrow> u64 option" where
  "next_table e = (if present e then Some (mmap_phys_to_io (push_bit 12 (physical e))) else None)"

fun path_table :: "(u64 \<Rightarrow> u64 \<Rightarrow> u64) \<Rightarrow> u64 \<Rightarrow> u64 list \<Rightarrow> u64 option" where
  "path_table tb t [] = Some t"
| "path_table tb t (i # is) =
     (case next_table (tb t i) of None \<Rightarrow> None | Some t' \<Rightarrow> path_table tb t' is)"

text \<open>The entry the processor finds for an address: 0 (not present) when a table is missing.\<close>

definition lookup :: "(u64 \<Rightarrow> u64 \<Rightarrow> u64) \<Rightarrow> u64 \<Rightarrow> u64 \<Rightarrow> u64" where
  "lookup tb root v =
     (case path_table tb root (vpath v) of None \<Rightarrow> 0 | Some t \<Rightarrow> tb t (PML1_GET_INDEX v))"

definition valid_path :: "u64 list \<Rightarrow> bool" where
  "valid_path p \<longleftrightarrow> length p \<le> 3 \<and> (\<forall>i\<in>set p. i < 512)"

definition vm_tree :: "(u64 \<Rightarrow> u64 \<Rightarrow> u64) \<Rightarrow> u64 \<Rightarrow> bool" where
  "vm_tree tb root \<longleftrightarrow>
     (\<forall>p q t. valid_path p \<and> valid_path q \<and>
        path_table tb root p = Some t \<and> path_table tb root q = Some t \<longrightarrow> p = q)"

definition tables_used :: "pmm \<Rightarrow> (u64 \<Rightarrow> u64 \<Rightarrow> u64) \<Rightarrow> u64 \<Rightarrow> bool" where
  "tables_used pm tb root \<longleftrightarrow>
     (\<forall>p t. valid_path p \<and> path_table tb root p = Some t \<longrightarrow>
        is_set_pmm pm (mmap_io_to_phys t div PAGE_SIZE))"

definition vm_ok :: "vmm \<Rightarrow> u64 \<Rightarrow> bool" where
  "vm_ok s root \<longleftrightarrow>
     pmm_ok (vm_pmm s) \<and> vm_tree (tables s) root \<and> tables_used (vm_pmm s) (tables s) root"

lemma path_table_append:
  "path_table tb t (p @ q) = (case path_table tb t p of None \<Rightarrow> None | Some u \<Rightarrow> path_table tb u q)"
  by (induction p arbitrary: t) (auto split: option.splits)

lemma path_table_snoc:
  "path_table tb t (p @ [i]) = (case path_table tb t p of None \<Rightarrow> None | Some u \<Rightarrow> next_table (tb u i))"
  by (simp add: path_table_append split: option.splits)

lemma valid_vpath [simp]: "valid_path (vpath v)"
  by (simp add: valid_path_def vpath_def index_defs index_less)

lemma length_vpath [simp]: "length (vpath v) = 3"
  by (simp add: vpath_def)

lemma vm_treeD:
  "vm_tree tb root \<Longrightarrow> path_table tb root p = Some t \<Longrightarrow> path_table tb root q = Some t \<Longrightarrow>
   valid_path p \<Longrightarrow> valid_path q \<Longrightarrow> p = q"
  unfolding vm_tree_def by blast

lemma valid_path_snoc: "valid_path (p @ [i]) \<longleftrightarrow> length p \<le> 2 \<and> valid_path p \<and> i < 512"
  by (auto simp: valid_path_def)

text \<open>Hanging a fresh, empty table under a missing entry.\<close>

lemma path_table_attach:
  assumes tree: "vm_tree tb root" and P: "path_table tb root P = Some t" "valid_path (P @ [i])"
    and absent: "\<not> present (tb t i)"
    and fresh: "\<forall>q. valid_path q \<longrightarrow> path_table tb root q \<noteq> Some t'"
    and e: "next_table e = Some t'"
    and tb': "tb' = (tb(t' := (\<lambda>_. 0)))(t := (tb t)(i := e))"
  shows "valid_path q \<Longrightarrow> path_table tb' root q =
    (if q = P @ [i] then Some t' else if prefix (P @ [i]) q then None else path_table tb root q)"
proof (induction q rule: rev_induct)
  case Nil
  then show ?case by simp
next
  case (snoc j q)
  then have q: "valid_path q" "length q \<le> 2" by (simp_all add: valid_path_snoc)
  have "t \<noteq> t'" using fresh P by (auto simp: valid_path_snoc)
  then have zero: "next_table (tb' t' x) = None" for x
    by (simp add: tb' next_table_def present_def)
  show ?case
  proof (cases "prefix (P @ [i]) q")
    case True
    then have "path_table tb' root (q @ [j]) = None"
      using snoc.IH [OF q(1)] zero by (auto simp: path_table_snoc)
    with True show ?thesis by (auto simp: prefix_def)
  next
    case False
    have IH: "path_table tb' root q = path_table tb root q"
      using snoc.IH [OF q(1)] False by auto
    have pre: "prefix (P @ [i]) (q @ [j]) \<longleftrightarrow> q = P \<and> j = i"
      using False by auto
    show ?thesis
    proof (cases "path_table tb root q")
      case None
      then have "q \<noteq> P" using P by auto
      with None IH pre show ?thesis by (auto simp: path_table_snoc)
    next
      case (Some u)
      have "u \<noteq> t'" using fresh q(1) Some by auto
      moreover have "u = t \<longleftrightarrow> q = P"
        using vm_treeD [OF tree Some _ q(1), of P] P Some by (auto simp: valid_path_snoc)
      ultimately have "next_table (tb' u j) = (if q = P \<and> j = i then Some t' else next_table (tb u j))"
        using e by (auto simp: tb')
      with IH Some pre show ?thesis by (auto simp: path_table_snoc)
    qed
  qed
qed

lemma path_table_absent:
  assumes "path_table tb root P = Some t" "\<not> present (tb t i)" "prefix (P @ [i]) q"
  shows "path_table tb root q = None"
  using assms by (auto simp: prefix_def path_table_append next_table_def)

lemma lookup_attach:
  assumes tree: "vm_tree tb root" and P: "path_table tb root P = Some t" "valid_path (P @ [i])"
    and absent: "\<not> present (tb t i)"
    and fresh: "\<forall>q. valid_path q \<longrightarrow> path_table tb root q \<noteq> Some t'"
    and e: "next_table e = Some t'"
    and tb': "tb' = (tb(t' := (\<lambda>_. 0)))(t := (tb t)(i := e))"
  shows "lookup tb' root v = lookup tb root v"
proof (cases "prefix (P @ [i]) (vpath v)")
  case True
  have "t \<noteq> t'" using fresh P by (auto simp: valid_path_snoc)
  with True show ?thesis
    using path_table_attach [OF assms valid_vpath [of v]] path_table_absent [OF P(1) absent True]
    by (auto simp: lookup_def tb')
next
  case False
  then have eq: "path_table tb' root (vpath v) = path_table tb root (vpath v)"
    using path_table_attach [OF assms valid_vpath [of v]] by auto
  show ?thesis
  proof (cases "path_table tb root (vpath v)")
    case (Some u)
    have "u \<noteq> t'" using fresh valid_vpath [of v] Some by auto
    moreover have "vpath v \<noteq> P" using P(2) by (auto simp: valid_path_snoc)
    then have "u \<noteq> t"
      using vm_treeD [OF tree Some _ valid_vpath, of P] P by (auto simp: valid_path_snoc)
    ultimately show ?thesis using eq Some by (simp add: lookup_def tb')
  qed (use eq in \<open>simp add: lookup_def\<close>)
qed

text \<open>Writing an entry of a last-level table.\<close>

lemma path_table_leaf:
  assumes tree: "vm_tree tb root" and P: "path_table tb root P = Some t" "valid_path P" "length P = 3"
  shows "valid_path q \<Longrightarrow> path_table (tb(t := f)) root q = path_table tb root q"
proof (induction q rule: rev_induct)
  case Nil
  then show ?case by simp
next
  case (snoc j q)
  then have q: "valid_path q" "length q \<le> 2" by (simp_all add: valid_path_snoc)
  then have "path_table tb root q \<noteq> Some t"
    using vm_treeD [OF tree P(1) _ P(2), of q] P(3) by auto
  with snoc.IH [OF q(1)] show ?case by (auto simp: path_table_snoc split: option.splits)
qed

lemma lookup_leaf:
  assumes tree: "vm_tree tb root" and P: "path_table tb root (vpath v) = Some t"
  shows "lookup (tb(t := (tb t)(PML1_GET_INDEX v := e))) root w =
    (if vpage w = vpage v then e else lookup tb root w)"
proof -
  have "path_table (tb(t := (tb t)(PML1_GET_INDEX v := e))) root (vpath w) = path_table tb root (vpath w)"
    using path_table_leaf [OF tree P valid_vpath length_vpath valid_vpath] .
  moreover have "path_table tb root (vpath w) = Some t \<longleftrightarrow> vpath w = vpath v"
    using vm_treeD [OF tree P _ valid_vpath valid_vpath, of w] P by auto
  ultimately show ?thesis
    using P index_inj [of w v] by (auto simp: lookup_def split: option.splits)
qed

section \<open>One page\<close>

lemma vm_ok_pmm_only [simp]:
  "vm_ok (s\<lparr>vmm_lock := l\<rparr>) root = vm_ok s root"
  "vm_ok (s\<lparr>invlpg := a\<rparr>) root = vm_ok s root"
  by (simp_all add: vm_ok_def)

lemma fresh_table:
  assumes ok: "vm_ok s root" and a: "pmm_alloc PAGE_SIZE (vm_pmm s) = Done (r, pm)" "rlength r > 0"
  shows "next_table (pml_make_entry (rbase r) u) = Some (mmap_phys_to_io (rbase r))"
    "\<forall>q. valid_path q \<longrightarrow> path_table (tables s) root q \<noteq> Some (mmap_phys_to_io (rbase r))"
    "pmm_ok pm" "is_set_pmm pm (rbase r div PAGE_SIZE)"
    "is_set_pmm (vm_pmm s) j \<Longrightarrow> is_set_pmm pm j"
proof -
  have p: "pmm_ok (vm_pmm s)" "PAGE_SIZE \<noteq> 0" "rlength r \<noteq> 0"
    using ok a(2) by (auto simp: vm_ok_def PAGE_SIZE_def)
  note laws = pmm_pages.alloc_size [OF p(1,2) a(1) p(3)] pmm_pages.alloc_aligned [OF p(1,2) a(1)]
    pmm_pages.alloc_fresh [OF p(1,2) a(1)] pmm_pages.alloc_used [OF p(1,2) a(1)]
  have "1 \<le> unat (rlength r) div 4096"
    using laws(1) by (simp add: PAGE_SIZE_def word_le_nat_alt less_eq_div_iff_mult_less_eq)
  then have "in_pages r (rbase r div PAGE_SIZE)"
    by (simp add: in_pages_def PAGE_SIZE_def word_less_nat_alt unat_div_page)
  then have set: "is_set_pmm pm (rbase r div PAGE_SIZE)" "\<not> is_set_pmm (vm_pmm s) (rbase r div PAGE_SIZE)"
    using laws(3,4) by auto
  show "is_set_pmm pm (rbase r div PAGE_SIZE)" by (rule set)
  have "mmap_io_to_phys (mmap_phys_to_io (rbase r)) = rbase r"
    by (simp add: mmap_phys_to_io_def mmap_io_to_phys_def)
  with set(2) ok show "\<forall>q. valid_path q \<longrightarrow> path_table (tables s) root q \<noteq> Some (mmap_phys_to_io (rbase r))"
    by (metis vm_ok_def tables_used_def)
  show "next_table (pml_make_entry (rbase r) u) = Some (mmap_phys_to_io (rbase r))"
    using laws(2) by (simp add: next_table_def physical_make_entry)
  show "pmm_ok pm" using pmm_pages.alloc_ok [OF p(1,2) a(1)] .
  show "is_set_pmm (vm_pmm s) j \<Longrightarrow> is_set_pmm pm j" using laws(4) by simp
qed

lemma get_pml_alloc_spec:
  assumes ok: "vm_ok s root" and P: "path_table (tables s) root P = Some t" "valid_path (P @ [i])"
    and g: "vmm_get_pml_alloc t i u s = Done (r, s')"
  shows "vm_ok s' root" "path_table (tables s') root (P @ [i]) = Some (rbase r)"
    "lookup (tables s') root v = lookup (tables s) root v"
proof -
  have "vm_ok s' root \<and> path_table (tables s') root (P @ [i]) = Some (rbase r) \<and>
      lookup (tables s') root v = lookup (tables s) root v"
  proof (cases "present (tables s t i)")
    case True
    then show ?thesis
      using g ok P(1) by (auto simp: vmm_get_pml_alloc_def path_table_snoc next_table_def Let_def)
  next
    case False
    then obtain x pm where a: "pmm_alloc PAGE_SIZE (vm_pmm s) = Done (x, pm)" "rlength x > 0"
      and r: "rbase r = mmap_phys_to_io (rbase x)"
      and s': "s' = set_entry t i (pml_make_entry (rbase x) u)
        (clear_table (mmap_phys_to_io (rbase x)) (s\<lparr>vm_pmm := pm\<rparr>))"
      using g by (auto simp: vmm_get_pml_alloc_def call_pmm_alloc_def Let_def)
    note fresh = fresh_table [OF ok a]
    let ?t' = "mmap_phys_to_io (rbase x)" and ?e = "pml_make_entry (rbase x) u"
    have tree: "vm_tree (tables s) root" using ok by (simp add: vm_ok_def)
    have "t \<noteq> ?t'" using fresh(2) P by (auto simp: valid_path_snoc)
    then have tb': "tables s' = ((tables s)(?t' := (\<lambda>_. 0)))(t := (tables s t)(i := ?e))"
      by (simp add: s' set_entry_def clear_table_def)
    note path = path_table_attach [OF tree P False fresh(2) fresh(1) tb']
    have "vm_tree (tables s') root"
      using vm_treeD [OF tree] fresh(2)
      by (auto simp: vm_tree_def path split: if_splits)
    moreover have "tables_used pm (tables s') root"
      using ok fresh(4,5)
      by (auto simp: tables_used_def vm_ok_def path mmap_io_to_phys_def mmap_phys_to_io_def split: if_splits)
    ultimately have "vm_ok s' root"
      using fresh(3) by (simp add: vm_ok_def) (simp add: s' set_entry_def clear_table_def)
    with path [OF P(2)] lookup_attach [OF tree P False fresh(2) fresh(1) tb'] r show ?thesis by simp
  qed
  then show "vm_ok s' root" "path_table (tables s') root (P @ [i]) = Some (rbase r)"
    "lookup (tables s') root v = lookup (tables s) root v" by blast+
qed

lemma vm_ok_leaf:
  assumes ok: "vm_ok s root" and P: "path_table (tables s) root (vpath v) = Some t"
  shows "vm_ok (set_entry t (PML1_GET_INDEX v) e s) root"
    "lookup (tables (set_entry t (PML1_GET_INDEX v) e s)) root w =
      (if vpage w = vpage v then e else lookup (tables s) root w)"
proof -
  have tree: "vm_tree (tables s) root" using ok by (simp add: vm_ok_def)
  note path = path_table_leaf [OF tree P valid_vpath length_vpath]
  show "vm_ok (set_entry t (PML1_GET_INDEX v) e s) root"
    using ok by (auto simp: vm_ok_def vm_tree_def tables_used_def set_entry_def path)
  show "lookup (tables (set_entry t (PML1_GET_INDEX v) e s)) root w =
      (if vpage w = vpage v then e else lookup (tables s) root w)"
    using lookup_leaf [OF tree P] by (simp add: set_entry_def)
qed

lemma map_page_spec:
  assumes ok: "vm_ok s root" and m: "vmm_map_page root virt phys u s = Done s'"
  shows "vm_ok s' root"
    "lookup (tables s') root v =
      (if vpage v = vpage virt then pml_make_entry phys u else lookup (tables s) root v)"
    "path_table (tables s') root (vpath virt) \<noteq> None"
proof -
  from m obtain r3 s1 r2 s2 r1 s3 where
    g3: "vmm_get_pml_alloc root (PML4_GET_INDEX virt) True s = Done (r3, s1)" and
    g2: "vmm_get_pml_alloc (rbase r3) (PML3_GET_INDEX virt) True s1 = Done (r2, s2)" and
    g1: "vmm_get_pml_alloc (rbase r2) (PML2_GET_INDEX virt) True s2 = Done (r1, s3)" and
    s': "s' = set_entry (rbase r1) (PML1_GET_INDEX virt) (pml_make_entry phys u) s3"
    by (auto simp: vmm_map_page_def)
  let ?i4 = "PML4_GET_INDEX virt" and ?i3 = "PML3_GET_INDEX virt" and ?i2 = "PML2_GET_INDEX virt"
  have v: "valid_path ([] @ [?i4])" "valid_path ([?i4] @ [?i3])" "valid_path ([?i4, ?i3] @ [?i2])"
    using valid_vpath [of virt] by (auto simp: valid_path_def vpath_def)
  have p0: "path_table (tables s) root [] = Some root" by simp
  note 3 = get_pml_alloc_spec [OF ok p0 v(1) g3]
  have p3: "path_table (tables s1) root [?i4] = Some (rbase r3)" using 3(2) by simp
  note 2 = get_pml_alloc_spec [OF 3(1) p3 v(2) g2]
  have p2: "path_table (tables s2) root [?i4, ?i3] = Some (rbase r2)" using 2(2) by simp
  note 1 = get_pml_alloc_spec [OF 2(1) p2 v(3) g1]
  have p1: "path_table (tables s3) root (vpath virt) = Some (rbase r1)"
    using 1(2) by (simp add: vpath_def)
  note leaf = vm_ok_leaf [OF 1(1) p1]
  show "vm_ok s' root" using leaf(1) by (simp add: s')
  show "lookup (tables s') root v =
      (if vpage v = vpage virt then pml_make_entry phys u else lookup (tables s) root v)"
    using leaf(2) 1(3) 2(3) 3(3) by (simp add: s')
  have "vm_tree (tables s3) root" using 1(1) by (simp add: vm_ok_def)
  from path_table_leaf [OF this p1 valid_vpath length_vpath valid_vpath] p1
  show "path_table (tables s') root (vpath virt) \<noteq> None" by (simp add: s' set_entry_def)
qed

lemma unmap_page_spec:
  assumes ok: "vm_ok s root" and m: "vmm_unmap_page root virt s = Done s'"
  shows "vm_ok s' root"
    "lookup (tables s') root v = (if vpage v = vpage virt then 0 else lookup (tables s) root v)"
proof -
  from m obtain t where "path_table (tables s) root (vpath virt) = Some t"
    and s': "s' = set_entry t (PML1_GET_INDEX virt) 0 s"
    by (auto simp: vmm_unmap_page_def vmm_get_pml_def Let_def vpath_def next_table_def split: if_splits)
  from vm_ok_leaf [OF ok this(1)] show "vm_ok s' root"
    "lookup (tables s') root v = (if vpage v = vpage virt then 0 else lookup (tables s) root v)"
    by (simp_all add: s')
qed

section \<open>Page loops\<close>

text \<open>The address of page \<open>i\<close> of a range that starts in the page of \<open>base\<close>.\<close>

definition page_addr :: "u64 \<Rightarrow> u64 \<Rightarrow> u64" where
  "page_addr base i = i * PAGE_SIZE + ALIGN_DOWN base PAGE_SIZE"

lemma vpage_page_addr: "vpage (page_addr base i) = take_bit 36 (i + base div 4096)"
proof -
  have "page_addr base i = push_bit 12 (i + base div 4096)"
    unfolding page_addr_def ALIGN_DOWN_page by (simp add: PAGE_SIZE_def push_bit_eq_mult distrib_right)
  then show ?thesis
    by (auto simp: vpage_def bit_simps intro!: bit_word_eqI)
qed

lemma uint_less_36: "unat (i :: u64) < 2 ^ 36 \<Longrightarrow> uint i < 2 ^ 36"
proof -
  assume "unat i < 2 ^ 36"
  then have "int (unat i) < int (2 ^ 36)" by (simp only: of_nat_less_iff)
  then show ?thesis unfolding uint_nat [symmetric] of_nat_power of_nat_numeral .
qed

lemma take_36_offset_inj:
  assumes "take_bit 36 (i + c) = take_bit 36 (j + (c :: u64))" "unat i < 2 ^ 36" "unat j < 2 ^ 36"
  shows "i = j"
proof -
  have m: "uint (take_bit 36 (x + c)) = (uint x + uint c) mod 2 ^ 36" for x
    by (simp only: unsigned_take_bit_eq) (simp add: take_bit_eq_mod uint_word_ariths mod_mod_cancel)
  have "(uint i + uint c) mod 2 ^ 36 = (uint j + uint c) mod 2 ^ 36"
    using arg_cong [OF assms(1), of uint] by (simp only: m)
  then have "(uint i + uint c - uint c) mod 2 ^ 36 = (uint j + uint c - uint c) mod 2 ^ 36"
    by (rule mod_diff_cong [OF _ refl])
  then have "uint i mod 2 ^ 36 = uint j mod 2 ^ 36" unfolding add_diff_cancel_right' .
  with uint_less_36 [OF assms(2)] uint_less_36 [OF assms(3)] show ?thesis
    by (metis mod_pos_pos_trivial uint_ge_0 word_uint_eq_iff)
qed

text \<open>
  The contract of a loop that changes the entry of one page per iteration: \<^verbatim>\<open>vmm_map_range\<close>
  and \<^verbatim>\<open>vmm_unmap\<close> both are such loops.
\<close>

locale page_loop =
  fixes root :: u64 and base :: u64
    and step :: "u64 \<Rightarrow> vmm \<Rightarrow> vmm outcome"
    and entry :: "u64 \<Rightarrow> u64"
    and loop :: "u64 \<Rightarrow> u64 \<Rightarrow> vmm \<Rightarrow> vmm outcome"
  assumes loop_unfold: "loop i n s = (if i < n then bind_o (step i s) (loop (i + 1) n) else Done s)"
    and step_ok: "vm_ok s root \<Longrightarrow> step i s = Done s' \<Longrightarrow> vm_ok s' root"
    and step_lookup: "vm_ok s root \<Longrightarrow> step i s = Done s' \<Longrightarrow>
      lookup (tables s') root v =
        (if vpage v = vpage (page_addr base i) then entry i else lookup (tables s) root v)"

context page_loop
begin

lemma loop_end: "unat n - unat i = 0 \<Longrightarrow> loop i n s = Done s"
  using loop_unfold [of i n s] by (simp add: word_less_nat_alt)

lemma loop_ok: "vm_ok s root \<Longrightarrow> loop i n s = Done s' \<Longrightarrow> vm_ok s' root"
proof (induction "unat n - unat i" arbitrary: i s)
  case 0
  then show ?case using loop_end [of n i s] by simp
next
  case (Suc d)
  then have "i < n" by (simp add: word_less_nat_alt)
  with Suc.prems obtain s1 where "step i s = Done s1" "loop (i + 1) n s1 = Done s'"
    by (auto simp: loop_unfold [of i])
  moreover have "d = unat n - unat (i + 1)" using Suc.hyps(2) \<open>i < n\<close> by (simp add: unat_Suc_less)
  ultimately show ?case using Suc.hyps(1) Suc.prems(1) step_ok by blast
qed

lemma loop_other:
  "vm_ok s root \<Longrightarrow> loop i n s = Done s' \<Longrightarrow>
   (\<And>k. i \<le> k \<Longrightarrow> k < n \<Longrightarrow> vpage v \<noteq> vpage (page_addr base k)) \<Longrightarrow>
   lookup (tables s') root v = lookup (tables s) root v"
proof (induction "unat n - unat i" arbitrary: i s)
  case 0
  then show ?case using loop_end [of n i s] by simp
next
  case (Suc d)
  then have i: "i < n" by (simp add: word_less_nat_alt)
  with Suc.prems obtain s1 where s1: "step i s = Done s1" "loop (i + 1) n s1 = Done s'"
    by (auto simp: loop_unfold [of i])
  have d: "d = unat n - unat (i + 1)" using Suc.hyps(2) i by (simp add: unat_Suc_less)
  have "vpage v \<noteq> vpage (page_addr base k)" if "i + 1 \<le> k" "k < n" for k
    using Suc.prems(3) that word_between_Suc [OF i, of k] by blast
  from Suc.hyps(1) [OF d step_ok [OF Suc.prems(1) s1(1)] s1(2) this]
  show ?case using step_lookup [OF Suc.prems(1) s1(1)] Suc.prems(3) [of i] i by simp
qed

lemma loop_hit:
  "vm_ok s root \<Longrightarrow> loop i n s = Done s' \<Longrightarrow> unat n \<le> 2 ^ 36 \<Longrightarrow> i \<le> k \<Longrightarrow> k < n \<Longrightarrow>
   vpage v = vpage (page_addr base k) \<Longrightarrow> lookup (tables s') root v = entry k"
proof (induction "unat n - unat i" arbitrary: i s)
  case (Suc d)
  then have i: "i < n" by (simp add: word_less_nat_alt)
  with Suc.prems obtain s1 where s1: "step i s = Done s1" "loop (i + 1) n s1 = Done s'"
    by (auto simp: loop_unfold [of i])
  note ok = step_ok [OF Suc.prems(1) s1(1)]
  show ?case
  proof (cases "k = i")
    case True
    have "vpage v \<noteq> vpage (page_addr base j)" if "i + 1 \<le> j" "j < n" for j
    proof
      assume "vpage v = vpage (page_addr base j)"
      then have "take_bit 36 (k + base div 4096) = take_bit 36 (j + base div 4096)"
        using Suc.prems(6) by (simp add: vpage_page_addr)
      then have "k = j"
        using take_36_offset_inj [of k _ j] Suc.prems(3,5) that(2) by (simp add: word_less_nat_alt)
      with True that(1) i show False
        by (simp add: word_le_nat_alt unat_Suc_less)
    qed
    from loop_other [OF ok s1(2) this] step_lookup [OF Suc.prems(1) s1(1)] Suc.prems(6) True
    show ?thesis by simp
  next
    case False
    have d: "d = unat n - unat (i + 1)" using Suc.hyps(2) i by (simp add: unat_Suc_less)
    have "i + 1 \<le> k" using False Suc.prems(4,5) word_between_Suc [OF i, of k] by blast
    from Suc.hyps(1) [OF d ok s1(2) Suc.prems(3) this Suc.prems(5,6)] show ?thesis .
  qed
qed (auto simp: word_less_nat_alt word_le_nat_alt)

end

interpretation map_pages: page_loop root vbase
  "\<lambda>i. vmm_map_page root (page_addr vbase i) (page_addr pbase i) u"
  "\<lambda>i. pml_make_entry (page_addr pbase i) u" "map_loop root vbase pbase u"
  for root vbase pbase u
  by unfold_locales
    (simp_all add: map_loop.simps [of root vbase pbase u] page_addr_def map_page_spec)

interpretation unmap_pages: page_loop root vbase
  "\<lambda>i. vmm_unmap_page root (page_addr vbase i)" "\<lambda>_. 0" "unmap_loop root vbase"
  for root vbase
  by unfold_locales
    (simp_all add: unmap_loop.simps [of root vbase] page_addr_def ALIGN_DOWN_def unmap_page_spec)

section \<open>Ranges\<close>

lemma vmm_flush_fields [simp]:
  "tables (vmm_flush r s) = tables s" "vm_pmm (vmm_flush r s) = vm_pmm s"
  "vmm_lock (vmm_flush r s) = vmm_lock s" "vm_ok (vmm_flush r s) root = vm_ok s root"
    "kernel_pml4 (vmm_flush r s) = kernel_pml4 s"
proof -
  have "tables (flush_loop n r s) = tables s \<and> vm_pmm (flush_loop n r s) = vm_pmm s \<and>
      vmm_lock (flush_loop n r s) = vmm_lock s \<and> vm_ok (flush_loop n r s) root = vm_ok s root \<and>
      kernel_pml4 (flush_loop n r s) = kernel_pml4 s" for n
    by (induction n arbitrary: s) simp_all
  then show "tables (vmm_flush r s) = tables s" "vm_pmm (vmm_flush r s) = vm_pmm s"
    "vmm_lock (vmm_flush r s) = vmm_lock s" "vm_ok (vmm_flush r s) root = vm_ok s root"
    "kernel_pml4 (vmm_flush r s) = kernel_pml4 s"
    by (simp_all add: vmm_flush_def)
qed

lemma flush_one_address:
  "invlpg (vmm_flush r s) =
     invlpg s @ replicate (unat (rlength r div PAGE_SIZE)) ((rbase r div PAGE_SIZE + 1) * PAGE_SIZE)"
proof -
  have "invlpg (flush_loop n r s) = invlpg s @ replicate n ((rbase r div PAGE_SIZE + 1) * PAGE_SIZE)" for n
    by (induction n arbitrary: s) simp_all
  then show ?thesis by (simp add: vmm_flush_def)
qed

lemma with_lock_DoneE:
  assumes "with_lock s f = Done s'"
  obtains l s1 where "f (s\<lparr>vmm_lock := l\<rparr>) = Done s1" "s' = s1\<lparr>vmm_lock := 0\<rparr>"
  using assms by (auto simp: with_lock_def arch_release_def)

lemma map_range_DoneE:
  assumes "vmm_map_range root virt phys u s = Done s'"
  obtains l s1 where "rlength phys = rlength virt"
    "map_loop root (rbase virt) (rbase phys) u 0 (rlength virt div PAGE_SIZE) (s\<lparr>vmm_lock := l\<rparr>) = Done s1"
    "s' = vmm_flush virt (s1\<lparr>vmm_lock := 0\<rparr>)"
  using assms by (auto simp: vmm_map_range_def elim!: with_lock_DoneE)

lemma map_range_spec:
  assumes ok: "vm_ok s root" and m: "vmm_map_range root virt phys u s = Done s'"
    and n: "unat (rlength virt div PAGE_SIZE) \<le> 2 ^ 36"
  shows "vm_ok s' root" "vmm_lock s' = 0"
    "k < rlength virt div PAGE_SIZE \<Longrightarrow> vpage v = vpage (page_addr (rbase virt) k) \<Longrightarrow>
      lookup (tables s') root v = pml_make_entry (page_addr (rbase phys) k) u"
    "(\<And>k. k < rlength virt div PAGE_SIZE \<Longrightarrow> vpage v \<noteq> vpage (page_addr (rbase virt) k)) \<Longrightarrow>
      lookup (tables s') root v = lookup (tables s) root v"
proof -
  from m obtain l s1 where
    loop: "map_loop root (rbase virt) (rbase phys) u 0 (rlength virt div PAGE_SIZE) (s\<lparr>vmm_lock := l\<rparr>) = Done s1"
    and s': "s' = vmm_flush virt (s1\<lparr>vmm_lock := 0\<rparr>)" by (rule map_range_DoneE)
  have ok': "vm_ok (s\<lparr>vmm_lock := l\<rparr>) root" using ok by simp
  show "vm_ok s' root" "vmm_lock s' = 0" using map_pages.loop_ok [OF ok' loop] by (simp_all add: s')
  show "k < rlength virt div PAGE_SIZE \<Longrightarrow> vpage v = vpage (page_addr (rbase virt) k) \<Longrightarrow>
      lookup (tables s') root v = pml_make_entry (page_addr (rbase phys) k) u"
    using map_pages.loop_hit [OF ok' loop n] by (simp add: s')
  show "(\<And>k. k < rlength virt div PAGE_SIZE \<Longrightarrow> vpage v \<noteq> vpage (page_addr (rbase virt) k)) \<Longrightarrow>
      lookup (tables s') root v = lookup (tables s) root v"
    using map_pages.loop_other [OF ok' loop] by (simp add: s')
qed

lemma unmap_page_Done:
  assumes "lookup (tables s) root v \<noteq> 0"
  shows "\<exists>s'. vmm_unmap_page root v s = Done s'"
  using assms
  by (auto simp: lookup_def vpath_def next_table_def vmm_unmap_page_def vmm_get_pml_def Let_def
      PAGE_SIZE_def split: option.splits if_splits)

lemma unmap_loop_Done:
  assumes "vm_ok s root" "unat n \<le> 2 ^ 36"
    "\<And>k. i \<le> k \<Longrightarrow> k < n \<Longrightarrow> lookup (tables s) root (page_addr vbase k) \<noteq> 0"
  shows "\<exists>s'. unmap_loop root vbase i n s = Done s'"
  using assms(1,3)
proof (induction "unat n - unat i" arbitrary: i s)
  case 0
  then show ?case using unmap_pages.loop_end [of n i root vbase s] by simp
next
  case (Suc d)
  then have i: "i < n" by (simp add: word_less_nat_alt)
  then obtain s1 where s1: "vmm_unmap_page root (page_addr vbase i) s = Done s1"
    using unmap_page_Done Suc.prems(2) [of i] by blast
  note ok1 = unmap_page_spec(1) [OF Suc.prems(1) s1]
  have d: "d = unat n - unat (i + 1)" using Suc.hyps(2) i by (simp add: unat_Suc_less)
  have "lookup (tables s1) root (page_addr vbase k) \<noteq> 0" if k: "i + 1 \<le> k" "k < n" for k
  proof -
    have "k \<noteq> i" using k i by (auto simp: word_le_nat_alt unat_Suc_less)
    then have "vpage (page_addr vbase k) \<noteq> vpage (page_addr vbase i)"
      using take_36_offset_inj [of k "vbase div 4096" i] assms(2) k(2) i
      by (auto simp: vpage_page_addr word_less_nat_alt)
    moreover have "i \<le> k" using k word_between_Suc [OF i, of k] by blast
    ultimately show ?thesis
      using unmap_page_spec(2) [OF Suc.prems(1) s1] Suc.prems(2) k(2) by simp
  qed
  from Suc.hyps(1) [OF d ok1 this] s1 i show ?case
    by (simp add: unmap_pages.loop_unfold [of root vbase i])
qed

section \<open>New address spaces\<close>

lemma copy_entries_pmm: "vm_pmm (copy_entries t i s) = vm_pmm s"
proof (induction t i s rule: copy_entries.induct)
  case (1 t i s)
  then show ?case by (cases "i < 512") (simp_all add: copy_entries.simps [of t i s] set_entry_def)
qed

lemma copy_entries_spec:
  assumes "t \<noteq> kernel_pml4 s" "i \<le> 512"
  shows "tables (copy_entries t i s) =
      (tables s)(t := (\<lambda>j. if i \<le> j \<and> j < 512 then tables s (kernel_pml4 s) j else tables s t j)) \<and>
    vm_pmm (copy_entries t i s) = vm_pmm s \<and> kernel_pml4 (copy_entries t i s) = kernel_pml4 s"
  using assms
proof (induction t i s rule: copy_entries.induct)
  case (1 t i s)
  show ?case
  proof (cases "i < 512")
    case True
    have "i + 1 \<le> j \<and> j < 512 \<or> j = i \<longleftrightarrow> i \<le> j \<and> j < 512" for j
      by (rule word_between_Suc [OF True])
    then show ?thesis
      using 1 True word_Suc_le [OF True]
      by (auto simp: copy_entries.simps [of t i s] set_entry_def fun_eq_iff)
  next
    case False
    then show ?thesis by (auto simp: copy_entries.simps [of t i s] fun_eq_iff)
  qed
qed

lemma path_table_fresh:
  assumes "\<forall>q. valid_path q \<longrightarrow> path_table tb root q \<noteq> Some t"
  shows "valid_path q \<Longrightarrow> path_table (tb(t := f)) root q = path_table tb root q"
proof (induction q rule: rev_induct)
  case (snoc j q)
  then have "path_table tb root q \<noteq> Some t" using assms by (simp add: valid_path_snoc)
  with snoc show ?case by (auto simp: path_table_snoc valid_path_snoc split: option.splits)
qed simp

lemma space_path:
  assumes fresh: "\<forall>q. valid_path q \<longrightarrow> path_table tb k q \<noteq> Some t"
    and tb': "tb' = tb(t := (\<lambda>j. if 255 \<le> j \<and> j < 512 then tb k j else 0))"
    and v: "valid_path (j # q)"
  shows "path_table tb' t (j # q) = (if 255 \<le> j then path_table tb k (j # q) else None)"
proof -
  have "t \<noteq> k" using fresh [rule_format, of "[]"] by (auto simp: valid_path_def)
  moreover have "j < 512" using v by (simp add: valid_path_def)
  ultimately have "path_table tb' t (j # q) = (if 255 \<le> j then path_table tb' k (j # q) else None)"
    by (simp add: tb' next_table_def present_def)
  then show ?thesis using path_table_fresh [OF fresh v] by (simp add: tb')
qed

lemma space_create_spec:
  assumes ok: "vm_ok s (kernel_pml4 s)" and c: "vmm_space_create s = Done (t, s')"
  shows "vm_ok s' t" "vm_ok s' (kernel_pml4 s)" "kernel_pml4 s' = kernel_pml4 s" "vmm_lock s' = 0"
    "lookup (tables s') t v =
      (if 255 \<le> PML4_GET_INDEX v then lookup (tables s) (kernel_pml4 s) v else 0)"
    "lookup (tables s') (kernel_pml4 s) v = lookup (tables s) (kernel_pml4 s) v"
proof -
  let ?k = "kernel_pml4 s"
  obtain l r pm where a: "pmm_alloc PAGE_SIZE (vm_pmm s) = Done (r, pm)" "rlength r > 0"
    and t: "t = mmap_phys_to_io (rbase r)"
    and s': "s' = (copy_entries t 255 (clear_table t (s\<lparr>vmm_lock := l, vm_pmm := pm\<rparr>)))\<lparr>vmm_lock := 0\<rparr>"
    using c by (auto simp: vmm_space_create_def call_pmm_alloc_def Let_def arch_release_def)
  note f = fresh_table [OF ok a, folded t]
  have "t \<noteq> ?k" using f(2) [rule_format, of "[]"] by (auto simp: valid_path_def)
  then have tb': "tables s' = (tables s)(t := (\<lambda>j. if 255 \<le> j \<and> j < 512 then tables s ?k j else 0))"
    and pm: "vm_pmm s' = pm" and k': "kernel_pml4 s' = ?k"
    using copy_entries_spec [of t "clear_table t (s\<lparr>vmm_lock := l, vm_pmm := pm\<rparr>)" 255]
    by (simp_all add: s' clear_table_def fun_eq_iff)
  have old: "valid_path q \<Longrightarrow> path_table (tables s') ?k q = path_table (tables s) ?k q" for q
    using path_table_fresh [OF f(2)] by (simp add: tb')
  note new = space_path [OF f(2) tb']
  have tree: "vm_tree (tables s) ?k" and used: "tables_used (vm_pmm s) (tables s) ?k"
    using ok by (simp_all add: vm_ok_def)
  have leaf: "path_table (tables s) ?k (vpath v) = Some u \<Longrightarrow> tables s' u = tables s u" for u
    using f(2) valid_vpath [of v] by (auto simp: tb')
  show "vm_ok s' ?k"
    using tree used f(3,5) by (auto simp: vm_ok_def vm_tree_def tables_used_def old pm)
  have path: "path_table (tables s') t q =
      (case q of [] \<Rightarrow> Some t | j # _ \<Rightarrow> if 255 \<le> j then path_table (tables s) ?k q else None)"
    if "valid_path q" for q
    using new that by (cases q) simp_all
  then have pathD: "q = [] \<and> u = t \<or> path_table (tables s) ?k q = Some u \<and> q \<noteq> [] \<and> u \<noteq> t"
    if "valid_path q" "path_table (tables s') t q = Some u" for q u
    using path [OF that(1)] that f(2) by (cases q) (auto split: if_splits simp del: path_table.simps(2))
  have "vm_tree (tables s') t"
    unfolding vm_tree_def using vm_treeD [OF tree] pathD by metis
  moreover have "tables_used pm (tables s') t"
  proof -
    have "is_set_pmm pm (mmap_io_to_phys t div PAGE_SIZE)"
      using f(4) by (simp add: t mmap_io_to_phys_def mmap_phys_to_io_def)
    then show ?thesis using used f(5) pathD unfolding tables_used_def by metis
  qed
  ultimately show "vm_ok s' t" using f(3) by (simp add: vm_ok_def pm)
  show "kernel_pml4 s' = ?k" by (rule k')
  show "vmm_lock s' = 0" by (simp add: s')
  show "lookup (tables s') t v = (if 255 \<le> PML4_GET_INDEX v then lookup (tables s) ?k v else 0)"
    using path [OF valid_vpath, of v] leaf
    by (auto simp: lookup_def vpath_def split: option.splits)
  show "lookup (tables s') ?k v = lookup (tables s) ?k v"
    using old [OF valid_vpath] leaf by (auto simp: lookup_def split: option.splits)
qed

section \<open>Progress\<close>

text \<open>Pages of the same 512-page region hang in the same last-level table.\<close>

lemma page_addr_push: "page_addr base i = push_bit 12 (i + base div 4096)"
  unfolding page_addr_def ALIGN_DOWN_page by (simp add: PAGE_SIZE_def push_bit_eq_mult distrib_right)

lemma vpath_region: "drop_bit 21 v = drop_bit 21 w \<Longrightarrow> vpath v = vpath w"
proof -
  assume eq: "drop_bit 21 v = drop_bit 21 w"
  have "PMLX_GET_INDEX v l = PMLX_GET_INDEX w l" if "l \<in> {1, 2, 3}" for l
  proof -
    have "drop_bit (12 + l * 9) v = drop_bit (12 + l * 9) w"
      using that arg_cong [OF eq, of "drop_bit ((l - 1) * 9)"] by (auto simp: drop_bit_drop_bit)
    then show ?thesis by (simp add: PMLX_GET_INDEX_def)
  qed
  then show ?thesis by (simp add: vpath_def index_defs)
qed

lemma vpath_next:
  assumes "unat (i + base div 4096) mod 512 \<noteq> 511"
  shows "vpath (page_addr base (i + 1)) = vpath (page_addr base i)"
proof (rule vpath_region)
  let ?w = "i + base div 4096"
  have "unat ?w \<noteq> 2 ^ 64 - 1" using assms by (intro notI) simp
  then have "unat ?w + 1 < 2 ^ 64" using unat_less_bound [of ?w] by simp
  then have u: "unat (?w + 1) = unat ?w + 1" by (simp add: unat_plus_if')
  have "(unat ?w + 1) div 512 = unat ?w div 512" using assms by (simp add: div_Suc mod_Suc)
  then have "drop_bit 9 (?w + 1) = drop_bit 9 ?w"
    by (simp add: word_unat_eq_iff drop_bit_eq_div unat_div u)
  then have "take_bit 43 (drop_bit 9 (?w + 1)) = take_bit 43 (drop_bit 9 ?w)" by simp
  moreover have "drop_bit 21 (push_bit 12 w) = take_bit 43 (drop_bit 9 w)" for w :: u64
    by (intro bit_word_eqI) (auto simp: bit_simps)
  moreover have "i + 1 + base div 4096 = ?w + 1" by simp
  ultimately show "drop_bit 21 (page_addr base (i + 1)) = drop_bit 21 (page_addr base i)"
    unfolding page_addr_push by metis
qed

text \<open>The 512-page regions that \<open>d\<close> pages touch from offset \<open>o\<close> on; each takes at most three tables.\<close>

definition regions :: "nat \<Rightarrow> nat \<Rightarrow> nat" where
  "regions off d = (off + d + 511) div 512"

definition tables_for :: "nat \<Rightarrow> nat" where
  "tables_for n = 3 * ((n + 1022) div 512)"

lemma regions_bound: "off < 512 \<Longrightarrow> 3 * regions off d \<le> tables_for d"
  unfolding regions_def tables_for_def by (intro mult_le_mono2 div_le_mono) simp

lemma regions_step:
  "0 < d \<Longrightarrow> Suc off < 512 \<Longrightarrow> regions (Suc off) (d - 1) = regions off d"
  "0 < d \<Longrightarrow> off = 511 \<Longrightarrow> Suc (regions 0 (d - 1)) = regions off d"
  "0 < d \<Longrightarrow> 0 < regions off d"
proof -
  assume d: "0 < d"
  show "regions (Suc off) (d - 1) = regions off d" if "Suc off < 512" using d by (simp add: regions_def)
  have "511 + d + 511 = (d - 1 + 511) + 512" using d by simp
  then show "Suc (regions 0 (d - 1)) = regions off d" if "off = 511"
    unfolding regions_def that by (simp only: div_add_self2)
  show "0 < regions off d" using d by (simp add: regions_def div_greater_zero_iff)
qed

text \<open>
  What walking and extending the tables needs of the page allocator: a measure \<open>budget k\<close> of
  memory that serves \<open>k\<close> one-page requests.
\<close>

locale page_budget =
  fixes budget :: "nat \<Rightarrow> pmm \<Rightarrow> bool"
  assumes take_page: "budget (Suc k) s \<Longrightarrow>
      \<exists>r s'. pmm_alloc PAGE_SIZE s = Done (r, s') \<and> rlength r > 0 \<and> budget k s'"
    and fewer: "budget (Suc k) s \<Longrightarrow> budget k s"

context page_budget
begin

lemma fewer_add: "budget (a + k) s \<Longrightarrow> budget k s"
  by (induction a) (auto intro: fewer)

lemma fewer_le: "budget n s \<Longrightarrow> k \<le> n \<Longrightarrow> budget k s"
  using fewer_add [of "n - k" k s] by simp

lemma get_pml_alloc_progress:
  assumes "budget (Suc k) (vm_pmm s)"
  shows "\<exists>r s'. vmm_get_pml_alloc t i u s = Done (r, s') \<and> budget k (vm_pmm s')"
proof (cases "present (tables s t i)")
  case True
  then show ?thesis using fewer [OF assms] by (auto simp: vmm_get_pml_alloc_def Let_def)
next
  case False
  with take_page [OF assms] show ?thesis
    by (auto simp: vmm_get_pml_alloc_def Let_def call_pmm_alloc_def set_entry_def clear_table_def)
qed

lemma map_page_cold:
  assumes "budget (3 + k) (vm_pmm s)"
  shows "\<exists>s'. vmm_map_page root virt phys u s = Done s' \<and> budget k (vm_pmm s')"
proof -
  obtain r3 s3 where 3: "vmm_get_pml_alloc root (PML4_GET_INDEX virt) True s = Done (r3, s3)"
    "budget (Suc (Suc k)) (vm_pmm s3)"
    using get_pml_alloc_progress [of "Suc (Suc k)" s root "PML4_GET_INDEX virt" True] assms
    by (auto simp: numeral_3_eq_3)
  from get_pml_alloc_progress [OF 3(2)] obtain r2 s2 where
    2: "vmm_get_pml_alloc (rbase r3) (PML3_GET_INDEX virt) True s3 = Done (r2, s2)" "budget (Suc k) (vm_pmm s2)"
    by blast
  from get_pml_alloc_progress [OF 2(2)] obtain r1 s1 where
    1: "vmm_get_pml_alloc (rbase r2) (PML2_GET_INDEX virt) True s2 = Done (r1, s1)" "budget k (vm_pmm s1)"
    by blast
  from 3 2 1 show ?thesis by (simp add: vmm_map_page_def set_entry_def)
qed

lemma map_page_warm:
  assumes "path_table (tables s) root (vpath virt) \<noteq> None"
  shows "\<exists>s'. vmm_map_page root virt phys u s = Done s' \<and> vm_pmm s' = vm_pmm s"
  using assms
  by (auto simp: vpath_def next_table_def vmm_map_page_def vmm_get_pml_alloc_def Let_def set_entry_def
      split: option.splits if_splits)

lemma map_loop_regions:
  "vm_ok s root \<Longrightarrow>
   budget (3 * (regions (unat (i + vb div 4096) mod 512) (unat n - unat i) -
     (if path_table (tables s) root (vpath (page_addr vb i)) \<noteq> None then 1 else 0)) + k) (vm_pmm s) \<Longrightarrow>
   \<exists>s'. map_loop root vb pb u i n s = Done s' \<and> budget k (vm_pmm s')"
proof (induction "unat n - unat i" arbitrary: i s)
  case 0
  have "budget k (vm_pmm s)" by (rule fewer_le [OF "0.prems"(2)]) simp
  then show ?case using map_pages.loop_end [of n i root vb pb u s] 0 by simp
next
  case (Suc d)
  let ?off = "unat (i + vb div 4096) mod 512" and ?v = "page_addr vb i"
  have i: "i < n" using Suc.hyps(2) by (simp add: word_less_nat_alt)
  have d: "d = unat n - unat (i + 1)" using Suc.hyps(2) i by (simp add: unat_Suc_less)
  have pos: "0 < regions ?off (Suc d)" by (rule regions_step(3)) simp
  have "\<exists>s1. vmm_map_page root ?v (page_addr pb i) u s = Done s1 \<and> budget (3 * (regions ?off (Suc d) - 1) + k) (vm_pmm s1)"
  proof (cases "path_table (tables s) root (vpath ?v) = None")
    case True
    have e: "3 * regions ?off (Suc d) + k = 3 + (3 * (regions ?off (Suc d) - 1) + k)" using pos by simp
    have "budget (3 + (3 * (regions ?off (Suc d) - 1) + k)) (vm_pmm s)"
      using Suc.prems(2) True unfolding Suc.hyps(2) [symmetric] e [symmetric] by simp
    then show ?thesis by (rule map_page_cold)
  next
    case False
    with Suc.prems(2) Suc.hyps(2) map_page_warm [OF False] show ?thesis by fastforce
  qed
  then obtain s1 where s1: "vmm_map_page root ?v (page_addr pb i) u s = Done s1"
    and bud: "budget (3 * (regions ?off (Suc d) - 1) + k) (vm_pmm s1)" by blast
  note spec = map_page_spec [OF Suc.prems(1) s1]
  let ?off' = "unat (i + 1 + vb div 4096) mod 512"
  have off': "?off' = (?off + 1) mod 512"
  proof -
    have "i + 1 + vb div 4096 = (i + vb div 4096) + 1" by simp
    then show ?thesis by (simp add: unat_word_ariths mod_mod_cancel mod_simps)
  qed
  have "budget (3 * (regions ?off' d - (if path_table (tables s1) root (vpath (page_addr vb (i + 1))) \<noteq> None then 1 else 0)) + k) (vm_pmm s1)"
  proof (cases "?off = 511")
    case True
    then have "regions ?off' d = regions ?off (Suc d) - 1" using regions_step(2) [of "Suc d" ?off] off' by simp
    then show ?thesis by (intro fewer_le [OF bud]) simp
  next
    case False
    then have "Suc ?off < 512" using mod_less_divisor [of 512 "unat (i + vb div 4096)"] by linarith
    moreover have "path_table (tables s1) root (vpath (page_addr vb (i + 1))) \<noteq> None"
      using spec(3) vpath_next [OF False] by simp
    ultimately show ?thesis using bud regions_step(1) [of "Suc d" ?off] off' by simp
  qed
  with Suc.hyps(1) [OF d spec(1), of ] d s1 i show ?case
    by (simp add: map_pages.loop_unfold [of root vb pb u i])
qed

lemma map_range_progress:
  assumes "vm_ok s root" "budget (tables_for (unat (rlength virt div PAGE_SIZE)) + k) (vm_pmm s)"
    and "vmm_lock s = 0" "rlength phys = rlength virt"
  shows "\<exists>s'. vmm_map_range root virt phys u s = Done s' \<and> budget k (vm_pmm s')"
proof -
  let ?n = "rlength virt div PAGE_SIZE" and ?off = "unat (0 + rbase virt div 4096) mod 512"
  have le: "3 * (regions ?off (unat ?n - unat (0 :: u64)) - x) + k \<le> tables_for (unat ?n) + k" for x
    using regions_bound [of ?off "unat ?n"] by simp
  have "budget (3 * (regions ?off (unat ?n - unat (0 :: u64)) -
      (if path_table (tables (s\<lparr>vmm_lock := 1\<rparr>)) root (vpath (page_addr (rbase virt) 0)) \<noteq> None then 1 else 0)) + k)
      (vm_pmm (s\<lparr>vmm_lock := 1\<rparr>))"
    using fewer_le [OF assms(2) le] by simp
  from map_loop_regions [OF _ this, of "rbase phys" u] assms(1) obtain s1 where
    "map_loop root (rbase virt) (rbase phys) u 0 ?n (s\<lparr>vmm_lock := 1\<rparr>) = Done s1" "budget k (vm_pmm s1)" by auto
  with assms(3,4) show ?thesis by (simp add: vmm_map_range_def with_lock_def arch_release_def)
qed

lemma space_create_progress:
  assumes "budget (Suc k) (vm_pmm s)" "vmm_lock s = 0"
  shows "\<exists>t s'. vmm_space_create s = Done (t, s') \<and> budget k (vm_pmm s')"
  using take_page [OF assms(1)] assms(2)
  by (auto simp: vmm_space_create_def call_pmm_alloc_def Let_def copy_entries_pmm clear_table_def)

end

interpretation scattered: page_budget enough
proof
  show "enough (Suc k) s \<Longrightarrow> \<exists>r s'. pmm_alloc PAGE_SIZE s = Done (r, s') \<and> rlength r > 0 \<and> enough k s'" for k s
    by (rule alloc_progress)
  show "enough (Suc k) s \<Longrightarrow> enough k s" for k s by (simp add: enough_def)
qed

section \<open>Properties\<close>

text \<open>A machine with an empty root table in page 0 and three more free pages.\<close>

definition small_vmm :: vmm where
  "small_vmm = \<lparr>tables = (\<lambda>_ _. 0), kernel_pml4 = 0xffff800000000000, vmm_lock = 0,
     vm_pmm = small_pmm 1 0, invlpg = [], cr3 = 0\<rparr>"

lemma path_table_zero: "path_table (\<lambda>_ _. 0) t q = (if q = [] then Some t else None)"
  by (cases q) (simp_all add: next_table_def present_def)

lemma lookup_zero: "lookup (\<lambda>_ _. 0) t v = 0"
  by (simp add: lookup_def path_table_zero vpath_def)

lemma small_vmm_ok: "vm_ok small_vmm 0xffff800000000000" "enough 3 (vm_pmm small_vmm)"
  "kernel_pml4 small_vmm = 0xffff800000000000" "vmm_lock small_vmm = 0"
proof -
  have "is_set_pmm (small_pmm 1 0) 0" "length (reachable_free (small_pmm 1 0)) = 3" by code_simp+
  then show "vm_ok small_vmm 0xffff800000000000" "enough 3 (vm_pmm small_vmm)"
    "kernel_pml4 small_vmm = 0xffff800000000000" "vmm_lock small_vmm = 0"
    by (simp_all add: vm_ok_def small_vmm_def vm_tree_def tables_used_def path_table_zero pmm_ok_def
        small_pmm_def mmap_io_to_phys_def MMAP_IO_BASE_def PAGE_SIZE_def enough_def)
qed

text \<open>
  C2: as long as the page allocator can still supply three tables per 2 MiB, \<^verbatim>\<open>vmm_map_range\<close>
  returns, every page of the range is translated to its frame with the flags asked for, the
  translation of every other page is as before, and the tables still form a tree in used pages.
\<close>

theorem vmm_map_range_translates:
  assumes "vm_ok s root" "vmm_lock s = 0" "rlength phys = rlength virt"
    and "unat (rlength virt div PAGE_SIZE) \<le> 2 ^ 36"
    and "enough (tables_for (unat (rlength virt div PAGE_SIZE))) (vm_pmm s)"
  shows "\<exists>s'. vmm_map_range root virt phys u s = Done s' \<and> vm_ok s' root \<and> vmm_lock s' = 0 \<and>
    (\<forall>k < rlength virt div PAGE_SIZE.
       lookup (tables s') root (page_addr (rbase virt) k) = pml_make_entry (page_addr (rbase phys) k) u) \<and>
    (\<forall>v. (\<forall>k < rlength virt div PAGE_SIZE. vpage v \<noteq> vpage (page_addr (rbase virt) k)) \<longrightarrow>
       lookup (tables s') root v = lookup (tables s) root v)"
proof -
  obtain s' where m: "vmm_map_range root virt phys u s = Done s'"
    using scattered.map_range_progress [of s root virt 0 phys u] assms(1-3,5) by auto
  from map_range_spec [OF assms(1) m assms(4)] m show ?thesis by blast
qed

theorem vmm_map_range_translates_witness:
  "\<exists>s'. vmm_map_range 0xffff800000000000 \<lparr>rbase = 0x400000, rlength = 4096\<rparr>
       \<lparr>rbase = 0x9000, rlength = 4096\<rparr> True small_vmm = Done s' \<and>
     lookup (tables s') 0xffff800000000000 0x400000 = 0x9007"
proof -
  have "(4096 :: u64) div PAGE_SIZE = 1" by (simp add: PAGE_SIZE_def)
  moreover have "page_addr 0x400000 0 = 0x400000" "pml_make_entry (page_addr 0x9000 0) True = 0x9007"
    by (simp_all add: page_addr_def ALIGN_DOWN_page pml_make_entry_def)
  ultimately show ?thesis
    using vmm_map_range_translates [OF small_vmm_ok(1) small_vmm_ok(4), of
        "\<lparr>rbase = 0x9000, rlength = 4096\<rparr>" "\<lparr>rbase = 0x400000, rlength = 4096\<rparr>" True] small_vmm_ok(2)
    by (auto simp: tables_for_def)
qed

text \<open>
  C18: unmapping a range that has just been mapped never trips an assertion; afterwards no page
  of the range is translated and every other page is as it was before the mapping.
\<close>

theorem vmm_map_unmap_roundtrip:
  assumes "vm_ok s root" "vmm_map_range root virt phys u s = Done s'"
    and "unat (rlength virt div PAGE_SIZE) \<le> 2 ^ 36"
  shows "\<exists>s''. vmm_unmap root virt s' = Done s'' \<and> vm_ok s'' root \<and>
    (\<forall>v. lookup (tables s'') root v =
      (if \<exists>k < rlength virt div PAGE_SIZE. vpage v = vpage (page_addr (rbase virt) k) then 0
       else lookup (tables s) root v))"
proof -
  let ?n = "rlength virt div PAGE_SIZE"
  note m = map_range_spec [OF assms]
  have ok: "vm_ok (s'\<lparr>vmm_lock := 1\<rparr>) root" using m(1) by simp
  have "pml_make_entry p u \<noteq> 0" for p using present_make_entry [of p u] by (auto simp: present_def)
  then obtain s1 where u: "unmap_loop root (rbase virt) 0 ?n (s'\<lparr>vmm_lock := 1\<rparr>) = Done s1"
    using unmap_loop_Done [OF ok assms(3), of 0 "rbase virt"] m(3) by auto
  then have un: "vmm_unmap root virt s' = Done (s1\<lparr>vmm_lock := 0\<rparr>)"
    using m(2) by (simp add: vmm_unmap_def with_lock_def arch_release_def)
  have "lookup (tables s1) root v =
      (if \<exists>k<?n. vpage v = vpage (page_addr (rbase virt) k) then 0 else lookup (tables s) root v)" for v
    using unmap_pages.loop_hit [OF ok u assms(3)] unmap_pages.loop_other [OF ok u] m(4) by auto
  with un unmap_pages.loop_ok [OF ok u] show ?thesis by auto
qed

theorem vmm_map_unmap_roundtrip_witness:
  "\<exists>s' s''. vmm_map_range 0xffff800000000000 \<lparr>rbase = 0x400000, rlength = 4096\<rparr>
       \<lparr>rbase = 0x9000, rlength = 4096\<rparr> True small_vmm = Done s' \<and>
     vmm_unmap 0xffff800000000000 \<lparr>rbase = 0x400000, rlength = 4096\<rparr> s' = Done s'' \<and>
     lookup (tables s'') 0xffff800000000000 0x400000 = 0"
proof -
  let ?v = "\<lparr>rbase = 0x400000, rlength = 4096\<rparr>" and ?p = "\<lparr>rbase = 0x9000, rlength = 4096\<rparr>"
  have n: "(4096 :: u64) div PAGE_SIZE = 1" by (simp add: PAGE_SIZE_def)
  obtain s' where m: "vmm_map_range 0xffff800000000000 ?v ?p True small_vmm = Done s'"
    using scattered.map_range_progress [of small_vmm "0xffff800000000000" ?v 0 ?p True] small_vmm_ok(1,2,4) n
    by (auto simp: tables_for_def)
  from vmm_map_unmap_roundtrip [OF small_vmm_ok(1) m] n obtain s'' where
    "vmm_unmap 0xffff800000000000 ?v s' = Done s''" "lookup (tables s'') 0xffff800000000000 0x400000 = 0"
    by (auto simp: small_vmm_def lookup_zero)
  with m show ?thesis by blast
qed



text \<open>
  C40: the index macros stay below 512 at every level, and the four indices of two addresses
  agree exactly when the addresses lie in the same page of the 48-bit address space.
\<close>

theorem pml_index_pages:
  "PML4_GET_INDEX v < 512 \<and> PML3_GET_INDEX v < 512 \<and> PML2_GET_INDEX v < 512 \<and>
   PML1_GET_INDEX v < 512 \<and>
   (PML4_GET_INDEX v = PML4_GET_INDEX w \<and> PML3_GET_INDEX v = PML3_GET_INDEX w \<and>
    PML2_GET_INDEX v = PML2_GET_INDEX w \<and> PML1_GET_INDEX v = PML1_GET_INDEX w \<longleftrightarrow>
    take_bit 36 (drop_bit 12 v) = take_bit 36 (drop_bit 12 w))"
  using index_inj [of v w] by (simp add: index_defs index_less vpath_def vpage_def)

end
