(* ===== verification/Navy_Vec.thy ===== *)
theory Navy_Vec
  imports Navy_Prelude
begin

text \<open>
  The growing arrays of \<^verbatim>\<open>libs/navy/vec.c\<close> and \<^verbatim>\<open>vec.h\<close>. \<open>items\<close> are the elements below
  \<^verbatim>\<open>length\<close>, which is therefore the length of the list; \<^verbatim>\<open>capacity\<close> is kept as the code keeps
  it. Whether \<^verbatim>\<open>realloc\<close> finds the bytes asked for is the argument \<open>can\<close> of the operations
  that call it; it keeps the old elements.
\<close>

record 'a vec =
  items :: "'a list"
  capacity :: u64

definition vlength :: "'a vec \<Rightarrow> u64" where
  "vlength v = of_nat (length (items v))"

definition vec_init :: "'a vec" where
  "vec_init = \<lparr>items = [], capacity = 0\<rparr>"

definition vec_expand :: "(u64 \<Rightarrow> bool) \<Rightarrow> u64 \<Rightarrow> 'a vec \<Rightarrow> 'a vec outcome" where
  "vec_expand can memsz v =
     (if vlength v + 1 > capacity v
      then let n = (if capacity v = 0 then 1 else push_bit 1 (capacity v)) in
           kassert (can (n * memsz)) (Done (v\<lparr>capacity := n\<rparr>))
      else Done v)"

text \<open>The store of \<^verbatim>\<open>vec_push\<close> goes to slot \<^verbatim>\<open>length\<close>, which must be below the capacity.\<close>

definition vec_push :: "(u64 \<Rightarrow> bool) \<Rightarrow> u64 \<Rightarrow> 'a \<Rightarrow> 'a vec \<Rightarrow> 'a vec outcome" where
  "vec_push can memsz val v =
     bind_o (vec_expand can memsz v) (\<lambda>v.
     if vlength v < capacity v then Done (v\<lparr>items := items v @ [val]\<rparr>) else Fault Out_of_bounds)"

definition vec_pop :: "'a vec \<Rightarrow> ('a \<times> 'a vec) outcome" where
  "vec_pop v =
     (if items v = [] then Fault Out_of_bounds
      else Done (last (items v), v\<lparr>items := butlast (items v)\<rparr>))"

definition vec_nth :: "'a vec \<Rightarrow> u64 \<Rightarrow> 'a outcome" where
  "vec_nth v i = (if i < vlength v then Done (items v ! unat i) else Fault Out_of_bounds)"

section \<open>The contract of a stack\<close>

text \<open>
  What the users of a vector rely on: pushing adds one element at the end, popping takes the
  last one off, and \<open>inv\<close> is kept.
\<close>

locale stack_ops =
  fixes push :: "'a \<Rightarrow> 's \<Rightarrow> 's outcome"
    and pop :: "'s \<Rightarrow> ('a \<times> 's) outcome"
    and elems :: "'s \<Rightarrow> 'a list"
    and inv :: "'s \<Rightarrow> bool"
  assumes push_elems: "inv s \<Longrightarrow> push x s = Done s' \<Longrightarrow> elems s' = elems s @ [x] \<and> inv s'"
    and pop_elems: "inv s \<Longrightarrow> elems s = xs @ [x] \<Longrightarrow>
      \<exists>s'. pop s = Done (x, s') \<and> elems s' = xs \<and> inv s'"

fun push_all :: "('a \<Rightarrow> 's \<Rightarrow> 's outcome) \<Rightarrow> 'a list \<Rightarrow> 's \<Rightarrow> 's outcome" where
  "push_all push [] s = Done s"
| "push_all push (x # xs) s = bind_o (push x s) (push_all push xs)"

fun pop_many :: "('s \<Rightarrow> ('a \<times> 's) outcome) \<Rightarrow> nat \<Rightarrow> 's \<Rightarrow> ('a list \<times> 's) outcome" where
  "pop_many pop 0 s = Done ([], s)"
| "pop_many pop (Suc n) s =
     bind_o (pop s) (\<lambda>(x, s'). bind_o (pop_many pop n s') (\<lambda>(xs, s''). Done (x # xs, s'')))"

context stack_ops
begin

lemma push_all_elems:
  "inv s \<Longrightarrow> push_all push xs s = Done s' \<Longrightarrow> elems s' = elems s @ xs \<and> inv s'"
proof (induction xs arbitrary: s)
  case (Cons x xs)
  then obtain s1 where "push x s = Done s1" "push_all push xs s1 = Done s'" by auto
  with Cons.IH [of s1] push_elems [OF Cons.prems(1)] show ?case by simp
qed simp

lemma pop_many_elems:
  "inv s \<Longrightarrow> elems s = ys @ rev xs \<Longrightarrow>
   \<exists>s'. pop_many pop (length xs) s = Done (xs, s') \<and> elems s' = ys \<and> inv s'"
proof (induction xs arbitrary: s)
  case (Cons x xs)
  then obtain s1 where s1: "pop s = Done (x, s1)" "elems s1 = ys @ rev xs" "inv s1"
    using pop_elems [OF Cons.prems(1), of "ys @ rev xs" x] by auto
  with Cons.IH [OF s1(3,2)] show ?case by auto
qed auto

lemma push_pop_reverses:
  assumes "inv s" "push_all push xs s = Done s'"
  shows "\<exists>s''. pop_many pop (length xs) s' = Done (rev xs, s'') \<and> elems s'' = elems s \<and> inv s''"
  using pop_many_elems [of s' "elems s" "rev xs"] push_all_elems [OF assms] by simp

end

section \<open>Vectors are stacks\<close>

text \<open>The invariant: the elements fit the capacity, which is 0 or a power of two.\<close>

definition vec_ok :: "'a vec \<Rightarrow> bool" where
  "vec_ok v \<longleftrightarrow> length (items v) \<le> unat (capacity v) \<and>
     (capacity v = 0 \<or> (\<exists>k<64. capacity v = 2 ^ k))"

lemma vec_ok_init [simp]: "vec_ok vec_init"
  by (simp add: vec_ok_def vec_init_def)

lemma vlength_unat: "vec_ok v \<Longrightarrow> unat (vlength v) = length (items v)"
proof -
  assume "vec_ok v"
  then have "length (items v) < 2 ^ 64" using unat_less_bound [of "capacity v"] by (simp add: vec_ok_def)
  then show ?thesis by (simp add: vlength_def unat_of_nat_less)
qed

lemma vec_expand_ok:
  assumes "vec_ok v" "vec_expand can memsz v = Done v'"
  shows "items v' = items v" "capacity v' = 0 \<or> (\<exists>k<64. capacity v' = 2 ^ k)"
proof -
  have double: "push_bit 1 (2 ^ k :: u64) = (if k = 63 then 0 else 2 ^ Suc k)" if "k < 64" for k
    using that by (auto simp: push_bit_eq_mult)
  show "items v' = items v" using assms(2) by (auto simp: vec_expand_def Let_def split: if_splits)
  show "capacity v' = 0 \<or> (\<exists>k<64. capacity v' = 2 ^ k)"
  proof (cases "vlength v + 1 > capacity v \<and> capacity v \<noteq> 0")
    case True
    then obtain k where "k < 64" "capacity v = 2 ^ k" using assms(1) by (auto simp: vec_ok_def)
    moreover have "capacity v' = push_bit 1 (capacity v)"
      using True assms(2) by (auto simp: vec_expand_def Let_def)
    ultimately show ?thesis using double [of k] by (cases "k = 63") (auto intro!: exI [of _ "Suc k"])
  next
    case False
    have "\<exists>k<64. (1 :: u64) = 2 ^ k" by (rule exI [of _ 0]) simp
    with False show ?thesis
      using assms by (auto simp: vec_expand_def vec_ok_def Let_def split: if_splits)
  qed
qed

lemma vec_push_ok:
  assumes "vec_ok v" "vec_push can memsz x v = Done v'"
  shows "items v' = items v @ [x] \<and> vec_ok v'"
proof -
  obtain w where w: "vec_expand can memsz v = Done w" "vlength w < capacity w"
    and v': "v' = w\<lparr>items := items w @ [x]\<rparr>"
    using assms(2) by (auto simp: vec_push_def split: if_splits)
  note e = vec_expand_ok [OF assms(1) w(1)]
  have "unat (vlength w) = length (items w)"
    using vlength_unat [OF assms(1)] e(1) by (simp add: vlength_def)
  with w(2) have "length (items w) < unat (capacity w)" by (simp add: word_less_nat_alt)
  then show ?thesis using e v' by (simp add: vec_ok_def)
qed

interpretation vec_stack: stack_ops "vec_push can memsz" vec_pop items vec_ok
  for can memsz
proof unfold_locales
  show "vec_ok s \<Longrightarrow> vec_push can memsz x s = Done s' \<Longrightarrow> items s' = items s @ [x] \<and> vec_ok s'"
    for s s' :: "'a vec" and x
    by (rule vec_push_ok)
  show "vec_ok s \<Longrightarrow> items s = xs @ [x] \<Longrightarrow>
      \<exists>s'. vec_pop s = Done (x, s') \<and> items s' = xs \<and> vec_ok s'" for s :: "'a vec" and xs x
    by (auto simp: vec_pop_def vec_ok_def)
qed

text \<open>A push on an array below \<open>2 ^ 62\<close> elements only fails when \<^verbatim>\<open>realloc\<close> does.\<close>

lemma vec_push_Done:
  assumes "vec_ok v" "length (items v) < 2 ^ 62" "\<And>n. can n"
  shows "\<exists>v'. vec_push can memsz x v = Done v' \<and> items v' = items v @ [x] \<and> vec_ok v'"
proof -
  have len: "unat (vlength v) = length (items v)" by (rule vlength_unat [OF assms(1)])
  then have len1: "unat (vlength v + 1) = Suc (length (items v))"
    using assms(2) by (simp add: unat_word_ariths)
  have "\<exists>w. vec_expand can memsz v = Done w \<and> items w = items v \<and> vlength v < capacity w"
  proof (cases "vlength v + 1 > capacity v")
    case False
    then show ?thesis
      using len len1 by (auto simp: vec_expand_def word_less_nat_alt)
  next
    case True
    then have eq: "unat (capacity v) = length (items v)"
      using assms(1) len1 by (simp add: vec_ok_def word_less_nat_alt)
    have "unat (push_bit 1 (capacity v)) = 2 * length (items v)"
      using eq assms(2) by (simp add: push_bit_eq_mult unat_word_ariths)
    moreover have "capacity v \<noteq> 0 \<Longrightarrow> 0 < length (items v)" using eq by (metis unat_eq_zero neq0_conv)
    ultimately have "vlength v < (if capacity v = 0 then 1 else push_bit 1 (capacity v))"
      using eq len by (auto simp: word_less_nat_alt)
    with True assms(3) show ?thesis by (auto simp: vec_expand_def Let_def)
  qed
  then obtain w where w: "vec_expand can memsz v = Done w" "items w = items v" "vlength v < capacity w"
    by blast
  then have "vec_push can memsz x v = Done (w\<lparr>items := items w @ [x]\<rparr>)"
    by (simp add: vec_push_def vlength_def)
  with vec_push_ok [OF assms(1) this] show ?thesis by blast
qed

section \<open>Properties\<close>

text \<open>
  After any number of pushes that succeed, popping as many elements returns them in
  reverse order and leaves the elements that were there before; capacity stays 0 or a power of
  two that holds all elements.
\<close>

theorem vec_push_pop_reverses:
  assumes "vec_ok v" "push_all (vec_push can memsz) xs v = Done v'"
  shows "vec_ok v' \<and> items v' = items v @ xs \<and>
    (\<exists>v''. pop_many vec_pop (length xs) v' = Done (rev xs, v'') \<and> items v'' = items v \<and> vec_ok v'')"
  using vec_stack.push_pop_reverses [OF assms] vec_stack.push_all_elems [OF assms] by simp

theorem vec_push_pop_reverses_witness:
  "\<exists>v'. push_all (vec_push (\<lambda>n. n \<le> 4096) 8) [10, 20, 30] vec_init = Done v' \<and>
     items v' = [10, 20, 30 :: u64] \<and> capacity v' = 4 \<and>
     (\<exists>v''. pop_many vec_pop 3 v' = Done ([30, 20, 10], v''))"
proof -
  have p: "push_all (vec_push (\<lambda>n. n \<le> 4096) 8) [10, 20, 30 :: u64] vec_init =
      Done \<lparr>items = [10, 20, 30], capacity = 4\<rparr>" by code_simp
  from vec_push_pop_reverses [OF vec_ok_init p] p show ?thesis by (auto simp: eval_nat_numeral)
qed

end
