(* ===== verification/Navy_Sched.thy ===== *)
theory Navy_Sched
  imports Navy_Vmm Navy_Vec
begin

text \<open>
  The scheduler (\<^verbatim>\<open>kernel/sched.c\<close>, \<^verbatim>\<open>sched.h\<close>), the context-switch hooks and wrappers of
  \<^verbatim>\<open>arch/x86_64/arch.c\<close>, and the register frame of \<^verbatim>\<open>interrupt.h\<close>. \<^verbatim>\<open>process_t\<close> objects
  live in a store \<open>pheap\<close> from addresses to processes, and \<open>processes\<close> holds their addresses,
  so that two names of one process are the same process. The addresses that \<^verbatim>\<open>kcalloc\<close> and
  \<^verbatim>\<open>kmalloc\<close> return, and whether \<^verbatim>\<open>realloc\<close> succeeds, are arguments of the operations that
  call them; blocks given to \<^verbatim>\<open>kfree\<close> are collected in \<open>kfreed\<close>.
\<close>

section \<open>Processes\<close>

record registers =
  r15 :: u64  r14 :: u64  r13 :: u64  r12 :: u64  r11 :: u64  r10 :: u64  r9 :: u64  r8 :: u64
  rbp :: u64  rdi :: u64  rsi :: u64  rdx :: u64  rcx :: u64  rbx :: u64  rax :: u64
  intno :: u64  err :: u64
  rip :: u64  cs :: u64  rflags :: u64  rsp :: u64  ss :: u64

definition zero_regs :: registers where
  "zero_regs = \<lparr>r15 = 0, r14 = 0, r13 = 0, r12 = 0, r11 = 0, r10 = 0, r9 = 0, r8 = 0, rbp = 0,
     rdi = 0, rsi = 0, rdx = 0, rcx = 0, rbx = 0, rax = 0, intno = 0, err = 0, rip = 0, cs = 0,
     rflags = 0, rsp = 0, ss = 0\<rparr>"

datatype TASK_STATE = TASK_RUNNING | TASK_IDLE | TASK_WAITINGFORDEATH | TASK_DEAD

record ipc =
  ipc_sender :: u64
  ipc_receiver :: u64
  ipc_data :: u64

record process =
  syscall_kernel_stack :: u64
  syscall_user_stack :: u64
  syscall_kernel_bstack :: u64
  stack :: range_t
  regs :: registers
  pid :: u64
  pml :: u64
  state :: TASK_STATE
  return_value :: u32
  mailbox :: "ipc vec"

text \<open>What \<^verbatim>\<open>kcalloc\<close> returns: every field zero, and \<^verbatim>\<open>TASK_RUNNING\<close> is the first state.\<close>

definition zero_process :: process where
  "zero_process = \<lparr>syscall_kernel_stack = 0, syscall_user_stack = 0, syscall_kernel_bstack = 0,
     stack = \<lparr>rbase = 0, rlength = 0\<rparr>, regs = zero_regs, pid = 0, pml = 0, state = TASK_RUNNING,
     return_value = 0, mailbox = vec_init\<rparr>"

definition SWITCH_TICK :: u64 where
  "SWITCH_TICK = 9"

definition KERNEL_STACK_SIZE :: u64 where
  "KERNEL_STACK_SIZE = 16384"

definition USER_STACK_BASE :: u64 where
  "USER_STACK_BASE = 0xc0000000"

section \<open>State\<close>

text \<open>A block given to \<^verbatim>\<open>kfree\<close>: a kernel stack, or the buffer of a process's mailbox.\<close>

datatype block = Kernel_stack u64 | Mailbox_buffer u64

record sched =
  processes :: "u64 vec"
  pheap :: "u64 \<Rightarrow> process option"
  tick :: u64
  sched_lock :: u32
  usertask_lock :: u32
  current_pid :: u64
  last_pid :: u64
  sched_is_init :: bool
  is_scheduler :: bool
  gs_base :: u64
  kern_gs_base :: u64
  kfreed :: "block list"
  ipc_mem :: "u64 \<Rightarrow> ipc"
  console :: "u64 list"
  vm :: vmm

definition get_proc :: "u64 \<Rightarrow> sched \<Rightarrow> process outcome" where
  "get_proc p s = (case pheap s p of None \<Rightarrow> Fault Null_deref | Some x \<Rightarrow> Done x)"

definition put_proc :: "u64 \<Rightarrow> process \<Rightarrow> sched \<Rightarrow> sched" where
  "put_proc p x s = s\<lparr>pheap := (pheap s)(p \<mapsto> x)\<rparr>"

section \<open>The architecture hooks\<close>

definition arch_space_switch :: "u64 \<Rightarrow> sched \<Rightarrow> sched" where
  "arch_space_switch ctx s = s\<lparr>vm := (vm s)\<lparr>cr3 := mmap_io_to_phys ctx\<rparr>\<rparr>"

definition arch_read_space :: "sched \<Rightarrow> u64" where
  "arch_read_space s = cr3 (vm s)"

definition arch_context_save :: "u64 \<Rightarrow> registers \<Rightarrow> sched \<Rightarrow> sched outcome" where
  "arch_context_save ctx r s =
     bind_o (get_proc ctx s) (\<lambda>x. Done (put_proc ctx (x\<lparr>regs := r\<rparr>) s))"

definition arch_context_switch :: "u64 \<Rightarrow> sched \<Rightarrow> (registers \<times> sched) outcome" where
  "arch_context_switch ctx s =
     bind_o (get_proc ctx s) (\<lambda>x. Done (regs x, s\<lparr>gs_base := ctx, kern_gs_base := ctx\<rparr>))"

definition arch_vmm_map :: "u64 \<Rightarrow> range_t \<Rightarrow> range_t \<Rightarrow> bool \<Rightarrow> sched \<Rightarrow> sched outcome" where
  "arch_vmm_map p virt phys is_user s =
     bind_o (vmm_map_range p virt phys is_user (vm s)) (\<lambda>v. Done (s\<lparr>vm := v\<rparr>))"

definition arch_pmm_alloc :: "u64 \<Rightarrow> sched \<Rightarrow> (range_t \<times> sched) outcome" where
  "arch_pmm_alloc amount s =
     bind_o (call_pmm_alloc amount (vm s)) (\<lambda>(r, v). Done (r, s\<lparr>vm := v\<rparr>))"

definition arch_create_space :: "sched \<Rightarrow> (u64 \<times> sched) outcome" where
  "arch_create_space s = bind_o (vmm_space_create (vm s)) (\<lambda>(t, v). Done (t, s\<lparr>vm := v\<rparr>))"

definition arch_space_destroy :: "u64 \<Rightarrow> sched \<Rightarrow> sched outcome" where
  "arch_space_destroy p s = bind_o (vmm_space_destroy p (vm s)) (\<lambda>v. Done (s\<lparr>vm := v\<rparr>))"

definition arch_kernel_space :: "sched \<Rightarrow> u64" where
  "arch_kernel_space s = vmm_kernel_space (vm s)"

definition arch_vmm_unmap :: "u64 \<Rightarrow> range_t \<Rightarrow> sched \<Rightarrow> sched outcome" where
  "arch_vmm_unmap p virt s = bind_o (vmm_unmap p virt (vm s)) (\<lambda>v. Done (s\<lparr>vm := v\<rparr>))"

definition call_pmm_free :: "range_t \<Rightarrow> sched \<Rightarrow> sched outcome" where
  "call_pmm_free r s =
     bind_o (pmm_free r (vm_pmm (vm s))) (\<lambda>p. Done (s\<lparr>vm := (vm s)\<lparr>vm_pmm := p\<rparr>\<rparr>))"

definition arch_enable_scheduler :: "sched \<Rightarrow> sched" where
  "arch_enable_scheduler s = s\<lparr>is_scheduler := True\<rparr>"

section \<open>Picking the next process\<close>

definition next_pid :: "sched \<Rightarrow> u64 \<times> sched" where
  "next_pid s =
     (let c = (if current_pid s + 1 = vlength (processes s) then - 1 else current_pid s) in
      (c + 1, s\<lparr>current_pid := c + 1\<rparr>))"

text \<open>The \<^verbatim>\<open>while\<close> loop of \<^verbatim>\<open>yield_task\<close>; it does not end when no process is running.\<close>

partial_function (option) pick_next :: "sched \<Rightarrow> (u64 \<times> sched) outcome option" where
  "pick_next s =
     (let (i, s') = next_pid s in
      case bind_o (vec_nth (processes s') i) (\<lambda>p. bind_o (get_proc p s') (\<lambda>x. Done (p, x))) of
        Done (p, x) \<Rightarrow> if state x \<noteq> TASK_RUNNING then pick_next s' else Some (Done (p, s'))
      | Fault e \<Rightarrow> Some (Fault e)
      | Hang \<Rightarrow> Some Hang)"

declare pick_next.simps [code]

definition run_option :: "'a outcome option \<Rightarrow> 'a outcome" where
  "run_option r = (case r of None \<Rightarrow> Hang | Some x \<Rightarrow> x)"

definition yield_task :: "registers \<Rightarrow> sched \<Rightarrow> (registers \<times> sched) outcome" where
  "yield_task r s =
     bind_o (arch_acquire (sched_lock s)) (\<lambda>l.
     let s = s\<lparr>sched_lock := l, tick := tick s + 1\<rparr> in
     bind_o
       (if tick s \<ge> SWITCH_TICK + 1
        then
          let s = s\<lparr>tick := 0\<rparr> in
          bind_o (vec_nth (processes s) (current_pid s)) (\<lambda>cur.
          bind_o (arch_context_save cur r s) (\<lambda>s.
          bind_o (run_option (pick_next s)) (\<lambda>(p, s).
          bind_o (arch_context_switch p s) (\<lambda>(r', s).
          bind_o (get_proc p s) (\<lambda>x.
          Done (r', arch_space_switch (pml x) s))))))
        else Done (r, s))
       (\<lambda>(r', s). Done (r', s\<lparr>sched_lock := arch_release (sched_lock s)\<rparr>)))"

definition force_yield :: "sched \<Rightarrow> sched" where
  "force_yield s = s\<lparr>tick := SWITCH_TICK\<rparr>"

section \<open>Initialisation and new tasks\<close>

text \<open>
  \<open>kp\<close> is the address \<^verbatim>\<open>kcalloc\<close> returned; writing through a null pointer is a fault.
  \<open>can\<close> tells which sizes \<^verbatim>\<open>realloc\<close> can serve; a pointer has 8 bytes.
\<close>

definition sched_init :: "(u64 \<Rightarrow> bool) \<Rightarrow> u64 \<Rightarrow> sched \<Rightarrow> sched outcome" where
  "sched_init can kp s =
     (let s = s\<lparr>processes := vec_init\<rparr> in
      if kp = 0 then Fault Null_deref
      else
        let x = zero_process\<lparr>pid := 0, state := TASK_RUNNING, pml := mmap_phys_to_io (arch_read_space s)\<rparr>;
            s = put_proc kp x s
        in bind_o (vec_push can 8 kp (processes s)) (\<lambda>v.
           let s = arch_enable_scheduler (s\<lparr>processes := v\<rparr>) in
           Done (s\<lparr>sched_is_init := True\<rparr>)))"

definition task_init :: "u64 \<Rightarrow> u64 \<Rightarrow> u64 \<Rightarrow> u64 \<Rightarrow> sched \<Rightarrow> (u64 \<times> sched) outcome" where
  "task_init np kstack space entry s =
     bind_o (arch_acquire (usertask_lock s)) (\<lambda>l.
     let s = s\<lparr>usertask_lock := l\<rparr> in
     if np = 0 then Fault Null_deref
     else
       let x = zero_process\<lparr>pml := space, state := TASK_RUNNING,
                 regs := zero_regs\<lparr>cs := 0x23, ss := 0x1b, rip := entry\<rparr>,
                 syscall_kernel_bstack := kstack,
                 syscall_kernel_stack := kstack + KERNEL_STACK_SIZE\<rparr>
       in bind_o (arch_pmm_alloc KERNEL_STACK_SIZE s) (\<lambda>(r, s).
          let x = x\<lparr>stack := r, mailbox := vec_init\<rparr> in
          kassert (rlength (stack x) \<noteq> 0) (
          bind_o (arch_vmm_map (pml x) \<lparr>rbase = USER_STACK_BASE, rlength = KERNEL_STACK_SIZE\<rparr> (stack x) True s) (\<lambda>s.
          let x = x\<lparr>regs := (regs x)\<lparr>rsp := USER_STACK_BASE + KERNEL_STACK_SIZE,
                    rbp := USER_STACK_BASE, rflags := 0x202\<rparr>\<rparr>;
              s = put_proc np x s
          in Done (np, s\<lparr>usertask_lock := arch_release (usertask_lock s)\<rparr>)))))"

definition sched_push_process5 ::
  "(u64 \<Rightarrow> bool) \<Rightarrow> u64 \<Rightarrow> u64 \<Rightarrow> u64 \<Rightarrow> u64 \<Rightarrow> u64 \<Rightarrow> sched \<Rightarrow> sched outcome" where
  "sched_push_process5 can np arg1 arg2 arg3 arg4 s =
     bind_o (arch_acquire (usertask_lock s)) (\<lambda>l.
     let s = s\<lparr>usertask_lock := l\<rparr> in
     bind_o (get_proc np s) (\<lambda>x.
     let x = x\<lparr>pid := last_pid s,
               regs := (regs x)\<lparr>rdi := arg1, rsi := arg2, rdx := arg3, rcx := arg4\<rparr>\<rparr>;
         s = put_proc np x (s\<lparr>last_pid := last_pid s + 1\<rparr>)
     in bind_o (vec_push can 8 np (processes s)) (\<lambda>v.
        let s = s\<lparr>processes := v\<rparr> in
        Done (s\<lparr>usertask_lock := arch_release (usertask_lock s)\<rparr>))))"

definition sched_push_process1 :: "(u64 \<Rightarrow> bool) \<Rightarrow> u64 \<Rightarrow> sched \<Rightarrow> sched outcome" where
  "sched_push_process1 can np s = sched_push_process5 can np 0 0 0 0 s"

definition sched_push_process2 :: "(u64 \<Rightarrow> bool) \<Rightarrow> u64 \<Rightarrow> u64 \<Rightarrow> sched \<Rightarrow> sched outcome" where
  "sched_push_process2 can np arg1 s = sched_push_process5 can np arg1 0 0 0 s"

definition sched_push_process3 :: "(u64 \<Rightarrow> bool) \<Rightarrow> u64 \<Rightarrow> u64 \<Rightarrow> u64 \<Rightarrow> sched \<Rightarrow> sched outcome" where
  "sched_push_process3 can np arg1 arg2 s = sched_push_process5 can np arg1 arg2 0 0 s"

definition sched_push_process4 ::
  "(u64 \<Rightarrow> bool) \<Rightarrow> u64 \<Rightarrow> u64 \<Rightarrow> u64 \<Rightarrow> u64 \<Rightarrow> sched \<Rightarrow> sched outcome" where
  "sched_push_process4 can np arg1 arg2 arg3 s = sched_push_process5 can np arg1 arg2 arg3 0 s"

section \<open>Queries\<close>

definition sched_current_process :: "sched \<Rightarrow> u64 outcome" where
  "sched_current_process s = vec_nth (processes s) (current_pid s)"

text \<open>The result 0 is the null pointer.\<close>

definition sched_get_by_pid :: "u64 \<Rightarrow> sched \<Rightarrow> u64 outcome" where
  "sched_get_by_pid i s =
     (if vlength (processes s) > i
      then bind_o (vec_nth (processes s) i) (\<lambda>p.
           bind_o (get_proc p s) (\<lambda>x.
           Done (if state x = TASK_RUNNING then p else 0)))
      else Done 0)"

definition is_sched_init :: "sched \<Rightarrow> bool" where
  "is_sched_init s = sched_is_init s"

section \<open>Reaping\<close>

text \<open>One pass of the endless loop of \<^verbatim>\<open>task_slayer\<close> over the process table.\<close>

definition slay_one :: "u64 \<Rightarrow> sched \<Rightarrow> sched outcome" where
  "slay_one p s =
     bind_o (get_proc p s) (\<lambda>x.
     if state x = TASK_WAITINGFORDEATH
     then bind_o (call_pmm_free (stack x) (s\<lparr>kfreed := kfreed s @ [Kernel_stack (syscall_kernel_bstack x)]\<rparr>)) (\<lambda>s.
          bind_o (arch_space_destroy (pml x) s) (\<lambda>s.
          Done (s\<lparr>kfreed := kfreed s @ [Mailbox_buffer p]\<rparr>)))
     else Done s)"

fun slay_loop :: "u64 list \<Rightarrow> sched \<Rightarrow> sched outcome" where
  "slay_loop [] s = Done s"
| "slay_loop (p # ps) s = bind_o (slay_one p s) (slay_loop ps)"

definition task_slayer_pass :: "sched \<Rightarrow> sched outcome" where
  "task_slayer_pass s = slay_loop (items (processes s)) s"

section \<open>The invariant\<close>

definition nproc :: "sched \<Rightarrow> nat" where
  "nproc s = length (items (processes s))"

definition proc :: "sched \<Rightarrow> nat \<Rightarrow> process" where
  "proc s i = the (pheap s (items (processes s) ! i))"

definition running :: "sched \<Rightarrow> nat \<Rightarrow> bool" where
  "running s i \<longleftrightarrow> state (proc s i) = TASK_RUNNING"

text \<open>
  The table holds distinct processes, each with its index as pid and a well-formed mailbox;
  the kernel's own process 0 is running; \<^verbatim>\<open>last_pid\<close> is the next free index.
\<close>

definition table_ok :: "sched \<Rightarrow> bool" where
  "table_ok s \<longleftrightarrow> vec_ok (processes s) \<and> nproc s < 2 ^ 62 \<and> distinct (items (processes s)) \<and>
     0 \<notin> set (items (processes s)) \<and>
     (\<forall>i<nproc s. pheap s (items (processes s) ! i) \<noteq> None \<and> pid (proc s i) = of_nat i \<and>
        vec_ok (mailbox (proc s i))) \<and>
     unat (last_pid s) = nproc s"

definition sched_ok :: "sched \<Rightarrow> bool" where
  "sched_ok s \<longleftrightarrow> table_ok s \<and> 0 < nproc s \<and> running s 0 \<and> unat (current_pid s) < nproc s \<and>
     tick s \<le> SWITCH_TICK \<and> sched_lock s = 0 \<and> usertask_lock s = 0"

lemma vlength_nproc: "table_ok s \<Longrightarrow> unat (vlength (processes s)) = nproc s"
  by (simp add: table_ok_def nproc_def vlength_unat)

lemma get_proc_nth: "table_ok s \<Longrightarrow> i < nproc s \<Longrightarrow> get_proc (items (processes s) ! i) s = Done (proc s i)"
  by (auto simp: table_ok_def get_proc_def proc_def split: option.splits)

lemma vec_nth_proc:
  "table_ok s \<Longrightarrow> unat i < nproc s \<Longrightarrow> vec_nth (processes s) i = Done (items (processes s) ! unat i)"
  using vlength_nproc [of s] by (simp add: vec_nth_def word_less_nat_alt)

text \<open>Operations that leave the table alone.\<close>

lemma table_frame [simp]:
  "table_ok (s\<lparr>current_pid := c\<rparr>) = table_ok s" "table_ok (s\<lparr>tick := t\<rparr>) = table_ok s"
  "table_ok (s\<lparr>sched_lock := l\<rparr>) = table_ok s" "table_ok (s\<lparr>usertask_lock := l\<rparr>) = table_ok s"
  "nproc (s\<lparr>current_pid := c\<rparr>) = nproc s" "nproc (s\<lparr>tick := t\<rparr>) = nproc s"
  "nproc (s\<lparr>sched_lock := l\<rparr>) = nproc s" "nproc (s\<lparr>usertask_lock := l\<rparr>) = nproc s"
  "proc (s\<lparr>current_pid := c\<rparr>) = proc s" "proc (s\<lparr>tick := t\<rparr>) = proc s"
  "proc (s\<lparr>sched_lock := l\<rparr>) = proc s" "proc (s\<lparr>usertask_lock := l\<rparr>) = proc s"
  by (simp_all add: table_ok_def nproc_def proc_def fun_eq_iff)

lemma running_frame [simp]:
  "running (s\<lparr>current_pid := c\<rparr>) = running s" "running (s\<lparr>tick := t\<rparr>) = running s"
  "running (s\<lparr>sched_lock := l\<rparr>) = running s" "running (s\<lparr>usertask_lock := l\<rparr>) = running s"
  by (simp_all add: running_def fun_eq_iff)

text \<open>Changing one process of the table.\<close>

lemma proc_put:
  assumes "table_ok s" "i < nproc s" "j < nproc s"
  shows "proc (put_proc (items (processes s) ! i) x s) j = (if j = i then x else proc s j)"
  using assms by (auto simp: proc_def put_proc_def table_ok_def nproc_def nth_eq_iff_index_eq)

lemma nproc_put [simp]: "nproc (put_proc p x s) = nproc s"
  by (simp add: nproc_def put_proc_def)

lemma table_put:
  assumes "table_ok s" "i < nproc s" "pid x = of_nat i" "vec_ok (mailbox x)"
  shows "table_ok (put_proc (items (processes s) ! i) x s)"
proof -
  have "pheap (put_proc (items (processes s) ! i) x s) (items (processes s) ! j) \<noteq> None"
    if "j < nproc s" for j
    using assms that by (auto simp: put_proc_def table_ok_def)
  moreover have "pid (proc (put_proc (items (processes s) ! i) x s) j) = of_nat j \<and>
      vec_ok (mailbox (proc (put_proc (items (processes s) ! i) x s) j))" if "j < nproc s" for j
    using assms that by (auto simp: proc_put [OF assms(1,2) that] table_ok_def)
  ultimately show ?thesis using assms(1) by (simp add: table_ok_def put_proc_def nproc_def)
qed

section \<open>Round robin\<close>

text \<open>The specification: the first running process after the current one, in cyclic order.\<close>

definition next_running :: "sched \<Rightarrow> nat \<Rightarrow> nat option" where
  "next_running s c = find (running s) (map (\<lambda>j. (c + Suc j) mod nproc s) [0..<nproc s])"

lemma next_pid_eq:
  assumes "table_ok s" "unat (current_pid s) < nproc s"
  shows "next_pid s = (of_nat (Suc (unat (current_pid s)) mod nproc s),
      s\<lparr>current_pid := of_nat (Suc (unat (current_pid s)) mod nproc s)\<rparr>)"
proof -
  have len: "unat (vlength (processes s)) = nproc s" by (rule vlength_nproc [OF assms(1)])
  have "current_pid s < vlength (processes s)" using assms(2) len by (simp add: word_less_nat_alt)
  then have suc: "unat (current_pid s + 1) = Suc (unat (current_pid s))" by (rule unat_Suc_less)
  then have eq: "current_pid s + 1 = of_nat (Suc (unat (current_pid s)))"
    by (rule u64_eq_of_nat)
  show ?thesis
  proof (cases "Suc (unat (current_pid s)) = nproc s")
    case True
    then have "current_pid s + 1 = vlength (processes s)"
      using suc len by (simp add: word_unat_eq_iff)
    with True show ?thesis by (simp add: next_pid_def)
  next
    case False
    then have ne: "(current_pid s + 1 = vlength (processes s)) = False" using suc len by auto
    have m: "Suc (unat (current_pid s)) mod nproc s = Suc (unat (current_pid s))"
      using False assms(2) by simp
    show ?thesis by (simp only: next_pid_def Let_def ne if_False m eq [symmetric])
  qed
qed

lemma pick_next_step:
  assumes ok: "table_ok s" "unat (current_pid s) < nproc s"
  defines "k \<equiv> Suc (unat (current_pid s)) mod nproc s"
  shows "pick_next s =
    (if running s k then Some (Done (items (processes s) ! k, s\<lparr>current_pid := of_nat k\<rparr>))
     else pick_next (s\<lparr>current_pid := of_nat k\<rparr>))"
proof -
  have k: "k < nproc s" using ok(2) by (simp add: k_def)
  then have "unat (of_nat k :: u64) = k" using ok(1) by (simp add: table_ok_def unat_of_nat_less)
  moreover have "get_proc p (s\<lparr>current_pid := c\<rparr>) = get_proc p s" for p c by (simp add: get_proc_def)
  ultimately show ?thesis
    using next_pid_eq [OF ok, folded k_def] vec_nth_proc [OF ok(1), of "of_nat k"]
      get_proc_nth [OF ok(1) k] k
    by (subst pick_next.simps) (simp add: running_def)
qed

lemma pick_next_at:
  "table_ok s \<Longrightarrow> unat (current_pid s) < nproc s \<Longrightarrow>
   (\<And>j. j < m \<Longrightarrow> \<not> running s ((unat (current_pid s) + Suc j) mod nproc s)) \<Longrightarrow>
   running s ((unat (current_pid s) + Suc m) mod nproc s) \<Longrightarrow>
   pick_next s = Some (Done (items (processes s) ! ((unat (current_pid s) + Suc m) mod nproc s),
     s\<lparr>current_pid := of_nat ((unat (current_pid s) + Suc m) mod nproc s)\<rparr>))"
proof (induction m arbitrary: s)
  case 0
  then show ?case by (simp add: pick_next_step)
next
  case (Suc m)
  let ?c = "unat (current_pid s)" and ?n = "nproc s"
  let ?k = "Suc ?c mod ?n"
  let ?s = "s\<lparr>current_pid := of_nat ?k\<rparr>"
  have "?k < ?n" using Suc.prems(2) by simp
  then have k: "unat (of_nat ?k :: u64) = ?k"
    using Suc.prems(1) by (simp add: table_ok_def unat_of_nat_less)
  have shift: "Suc (?k + j) mod ?n = Suc (Suc (?c + j)) mod ?n" for j
    using mod_add_left_eq [of "Suc ?c" ?n "Suc j"] by simp
  have "pick_next s = pick_next ?s"
    using pick_next_step [OF Suc.prems(1,2)] Suc.prems(3) [of 0] by simp
  also have "\<dots> = Some (Done (items (processes ?s) ! ((unat (current_pid ?s) + Suc m) mod nproc ?s),
     ?s\<lparr>current_pid := of_nat ((unat (current_pid ?s) + Suc m) mod nproc ?s)\<rparr>))"
    using Suc.prems Suc.prems(3) [of "Suc j" for j] k \<open>?k < ?n\<close>
    by (intro Suc.IH) (simp_all add: shift)
  finally show ?case using k by (simp add: shift)
qed

lemma find_map_upt:
  assumes "find P (map f [0..<n]) = Some k"
  obtains m where "m < n" "k = f m" "P (f m)" "\<And>j. j < m \<Longrightarrow> \<not> P (f j)"
  using assms unfolding find_Some_iff by auto

lemma pick_next_eq:
  assumes "table_ok s" "unat (current_pid s) < nproc s" "next_running s (unat (current_pid s)) = Some k"
  shows "pick_next s = Some (Done (items (processes s) ! k, s\<lparr>current_pid := of_nat k\<rparr>))"
    "k < nproc s" "running s k"
  using assms(3) unfolding next_running_def
  by (rule find_map_upt; use assms pick_next_at [OF assms(1,2)] in auto)+

lemma next_running_cong:
  assumes "nproc s' = nproc s" "0 < nproc s" "\<And>j. j < nproc s \<Longrightarrow> running s' j = running s j"
  shows "next_running s' c = next_running s c"
  unfolding next_running_def using assms by (intro find_cong) auto

lemma next_running_Some:
  assumes "p < nproc s" "running s p"
  shows "\<exists>k. next_running s c = Some k"
proof -
  have "(c + Suc ((p + nproc s * Suc c - Suc c) mod nproc s)) mod nproc s = p"
  proof -
    have "Suc c \<le> nproc s * Suc c" using assms(1) by (cases "nproc s") auto
    then have "Suc c + (p + nproc s * Suc c - Suc c) = p + nproc s * Suc c" by simp
    moreover have "(p + nproc s * Suc c) mod nproc s = p" using assms(1) by (simp del: mult_Suc_right)
    ultimately have "(Suc c + (p + nproc s * Suc c - Suc c) mod nproc s) mod nproc s = p"
      by (metis mod_add_right_eq)
    then show ?thesis by simp
  qed
  moreover have "(p + nproc s * Suc c - Suc c) mod nproc s < nproc s" using assms(1) by simp
  ultimately have "p \<in> set (map (\<lambda>j. (c + Suc j) mod nproc s) [0..<nproc s])" by force
  with assms(2) show ?thesis
    unfolding next_running_def by (metis find_None_iff option.exhaust)
qed

section \<open>Yielding\<close>

lemma yield_quiet:
  assumes "sched_lock s = 0" "tick s < SWITCH_TICK"
  shows "yield_task r s = Done (r, s\<lparr>tick := tick s + 1\<rparr>)"
proof -
  have "\<not> SWITCH_TICK + 1 \<le> tick s + 1"
    using assms(2) unat_Suc_less [OF assms(2)] by (simp add: SWITCH_TICK_def word_less_nat_alt word_le_nat_alt)
  moreover have "s\<lparr>sched_lock := 1, tick := t, sched_lock := 0\<rparr> = s\<lparr>tick := t\<rparr>" for t
    using assms(1) by (cases s) simp
  ultimately show ?thesis using assms(1) by (simp add: yield_task_def Let_def arch_release_def)
qed

text \<open>The state after a switch from the process \<open>c\<close> to the process \<open>k\<close>.\<close>

definition switched :: "registers \<Rightarrow> nat \<Rightarrow> nat \<Rightarrow> sched \<Rightarrow> sched" where
  "switched r c k s =
     (let s1 = put_proc (items (processes s) ! c) ((proc s c)\<lparr>regs := r\<rparr>) s in
      arch_space_switch (pml (proc s k))
        (s1\<lparr>tick := 0, current_pid := of_nat k, gs_base := items (processes s) ! k,
            kern_gs_base := items (processes s) ! k\<rparr>))"

lemma yield_switch:
  assumes ok: "sched_ok s" and t: "tick s = SWITCH_TICK"
    and k: "next_running s (unat (current_pid s)) = Some k"
  shows "yield_task r s =
    Done (if k = unat (current_pid s) then r else regs (proc s k), switched r (unat (current_pid s)) k s)"
proof -
  let ?c = "unat (current_pid s)"
  let ?cur = "items (processes s) ! ?c" and ?nxt = "items (processes s) ! k"
  let ?s0 = "s\<lparr>sched_lock := 1, tick := 0\<rparr>"
  let ?s1 = "put_proc ?cur ((proc s ?c)\<lparr>regs := r\<rparr>) ?s0"
  have ok': "table_ok s" "?c < nproc s" "sched_lock s = 0"
    using ok by (simp_all add: sched_ok_def)
  have ok0: "table_ok ?s0" "?c < nproc ?s0" using ok' by simp_all
  have x: "pid (proc s ?c) = of_nat ?c" "vec_ok (mailbox (proc s ?c))"
    using ok' by (auto simp: table_ok_def)
  have ok1: "table_ok ?s1"
    using table_put [OF ok0, of "(proc s ?c)\<lparr>regs := r\<rparr>"] x by simp
  have run: "running ?s1 j = running s j" if "j < nproc s" for j
    using proc_put [OF ok0, of j "(proc s ?c)\<lparr>regs := r\<rparr>"] that by (simp add: running_def)
  have "next_running ?s1 ?c = next_running s ?c"
    using run ok'(2) by (intro next_running_cong) simp_all
  then have n1: "next_running ?s1 (unat (current_pid ?s1)) = Some k"
    using k by (simp add: put_proc_def)
  have c1: "unat (current_pid ?s1) < nproc ?s1" using ok'(2) by (simp add: put_proc_def nproc_def)
  note pick = pick_next_eq [OF ok1 c1 n1]
  let ?s2 = "?s1\<lparr>current_pid := of_nat k\<rparr>"
  have kn: "k < nproc s" using pick(2) by simp
  have "get_proc ?nxt ?s2 = Done (if k = ?c then (proc s ?c)\<lparr>regs := r\<rparr> else proc s k)"
    using get_proc_nth [of ?s2 k] ok1 kn proc_put [OF ok0, of k "(proc s ?c)\<lparr>regs := r\<rparr>"]
    by (simp add: put_proc_def nproc_def)
  then obtain x where get: "get_proc ?nxt ?s2 = Done x" and px: "pml x = pml (proc s k)"
    and rx: "regs x = (if k = ?c then r else regs (proc s k))" by auto
  have save: "arch_context_save ?cur r ?s0 = Done ?s1"
    using get_proc_nth [OF ok0] by (simp add: arch_context_save_def)
  have cur: "vec_nth (processes ?s0) (current_pid ?s0) = Done ?cur"
    using vec_nth_proc [OF ok0(1), of "current_pid s"] ok0(2) by simp
  have tick: "(SWITCH_TICK + 1 \<le> tick s + 1) = True" by (simp add: t)
  have fin: "arch_space_switch (pml (proc s k)) (?s2\<lparr>gs_base := ?nxt, kern_gs_base := ?nxt\<rparr>)\<lparr>sched_lock := 0\<rparr> =
      switched r ?c k s"
    using ok'(3) by (cases s) (simp add: switched_def put_proc_def arch_space_switch_def Let_def)
  have get': "get_proc ?nxt (?s2\<lparr>gs_base := ?nxt, kern_gs_base := ?nxt\<rparr>) = get_proc ?nxt ?s2"
    by (simp add: get_proc_def)
  have pm: "items (processes ?s1) = items (processes s)" by (simp add: put_proc_def)
  show ?thesis
    using pick(1) save cur get get' fin ok'(3)
    by (simp add: yield_task_def Let_def tick arch_release_def run_option_def arch_context_switch_def pm
        px rx del: if_split)
qed

lemma table_same:
  assumes "processes s' = processes s" "pheap s' = pheap s" "last_pid s' = last_pid s"
  shows "table_ok s' = table_ok s" "nproc s' = nproc s" "proc s' = proc s" "running s' = running s"
  using assms by (simp_all add: table_ok_def nproc_def proc_def running_def fun_eq_iff)

lemma switched_ok:
  fixes r :: registers
  assumes ok: "sched_ok s" and k: "k < nproc s"
  defines "s' \<equiv> switched r (unat (current_pid s)) k s"
  shows "sched_ok s'" "nproc s' = nproc s" "unat (current_pid s') = k" "tick s' = 0"
    "\<And>j. j < nproc s \<Longrightarrow> running s' j = running s j"
proof -
  let ?c = "unat (current_pid s)"
  let ?x = "(proc s ?c)\<lparr>regs := r\<rparr>"
  let ?s1 = "put_proc (items (processes s) ! ?c) ?x s"
  have ok': "table_ok s" "?c < nproc s" using ok by (simp_all add: sched_ok_def)
  have same: "processes s' = processes ?s1" "pheap s' = pheap ?s1" "last_pid s' = last_pid ?s1"
    by (simp_all add: s'_def switched_def Let_def arch_space_switch_def put_proc_def)
  note eq = table_same [OF same]
  have "pid ?x = of_nat ?c" "vec_ok (mailbox ?x)" using ok' by (auto simp: table_ok_def)
  from table_put [OF ok' this] have table: "table_ok s'" by (simp add: eq)
  show n: "nproc s' = nproc s" by (simp add: eq)
  show run: "running s' j = running s j" if "j < nproc s" for j
    using proc_put [OF ok' that, of ?x] by (simp add: running_def eq)
  have "unat (of_nat k :: u64) = k" using k ok'(1) by (simp add: table_ok_def unat_of_nat_less)
  then show cur: "unat (current_pid s') = k"
    by (simp add: s'_def switched_def Let_def arch_space_switch_def put_proc_def)
  show "tick s' = 0" by (simp add: s'_def switched_def Let_def arch_space_switch_def put_proc_def)
  then show "sched_ok s'"
    using ok k table n run [of 0] cur
    by (simp add: sched_ok_def)
      (simp add: s'_def switched_def Let_def arch_space_switch_def put_proc_def)
qed

section \<open>Fairness\<close>

text \<open>How many processes the scheduler passes before it comes from \<open>c\<close> to \<open>p\<close>.\<close>

definition dist :: "nat \<Rightarrow> nat \<Rightarrow> nat \<Rightarrow> nat" where
  "dist n c p = (if c < p then p - Suc c else p + n - Suc c)"

lemma dist_less: "c < n \<Longrightarrow> p < n \<Longrightarrow> dist n c p < n"
  by (auto simp: dist_def)

lemma dist_hits: "c < n \<Longrightarrow> p < n \<Longrightarrow> (c + Suc (dist n c p)) mod n = p"
  by (auto simp: dist_def)

lemma next_running_nearer:
  assumes "c < nproc s" "p < nproc s" "running s p" "next_running s c = Some k"
  shows "k = p \<or> dist (nproc s) k p < dist (nproc s) c p"
proof -
  let ?n = "nproc s" and ?d = "dist (nproc s) c p"
  from assms(4) obtain m where m: "m < ?n" "k = (c + Suc m) mod ?n"
    "\<And>j. j < m \<Longrightarrow> \<not> running s ((c + Suc j) mod ?n)"
    unfolding next_running_def by (rule find_map_upt) blast
  have "\<not> ?d < m" using m(3) [of ?d] dist_hits [OF assms(1,2)] assms(3) by auto
  then have "m = ?d \<or> m < ?d" by auto
  then show ?thesis
  proof
    assume "m = ?d"
    then show ?thesis using m(2) dist_hits [OF assms(1,2)] by simp
  next
    assume less: "m < ?d"
    have "k = (if c + Suc m < ?n then c + Suc m else c + Suc m - ?n)"
      using m(1,2) assms(1) by (auto simp: mod_if)
    with less assms(1,2) show ?thesis by (auto simp: dist_def split: if_splits)
  qed
qed

text \<open>A run of timer ticks; \<open>f\<close> gives the registers each of them interrupts.\<close>

fun run_ticks :: "(nat \<Rightarrow> registers) \<Rightarrow> nat \<Rightarrow> sched \<Rightarrow> sched outcome" where
  "run_ticks f 0 s = Done s"
| "run_ticks f (Suc n) s =
     bind_o (yield_task (f 0) s) (\<lambda>(r, s'). run_ticks (\<lambda>i. f (Suc i)) n s')"

lemma run_ticks_add:
  "run_ticks f (a + b) s = bind_o (run_ticks f a s) (run_ticks (\<lambda>i. f (i + a)) b)"
proof (induction a arbitrary: f s)
  case (Suc a)
  then show ?case by (cases "yield_task (f 0) s") auto
qed simp

lemma quiet_ticks:
  assumes "sched_lock s = 0" "unat (tick s) + n \<le> 9"
  shows "run_ticks f n s = Done (s\<lparr>tick := tick s + of_nat n\<rparr>)"
  using assms
proof (induction n arbitrary: f s)
  case (Suc n)
  have t: "tick s < SWITCH_TICK" using Suc.prems by (simp add: SWITCH_TICK_def word_less_nat_alt)
  have "unat (tick s + 1) = Suc (unat (tick s))" by (rule unat_Suc_less [OF t])
  then have "run_ticks (\<lambda>i. f (Suc i)) n (s\<lparr>tick := tick s + 1\<rparr>) = Done (s\<lparr>tick := tick s + 1 + of_nat n\<rparr>)"
    using Suc.IH [of "s\<lparr>tick := tick s + 1\<rparr>"] Suc.prems by simp
  then show ?case using yield_quiet [OF Suc.prems(1) t] by (simp add: add.assoc)
qed simp

lemma ten_ticks:
  assumes ok: "sched_ok s" "tick s = 0"
  obtains k s' where "next_running s (unat (current_pid s)) = Some k" "run_ticks f 10 s = Done s'"
    "sched_ok s'" "nproc s' = nproc s" "unat (current_pid s') = k" "tick s' = 0"
    "\<And>j. j < nproc s \<Longrightarrow> running s' j = running s j"
proof -
  let ?s = "s\<lparr>tick := SWITCH_TICK\<rparr>"
  have ok9: "sched_ok ?s" using ok by (simp add: sched_ok_def)
  obtain k where k: "next_running s (unat (current_pid s)) = Some k"
    using next_running_Some [of 0 s] ok by (auto simp: sched_ok_def)
  then have k9: "next_running ?s (unat (current_pid ?s)) = Some k" by (simp add: next_running_def)
  have "run_ticks f 9 s = Done ?s"
    using quiet_ticks [of s 9] ok by (simp add: sched_ok_def SWITCH_TICK_def)
  then have run: "run_ticks f 10 s = Done (switched (f 9) (unat (current_pid s)) k ?s)"
    using run_ticks_add [of f 9 1 s] yield_switch [OF ok9 _ k9, of "f 9"] by simp
  have "table_ok ?s" "unat (current_pid ?s) < nproc ?s" using ok9 by (simp_all add: sched_ok_def)
  from pick_next_eq(2) [OF this k9] have "k < nproc ?s" .
  from switched_ok [where r = "f 9", OF ok9 this] that [OF k run] show thesis by simp
qed

lemma reaches:
  "sched_ok s \<Longrightarrow> tick s = 0 \<Longrightarrow> p < nproc s \<Longrightarrow> running s p \<Longrightarrow>
   \<exists>m s'. 0 < m \<and> m \<le> Suc (dist (nproc s) (unat (current_pid s)) p) \<and>
     run_ticks f (10 * m) s = Done s' \<and> unat (current_pid s') = p \<and> sched_ok s'"
proof (induction "dist (nproc s) (unat (current_pid s)) p" arbitrary: f s rule: less_induct)
  case less
  let ?c = "unat (current_pid s)" and ?n = "nproc s"
  have c: "?c < ?n" using less.prems(1) by (simp add: sched_ok_def)
  obtain k s1 where k: "next_running s ?c = Some k" and run: "run_ticks f 10 s = Done s1"
    and s1: "sched_ok s1" "nproc s1 = ?n" "unat (current_pid s1) = k" "tick s1 = 0"
    "\<And>j. j < ?n \<Longrightarrow> running s1 j = running s j"
    using ten_ticks [OF less.prems(1,2)] by metis
  show ?case
  proof (cases "k = p")
    case True
    then show ?thesis using run s1 by (intro exI [of _ 1] exI [of _ s1]) simp
  next
    case False
    then have "dist ?n k p < dist ?n ?c p"
      using next_running_nearer [OF c less.prems(3,4) k] by simp
    moreover from this less.hyps [of s1 "\<lambda>i. f (i + 10)"] s1 less.prems(3,4) obtain m s' where
      m: "m \<le> Suc (dist ?n k p)" "run_ticks (\<lambda>i. f (i + 10)) (10 * m) s1 = Done s'"
      "unat (current_pid s') = p" "sched_ok s'" by auto
    moreover have "run_ticks f (10 * Suc m) s = Done s'"
      using run_ticks_add [of f 10 "10 * m" s] run m(2) by simp
    ultimately show ?thesis by (intro exI [of _ "Suc m"] exI [of _ s']) simp
  qed
qed

section \<open>Start and new processes\<close>

lemma sched_init_ok:
  assumes "kp \<noteq> 0" "\<forall>n. can n" "last_pid s = 1" "current_pid s = 0" "tick s = 0"
    and "sched_lock s = 0" "usertask_lock s = 0"
  shows "\<exists>s'. sched_init can kp s = Done s' \<and> sched_ok s' \<and> nproc s' = 1 \<and> is_sched_init s' \<and>
    is_scheduler s' \<and> pml (proc s' 0) = mmap_phys_to_io (arch_read_space s) \<and>
    (\<exists>x. pheap s' = (pheap s)(kp \<mapsto> x) \<and> vec_ok (mailbox x))"
proof -
  obtain v where v: "vec_push can 8 kp vec_init = Done v" "items v = [kp]" "vec_ok v"
    using vec_push_Done [OF vec_ok_init, of can 8 kp] assms(2) by (auto simp: vec_init_def)
  then show ?thesis
    using assms
    by (auto simp: sched_init_def Let_def put_proc_def sched_ok_def table_ok_def nproc_def proc_def
        running_def arch_enable_scheduler_def is_sched_init_def zero_process_def SWITCH_TICK_def
        arch_read_space_def)
qed

text \<open>The process table after a push.\<close>

lemma push_process_ok:
  assumes ok: "sched_ok s" and np: "pheap s np = Some x" "np \<noteq> 0" "np \<notin> set (items (processes s))"
    and x: "vec_ok (mailbox x)" and v: "vec_push can 8 np (processes s) = Done v"
    and n: "Suc (nproc s) < 2 ^ 62"
  shows "\<exists>s'. sched_push_process5 can np a1 a2 a3 a4 s = Done s' \<and> sched_ok s' \<and>
    nproc s' = Suc (nproc s) \<and> items (processes s') = items (processes s) @ [np] \<and>
    pheap s' = (pheap s)(np \<mapsto> x\<lparr>pid := of_nat (nproc s),
      regs := (regs x)\<lparr>rdi := a1, rsi := a2, rdx := a3, rcx := a4\<rparr>\<rparr>) \<and>
    proc s' (nproc s) = x\<lparr>pid := of_nat (nproc s),
      regs := (regs x)\<lparr>rdi := a1, rsi := a2, rdx := a3, rcx := a4\<rparr>\<rparr> \<and>
    (\<forall>j<nproc s. proc s' j = proc s j) \<and> current_pid s' = current_pid s"
proof -
  have t: "table_ok s" "usertask_lock s = 0" "unat (last_pid s) = nproc s"
    using ok by (simp_all add: sched_ok_def table_ok_def)
  have v: "vec_push can 8 np (processes s) = Done v" "items v = items (processes s) @ [np]" "vec_ok v"
    using vec_push_ok [OF _ v] t(1) v by (auto simp: table_ok_def)
  let ?x = "x\<lparr>pid := last_pid s, regs := (regs x)\<lparr>rdi := a1, rsi := a2, rdx := a3, rcx := a4\<rparr>\<rparr>"
  let ?s' = "s\<lparr>last_pid := last_pid s + 1, pheap := (pheap s)(np \<mapsto> ?x), processes := v\<rparr>"
  have run: "sched_push_process5 can np a1 a2 a3 a4 s = Done ?s'"
    using t(2) np(1) v(1)
    by (cases s) (simp add: sched_push_process5_def Let_def put_proc_def get_proc_def arch_release_def)
  have n': "nproc ?s' = Suc (nproc s)" by (simp add: nproc_def v)
  have old: "proc ?s' j = proc s j" if "j < nproc s" for j
    using that np(3) by (auto simp: proc_def nproc_def v nth_append)
  have new: "proc ?s' (nproc s) = ?x" by (simp add: proc_def nproc_def v)
  have l: "last_pid s = of_nat (nproc s)" using t(3) by (rule u64_eq_of_nat)
  have l': "unat (last_pid s + 1) = Suc (nproc s)"
    using t(3) n by (simp add: unat_word_ariths)
  have "pheap ?s' (items (processes ?s') ! i) \<noteq> None \<and> pid (proc ?s' i) = of_nat i \<and>
      vec_ok (mailbox (proc ?s' i))" if "i < Suc (nproc s)" for i
  proof (cases "i = nproc s")
    case True
    then show ?thesis using new l x by (simp add: nproc_def v)
  next
    case False
    then have "i < nproc s" using that by simp
    then show ?thesis using old t(1) by (auto simp: table_ok_def nproc_def v nth_append)
  qed
  then have "table_ok ?s'"
    using t(1) np(2,3) v n l' n' by (simp add: table_ok_def)
  moreover have "running ?s' 0" using ok old by (simp add: sched_ok_def running_def)
  ultimately have "sched_ok ?s'" using ok n' by (simp add: sched_ok_def)
  then show ?thesis using run n' old new l v(2) by (intro exI [of _ ?s']) simp
qed

section \<open>Reaping\<close>

definition dying :: "sched \<Rightarrow> u64 \<Rightarrow> bool" where
  "dying s p \<longleftrightarrow> (\<exists>x. pheap s p = Some x \<and> state x = TASK_WAITINGFORDEATH)"

definition corpse_blocks :: "sched \<Rightarrow> u64 list \<Rightarrow> block list" where
  "corpse_blocks s ps =
     concat (map (\<lambda>p. [Kernel_stack (syscall_kernel_bstack (the (pheap s p))), Mailbox_buffer p])
       (filter (dying s) ps))"

lemma slay_one_Done:
  assumes "pheap s p \<noteq> None" "pmm_lock (vm_pmm (vm s)) = 0"
  shows "\<exists>s'. slay_one p s = Done s' \<and> pheap s' = pheap s \<and> processes s' = processes s \<and>
    pmm_lock (vm_pmm (vm s')) = 0 \<and> kfreed s' = kfreed s @ corpse_blocks s [p]"
proof -
  obtain x where x: "pheap s p = Some x" using assms(1) by blast
  show ?thesis
  proof (cases "state x = TASK_WAITINGFORDEATH")
    case True
    let ?pm = "pmm_range_unused (stack x) (vm_pmm (vm s))"
    have "pmm_free (stack x) (vm_pmm (vm s)) = Done ?pm" using assms(2) by (rule pmm_free_eq)
    moreover have "pmm_free \<lparr>rbase = mmap_io_to_phys (pml x), rlength = PAGE_SIZE\<rparr> ?pm =
        Done (pmm_range_unused \<lparr>rbase = mmap_io_to_phys (pml x), rlength = PAGE_SIZE\<rparr> ?pm)"
      using assms(2) by (intro pmm_free_eq) simp
    ultimately show ?thesis
      using x True assms(2)
      by (simp add: slay_one_def get_proc_def call_pmm_free_def arch_space_destroy_def
          vmm_space_destroy_def clear_table_def corpse_blocks_def dying_def Let_def)
  next
    case False
    then show ?thesis
      using x assms(2) by (auto simp: slay_one_def get_proc_def corpse_blocks_def dying_def)
  qed
qed

lemma slay_loop_Done:
  "(\<And>p. p \<in> set ps \<Longrightarrow> pheap s p \<noteq> None) \<Longrightarrow> pmm_lock (vm_pmm (vm s)) = 0 \<Longrightarrow>
   \<exists>s'. slay_loop ps s = Done s' \<and> pheap s' = pheap s \<and> processes s' = processes s \<and>
     pmm_lock (vm_pmm (vm s')) = 0 \<and> kfreed s' = kfreed s @ corpse_blocks s ps"
proof (induction ps arbitrary: s)
  case Nil
  then show ?case by (simp add: corpse_blocks_def)
next
  case (Cons p ps)
  then obtain s1 where s1: "slay_one p s = Done s1" "pheap s1 = pheap s" "processes s1 = processes s"
    "pmm_lock (vm_pmm (vm s1)) = 0" "kfreed s1 = kfreed s @ corpse_blocks s [p]"
    using slay_one_Done [of s p] by auto
  have "dying s1 = dying s" using s1(2) by (simp add: dying_def fun_eq_iff)
  then have "corpse_blocks s1 ps = corpse_blocks s ps" using s1(2) by (simp add: corpse_blocks_def)
  moreover have "corpse_blocks s (p # ps) = corpse_blocks s [p] @ corpse_blocks s ps"
    by (simp add: corpse_blocks_def)
  ultimately show ?case using Cons.IH [of s1] Cons.prems s1 by auto
qed

section \<open>Properties\<close>

text \<open>The kernel process and one user process in the given state, about to be switched.\<close>

definition demo_sched :: "TASK_STATE \<Rightarrow> u64 \<Rightarrow> sched" where
  "demo_sched st t =
     \<lparr>processes = \<lparr>items = [16, 32], capacity = 2\<rparr>,
      pheap = [16 \<mapsto> zero_process, 32 \<mapsto> zero_process\<lparr>pid := 1, state := st, pml := 0xffff800000002000,
        regs := zero_regs\<lparr>rip := 0x400000\<rparr>, syscall_kernel_bstack := 0x5000\<rparr>],
      tick = t, sched_lock = 0, usertask_lock = 0, current_pid = 0, last_pid = 2,
      sched_is_init = True, is_scheduler = True, gs_base = 0, kern_gs_base = 0, kfreed = [],
      ipc_mem = (\<lambda>_. \<lparr>ipc_sender = 0, ipc_receiver = 0, ipc_data = 0\<rparr>), console = [], vm = small_vmm\<rparr>"

lemma demo_ok:
  assumes "t \<le> 9"
  shows "sched_ok (demo_sched st t)"
proof -
  have "vec_ok \<lparr>items = [16, 32 :: u64], capacity = 2\<rparr>"
    by (auto simp: vec_ok_def intro!: exI [of _ 1])
  then show ?thesis
    using assms
    by (simp add: sched_ok_def table_ok_def demo_sched_def nproc_def proc_def running_def zero_process_def
        SWITCH_TICK_def less_Suc_eq all_conj_distrib)
qed

text \<open>
  C9: below the switch tick a timer interrupt only counts; at the switch tick the registers of
  the interrupted process are saved, the next running process in cyclic order is loaded with its
  address space, and the counter restarts. Either way the call returns, releases the lock and
  keeps the invariant of the process table.
\<close>

theorem yield_round_robin:
  assumes "sched_ok s"
  shows "(tick s < SWITCH_TICK \<longrightarrow>
      yield_task r s = Done (r, s\<lparr>tick := tick s + 1\<rparr>) \<and> sched_ok (s\<lparr>tick := tick s + 1\<rparr>)) \<and>
    (tick s = SWITCH_TICK \<longrightarrow>
      (\<exists>k. next_running s (unat (current_pid s)) = Some k \<and>
         yield_task r s =
           Done (if k = unat (current_pid s) then r else regs (proc s k),
                 switched r (unat (current_pid s)) k s) \<and>
         sched_ok (switched r (unat (current_pid s)) k s) \<and>
         proc (switched r (unat (current_pid s)) k s) (unat (current_pid s)) =
           (proc s (unat (current_pid s)))\<lparr>regs := r\<rparr> \<and>
         cr3 (vm (switched r (unat (current_pid s)) k s)) = mmap_io_to_phys (pml (proc s k))))"
proof (intro conjI impI)
  assume "tick s < SWITCH_TICK"
  then show "yield_task r s = Done (r, s\<lparr>tick := tick s + 1\<rparr>)" "sched_ok (s\<lparr>tick := tick s + 1\<rparr>)"
    using assms word_Suc_le [of "tick s" SWITCH_TICK] by (simp_all add: yield_quiet sched_ok_def)
next
  assume t: "tick s = SWITCH_TICK"
  let ?c = "unat (current_pid s)"
  have ok: "table_ok s" "?c < nproc s" using assms by (simp_all add: sched_ok_def)
  obtain k where k: "next_running s ?c = Some k"
    using next_running_Some [of 0 s] assms by (auto simp: sched_ok_def)
  have "proc (switched r ?c k s) ?c = (proc s ?c)\<lparr>regs := r\<rparr>"
    using ok by (simp add: proc_def switched_def put_proc_def arch_space_switch_def Let_def)
  moreover have "cr3 (vm (switched r ?c k s)) = mmap_io_to_phys (pml (proc s k))"
    by (simp add: switched_def arch_space_switch_def Let_def)
  ultimately show "\<exists>k. next_running s ?c = Some k \<and>
      yield_task r s = Done (if k = ?c then r else regs (proc s k), switched r ?c k s) \<and>
      sched_ok (switched r ?c k s) \<and> proc (switched r ?c k s) ?c = (proc s ?c)\<lparr>regs := r\<rparr> \<and>
      cr3 (vm (switched r ?c k s)) = mmap_io_to_phys (pml (proc s k))"
    using k yield_switch [OF assms t k] switched_ok(1) [OF assms pick_next_eq(2) [OF ok k]] by blast
qed

theorem yield_round_robin_witness:
  "\<exists>s'. yield_task zero_regs (demo_sched TASK_RUNNING 9) = Done (zero_regs\<lparr>rip := 0x400000\<rparr>, s') \<and>
     sched_ok s' \<and> cr3 (vm s') = 0x2000"
proof -
  have "next_running (demo_sched TASK_RUNNING 9) 0 = Some 1" by code_simp
  then show ?thesis
    using yield_round_robin [OF demo_ok [of 9 TASK_RUNNING], of zero_regs]
    by (auto simp: demo_sched_def SWITCH_TICK_def proc_def mmap_io_to_phys_def MMAP_IO_BASE_def)
qed

text \<open>
  C8: the scheduler is fair: a running process becomes the current one within as many switches
  (of ten ticks each) as there are processes, whatever the interrupted registers are.
\<close>

theorem sched_fair:
  assumes "sched_ok s" "tick s = 0" "p < nproc s" "running s p"
  shows "\<exists>m s'. 0 < m \<and> m \<le> nproc s \<and> run_ticks f (10 * m) s = Done s' \<and>
    unat (current_pid s') = p"
proof -
  have "unat (current_pid s) < nproc s" using assms(1) by (simp add: sched_ok_def)
  from dist_less [OF this assms(3)] reaches [OF assms, of f] show ?thesis by force
qed

theorem sched_fair_witness:
  "\<exists>m s'. 0 < m \<and> m \<le> 2 \<and> run_ticks (\<lambda>_. zero_regs) (10 * m) (demo_sched TASK_RUNNING 0) = Done s' \<and>
     unat (current_pid s') = 1"
proof -
  have n: "nproc (demo_sched TASK_RUNNING 0) = 2" "running (demo_sched TASK_RUNNING 0) 1"
    "tick (demo_sched TASK_RUNNING 0) = 0"
    by (simp_all add: demo_sched_def nproc_def running_def proc_def)
  from sched_fair [OF demo_ok [of 0 TASK_RUNNING], of 1 "\<lambda>_. zero_regs"] show ?thesis
    using n by simp
qed

text \<open>
  C35: \<^verbatim>\<open>task_slayer\<close> never takes a dead process out of the table or changes its state: every
  pass returns and frees the kernel stack and the mailbox of each dying process again, so two
  passes free each of them twice.
\<close>

theorem task_slayer_frees_again:
  assumes "table_ok s" "pmm_lock (vm_pmm (vm s)) = 0"
  shows "\<exists>s' s''. task_slayer_pass s = Done s' \<and> task_slayer_pass s' = Done s'' \<and>
    kfreed s' = kfreed s @ corpse_blocks s (items (processes s)) \<and>
    kfreed s'' = kfreed s @ corpse_blocks s (items (processes s)) @ corpse_blocks s (items (processes s))"
proof -
  have heap: "pheap s p \<noteq> None" if "p \<in> set (items (processes s))" for p
    using assms(1) that by (auto simp: table_ok_def nproc_def in_set_conv_nth)
  from slay_loop_Done [OF heap assms(2)] obtain s' where
    s': "task_slayer_pass s = Done s'" "pheap s' = pheap s" "processes s' = processes s"
    "pmm_lock (vm_pmm (vm s')) = 0" "kfreed s' = kfreed s @ corpse_blocks s (items (processes s))"
    by (auto simp: task_slayer_pass_def)
  from slay_loop_Done [of "items (processes s)" s'] heap s' obtain s'' where
    "task_slayer_pass s' = Done s''" "kfreed s'' = kfreed s' @ corpse_blocks s' (items (processes s))"
    by (auto simp: task_slayer_pass_def)
  moreover have "dying s' = dying s" using s'(2) by (simp add: dying_def fun_eq_iff)
  then have "corpse_blocks s' (items (processes s)) = corpse_blocks s (items (processes s))"
    using s'(2) by (simp add: corpse_blocks_def)
  ultimately show ?thesis using s' by simp
qed

theorem task_slayer_frees_again_witness:
  "\<exists>s' s''. task_slayer_pass (demo_sched TASK_WAITINGFORDEATH 0) = Done s' \<and>
     task_slayer_pass s' = Done s'' \<and>
     kfreed s'' = [Kernel_stack 0x5000, Mailbox_buffer 32, Kernel_stack 0x5000, Mailbox_buffer 32]"
proof -
  have "table_ok (demo_sched TASK_WAITINGFORDEATH 0)"
    using demo_ok [of 0 TASK_WAITINGFORDEATH] by (simp add: sched_ok_def)
  from task_slayer_frees_again [OF this] show ?thesis
    by (auto simp: demo_sched_def small_vmm_def small_pmm_def corpse_blocks_def dying_def zero_process_def)
qed

end
