(* ===== verification/Navy_Syscall.thy ===== *)
theory Navy_Syscall
  imports Navy_Sched
begin

text \<open>
  The system calls of \<^verbatim>\<open>kernel/syscall.c\<close>, the user-side stubs of \<^verbatim>\<open>libs/ansi/unistd.c\<close>,
  \<^verbatim>\<open>libs/ansi/stdlib.c\<close> and \<^verbatim>\<open>libs/navy/ipc.c\<close>, and the kernel as a step relation: timer
  ticks, system calls of the current process, new tasks. A handler either returns a value or
  spins in a loop that only a timer interrupt leaves; \<open>Spins\<close> carries the state it spins in.
  The messages user code points to are \<open>ipc_mem\<close>, a store from addresses to \<^verbatim>\<open>ipc_t\<close>.
\<close>

section \<open>Handlers\<close>

datatype sysresult = Returns u64 sched | Spins sched

definition syscall_exit :: "registers \<Rightarrow> sched \<Rightarrow> sysresult outcome" where
  "syscall_exit r s =
     bind_o (sched_current_process s) (\<lambda>cur.
     bind_o (get_proc cur s) (\<lambda>x.
     Done (Spins (put_proc cur (x\<lparr>return_value := ucast (rbx r), state := TASK_WAITINGFORDEATH\<rparr>) s))))"

definition syscall_log :: "registers \<Rightarrow> sched \<Rightarrow> sysresult outcome" where
  "syscall_log r s = Done (Returns 0 (s\<lparr>console := console s @ [rbx r]\<rparr>))"

definition syscall_getpid :: "registers \<Rightarrow> sched \<Rightarrow> sysresult outcome" where
  "syscall_getpid r s =
     bind_o (sched_current_process s) (\<lambda>cur. bind_o (get_proc cur s) (\<lambda>x. Done (Returns (pid x) s)))"

text \<open>\<^verbatim>\<open>sizeof(ipc_t)\<close> is 24. The receiver 0 of the search is the null pointer.\<close>

definition syscall_ipcsend :: "(u64 \<Rightarrow> bool) \<Rightarrow> registers \<Rightarrow> sched \<Rightarrow> sysresult outcome" where
  "syscall_ipcsend can r s =
     bind_o (sched_current_process s) (\<lambda>cur.
     bind_o (get_proc cur s) (\<lambda>x.
     let msg = (ipc_mem s (rbx r))\<lparr>ipc_sender := pid x\<rparr>;
         s = s\<lparr>ipc_mem := (ipc_mem s)(rbx r := msg)\<rparr>
     in bind_o (sched_get_by_pid (ipc_receiver msg) s) (\<lambda>proc.
        kassert (proc \<noteq> 0) (
        bind_o (get_proc proc s) (\<lambda>y.
        bind_o (vec_push can 24 msg (mailbox y)) (\<lambda>v.
        Done (Returns 0 (put_proc proc (y\<lparr>mailbox := v\<rparr>) s))))))))"

definition receive :: "registers \<Rightarrow> u64 \<Rightarrow> process \<Rightarrow> sched \<Rightarrow> sysresult outcome" where
  "receive r cur x s =
     bind_o (vec_pop (mailbox x)) (\<lambda>(msg, v).
     Done (Returns 0 (put_proc cur (x\<lparr>mailbox := v\<rparr>) (s\<lparr>ipc_mem := (ipc_mem s)(rbx r := msg)\<rparr>))))"

definition syscall_ipcrcv_sync :: "registers \<Rightarrow> sched \<Rightarrow> sysresult outcome" where
  "syscall_ipcrcv_sync r s =
     bind_o (sched_current_process s) (\<lambda>cur.
     bind_o (get_proc cur s) (\<lambda>x.
     if vlength (mailbox x) = 0 then Done (Spins (force_yield s)) else receive r cur x s))"

definition syscall_ipcrcv_oneshot :: "registers \<Rightarrow> sched \<Rightarrow> sysresult outcome" where
  "syscall_ipcrcv_oneshot r s =
     bind_o (sched_current_process s) (\<lambda>cur.
     bind_o (get_proc cur s) (\<lambda>x.
     if vlength (mailbox x) \<noteq> 0 then receive r cur x s else Done (Returns 0 s)))"

section \<open>The call numbers and the table\<close>

definition SYS_IPC_SEND :: u64 where "SYS_IPC_SEND = 0"
definition SYS_IPC_RCV_SYNC :: u64 where "SYS_IPC_RCV_SYNC = 1"
definition SYS_IPC_RCV_ONESHOT :: u64 where "SYS_IPC_RCV_ONESHOT = 2"
definition SYS_LOG :: u64 where "SYS_LOG = 3"
definition SYS_ALLOC :: u64 where "SYS_ALLOC = 4"
definition SYS_FREE :: u64 where "SYS_FREE = 5"
definition SYS_REALLOC :: u64 where "SYS_REALLOC = 6"
definition SYS_EXIT :: u64 where "SYS_EXIT = 7"
definition SYS_GETPID :: u64 where "SYS_GETPID = 8"

lemmas sys_numbers = SYS_IPC_SEND_def SYS_IPC_RCV_SYNC_def SYS_IPC_RCV_ONESHOT_def SYS_LOG_def
  SYS_ALLOC_def SYS_FREE_def SYS_REALLOC_def SYS_EXIT_def SYS_GETPID_def

text \<open>
  The array has nine slots, of which the designated initialisers leave three null; an index
  beyond it reads whatever follows the array.
\<close>

definition syscall_matrix ::
  "(u64 \<Rightarrow> bool) \<Rightarrow> u64 \<Rightarrow> (registers \<Rightarrow> sched \<Rightarrow> sysresult outcome) outcome" where
  "syscall_matrix can i =
     (if i = SYS_IPC_SEND then Done (syscall_ipcsend can)
      else if i = SYS_IPC_RCV_SYNC then Done syscall_ipcrcv_sync
      else if i = SYS_IPC_RCV_ONESHOT then Done syscall_ipcrcv_oneshot
      else if i = SYS_LOG then Done syscall_log
      else if i = SYS_EXIT then Done syscall_exit
      else if i = SYS_GETPID then Done syscall_getpid
      else if i < SYS_GETPID then Fault Null_call
      else Fault Out_of_bounds)"

definition syscall_handler :: "(u64 \<Rightarrow> bool) \<Rightarrow> registers \<Rightarrow> sched \<Rightarrow> sysresult outcome" where
  "syscall_handler can r s = bind_o (syscall_matrix can (rax r)) (\<lambda>f. f r s)"

section \<open>The user side\<close>

text \<open>The registers with which the \<^verbatim>\<open>syscall\<close> instruction is executed.\<close>

definition syscall5 :: "u64 \<Rightarrow> u64 \<Rightarrow> u64 \<Rightarrow> u64 \<Rightarrow> u64 \<Rightarrow> registers \<Rightarrow> registers" where
  "syscall5 syscall_id arg1 arg2 arg3 arg4 r =
     r\<lparr>rax := syscall_id, rbx := arg1, rdx := arg2, rsi := arg3, rdi := arg4\<rparr>"

definition syscall1 :: "u64 \<Rightarrow> registers \<Rightarrow> registers" where
  "syscall1 syscall_id = syscall5 syscall_id 0 0 0 0"

definition syscall2 :: "u64 \<Rightarrow> u64 \<Rightarrow> registers \<Rightarrow> registers" where
  "syscall2 syscall_id arg1 = syscall5 syscall_id arg1 0 0 0"

definition syscall3 :: "u64 \<Rightarrow> u64 \<Rightarrow> u64 \<Rightarrow> registers \<Rightarrow> registers" where
  "syscall3 syscall_id arg1 arg2 = syscall5 syscall_id arg1 arg2 0 0"

definition syscall4 :: "u64 \<Rightarrow> u64 \<Rightarrow> u64 \<Rightarrow> u64 \<Rightarrow> registers \<Rightarrow> registers" where
  "syscall4 syscall_id arg1 arg2 arg3 = syscall5 syscall_id arg1 arg2 arg3 0"

definition sys_log :: "u64 \<Rightarrow> registers \<Rightarrow> registers" where
  "sys_log str = syscall2 SYS_LOG str"

definition getpid :: "registers \<Rightarrow> registers" where
  "getpid = syscall1 SYS_GETPID"

definition ipc_send :: "u64 \<Rightarrow> registers \<Rightarrow> registers" where
  "ipc_send p = syscall2 SYS_IPC_SEND p"

definition ipc_rcv_sync :: "u64 \<Rightarrow> registers \<Rightarrow> registers" where
  "ipc_rcv_sync p = syscall2 SYS_IPC_RCV_SYNC p"

definition ipc_rcv_oneshot :: "u64 \<Rightarrow> registers \<Rightarrow> registers" where
  "ipc_rcv_oneshot p = syscall2 SYS_IPC_RCV_ONESHOT p"

definition exit_user :: "u64 \<Rightarrow> registers \<Rightarrow> registers" where
  "exit_user status = syscall2 SYS_EXIT status"

definition malloc_user :: "u64 \<Rightarrow> registers \<Rightarrow> registers" where
  "malloc_user n = syscall2 SYS_ALLOC n"

definition free_user :: "u64 \<Rightarrow> registers \<Rightarrow> registers" where
  "free_user p = syscall2 SYS_FREE p"

definition realloc_user :: "u64 \<Rightarrow> u64 \<Rightarrow> registers \<Rightarrow> registers" where
  "realloc_user p n = syscall3 SYS_REALLOC p n"

lemmas user_stubs = syscall1_def syscall2_def syscall3_def syscall4_def syscall5_def sys_log_def
  getpid_def ipc_send_def ipc_rcv_sync_def ipc_rcv_oneshot_def exit_user_def malloc_user_def
  free_user_def realloc_user_def

section \<open>The kernel as a step relation\<close>

text \<open>
  One step: a timer tick, a system call of a user process (which returns or starts to spin), a
  task created, a task pushed into the table. Process objects are only created at addresses
  that hold none.
\<close>

inductive kstep :: "(u64 \<Rightarrow> bool) \<Rightarrow> sched \<Rightarrow> sched \<Rightarrow> bool" for can where
  timer: "yield_task r s = Done (r', s') \<Longrightarrow> kstep can s s'"
| call: "current_pid s \<noteq> 0 \<Longrightarrow> syscall_handler can r s = Done (Returns v s') \<Longrightarrow> kstep can s s'"
| spin: "current_pid s \<noteq> 0 \<Longrightarrow> syscall_handler can r s = Done (Spins s') \<Longrightarrow> kstep can s s'"
| create: "pheap s np = None \<Longrightarrow> task_init np kstack space entry s = Done (p, s') \<Longrightarrow> kstep can s s'"
| push: "pheap s np = Some x \<Longrightarrow> np \<notin> set (items (processes s)) \<Longrightarrow> Suc (nproc s) < 2 ^ 62 \<Longrightarrow>
    sched_push_process5 can np a1 a2 a3 a4 s = Done s' \<Longrightarrow> kstep can s s'"

inductive reachable :: "(u64 \<Rightarrow> bool) \<Rightarrow> sched \<Rightarrow> sched \<Rightarrow> bool" for can where
  start: "reachable can s s"
| step: "reachable can s s1 \<Longrightarrow> kstep can s1 s2 \<Longrightarrow> reachable can s s2"

inductive_cases kstepE: "kstep can s s'"

section \<open>The kernel invariant\<close>

definition kernel_ok :: "sched \<Rightarrow> bool" where
  "kernel_ok s \<longleftrightarrow> sched_ok s \<and> pheap s 0 = None \<and>
     (\<forall>p x. pheap s p = Some x \<longrightarrow> vec_ok (mailbox x))"

lemma kernel_ok_sched: "kernel_ok s \<Longrightarrow> sched_ok s"
  by (simp add: kernel_ok_def)

lemma current_proc:
  assumes "sched_ok s"
  shows "sched_current_process s = Done (items (processes s) ! unat (current_pid s))"
    "get_proc (items (processes s) ! unat (current_pid s)) s = Done (proc s (unat (current_pid s)))"
proof -
  have "table_ok s" "unat (current_pid s) < nproc s" using assms by (simp_all add: sched_ok_def)
  from vec_nth_proc [OF this] get_proc_nth [OF this] show
    "sched_current_process s = Done (items (processes s) ! unat (current_pid s))"
    "get_proc (items (processes s) ! unat (current_pid s)) s = Done (proc s (unat (current_pid s)))"
    by (simp_all add: sched_current_process_def)
qed

text \<open>Replacing a process of the table by one with the same pid.\<close>

lemma sched_put:
  assumes "sched_ok s" "i < nproc s" "pid x = of_nat i" "vec_ok (mailbox x)"
    "i = 0 \<Longrightarrow> state x = TASK_RUNNING"
  shows "sched_ok (put_proc (items (processes s) ! i) x s)"
proof -
  have t: "table_ok s" "0 < nproc s" "running s 0" using assms(1) by (simp_all add: sched_ok_def)
  have "running (put_proc (items (processes s) ! i) x s) 0"
    using proc_put [OF t(1) assms(2) t(2), of x] t(3) assms(5) by (auto simp: running_def)
  then show ?thesis
    using table_put [OF t(1) assms(2-4)] assms(1) by (simp add: sched_ok_def) (simp add: put_proc_def)
qed

lemma kernel_put:
  assumes "kernel_ok s" "i < nproc s" "pid x = of_nat i" "vec_ok (mailbox x)"
    "i = 0 \<Longrightarrow> state x = TASK_RUNNING"
  shows "kernel_ok (put_proc (items (processes s) ! i) x s)"
proof -
  have "items (processes s) ! i \<noteq> 0"
    using assms(1,2) by (auto simp: kernel_ok_def sched_ok_def table_ok_def nproc_def dest: nth_mem)
  then show ?thesis
    using assms sched_put [OF kernel_ok_sched [OF assms(1)] assms(2-5)]
    by (auto simp: kernel_ok_def) (auto simp: put_proc_def split: if_splits)
qed

lemma kernel_ok_frame [simp]:
  "kernel_ok (s\<lparr>ipc_mem := m\<rparr>) = kernel_ok s" "kernel_ok (s\<lparr>console := c\<rparr>) = kernel_ok s"
  "sched_ok (s\<lparr>ipc_mem := m\<rparr>) = sched_ok s" "sched_ok (s\<lparr>console := c\<rparr>) = sched_ok s"
  "proc (s\<lparr>ipc_mem := m\<rparr>) = proc s" "nproc (s\<lparr>ipc_mem := m\<rparr>) = nproc s"
  "table_ok (s\<lparr>ipc_mem := m\<rparr>) = table_ok s" "running (s\<lparr>ipc_mem := m\<rparr>) = running s"
  by (simp_all add: kernel_ok_def sched_ok_def table_ok_def nproc_def proc_def running_def fun_eq_iff)

lemma proc_facts:
  assumes "table_ok s" "i < nproc s"
  shows "pid (proc s i) = of_nat i" "vec_ok (mailbox (proc s i))" "items (processes s) ! i \<noteq> 0"
  using assms by (auto simp: table_ok_def nproc_def dest: nth_mem)

lemma get_by_pid_eq:
  assumes "table_ok s"
  shows "sched_get_by_pid i s =
    Done (if unat i < nproc s \<and> running s (unat i) then items (processes s) ! unat i else 0)"
  using assms vlength_nproc [OF assms] vec_nth_proc [OF assms, of i] get_proc_nth [OF assms, of "unat i"]
  by (auto simp: sched_get_by_pid_def word_less_nat_alt running_def)

lemma mailbox_empty: "vec_ok v \<Longrightarrow> vlength v = 0 \<longleftrightarrow> items v = []"
  using vlength_unat [of v] by (auto simp: vlength_def)

section \<open>What the handlers do\<close>

text \<open>The context of a system call: the invariant holds and \<open>c\<close> is the calling process.\<close>

lemma handler_ctx:
  assumes "kernel_ok s"
  defines "c \<equiv> unat (current_pid s)"
  shows "table_ok s" "c < nproc s" "sched_current_process s = Done (items (processes s) ! c)"
    "get_proc (items (processes s) ! c) s = Done (proc s c)" "pid (proc s c) = of_nat c"
    "vec_ok (mailbox (proc s c))" "running s 0" "0 < nproc s"
  using assms current_proc [OF kernel_ok_sched [OF assms(1)]] proc_facts [of s c]
  by (auto simp: kernel_ok_def sched_ok_def)

lemma exit_eq:
  assumes "kernel_ok s"
  defines "c \<equiv> unat (current_pid s)"
  shows "syscall_exit r s = Done (Spins (put_proc (items (processes s) ! c)
    ((proc s c)\<lparr>return_value := ucast (rbx r), state := TASK_WAITINGFORDEATH\<rparr>) s))"
  using handler_ctx [OF assms(1)] by (simp add: syscall_exit_def c_def)

lemma receive_eq:
  assumes "kernel_ok s" "items (mailbox (proc s c)) = ms @ [m]" "c = unat (current_pid s)"
  shows "receive r (items (processes s) ! c) (proc s c) s =
    Done (Returns 0 (put_proc (items (processes s) ! c)
      ((proc s c)\<lparr>mailbox := (mailbox (proc s c))\<lparr>items := ms\<rparr>\<rparr>) (s\<lparr>ipc_mem := (ipc_mem s)(rbx r := m)\<rparr>)))"
  using assms(2) by (simp add: receive_def vec_pop_def)

lemma receive_ok:
  assumes ok: "kernel_ok s" and r: "receive r (items (processes s) ! c) (proc s c) s = Done res"
    and c: "c = unat (current_pid s)"
  shows "\<exists>s'. res = Returns 0 s' \<and> kernel_ok s'"
proof -
  obtain ms m where ms: "items (mailbox (proc s c)) = ms @ [m]"
    using r by (cases "items (mailbox (proc s c))" rule: rev_cases) (auto simp: receive_def vec_pop_def)
  let ?s = "s\<lparr>ipc_mem := (ipc_mem s)(rbx r := m)\<rparr>"
  let ?x = "(proc s c)\<lparr>mailbox := (mailbox (proc s c))\<lparr>items := ms\<rparr>\<rparr>"
  note ctx = handler_ctx [OF ok, folded c]
  have "kernel_ok ?s" using ok by simp
  moreover have "vec_ok (mailbox ?x)" using ctx(6) ms by (auto simp: vec_ok_def)
  moreover have "c = 0 \<Longrightarrow> state ?x = TASK_RUNNING" using ctx(7) by (simp add: running_def)
  ultimately have "kernel_ok (put_proc (items (processes ?s) ! c) ?x ?s)"
    using ctx(2,5) by (intro kernel_put) simp_all
  then show ?thesis using r receive_eq [OF ok ms c] by auto
qed

lemma ipcsend_eq:
  fixes r :: registers
  assumes ok: "kernel_ok s"
  defines "c \<equiv> unat (current_pid s)" and "m \<equiv> (ipc_mem s (rbx r))\<lparr>ipc_sender := current_pid s\<rparr>"
  defines "d \<equiv> unat (ipc_receiver m)"
  shows "syscall_ipcsend can r s =
    (if d < nproc s \<and> running s d
     then bind_o (vec_push can 24 m (mailbox (proc s d))) (\<lambda>v.
          Done (Returns 0 (put_proc (items (processes s) ! d) ((proc s d)\<lparr>mailbox := v\<rparr>)
            (s\<lparr>ipc_mem := (ipc_mem s)(rbx r := m)\<rparr>))))
     else Fault Assert_failed)"
proof -
  note ctx = handler_ctx [OF ok, folded c_def]
  let ?s = "s\<lparr>ipc_mem := (ipc_mem s)(rbx r := m)\<rparr>"
  have "pid (proc s c) = current_pid s"
    using ctx(5) by (simp add: c_def)
  then have m: "(ipc_mem s (rbx r))\<lparr>ipc_sender := pid (proc s c)\<rparr> = m" by (simp add: m_def)
  have t: "table_ok ?s" using ctx(1) by simp
  have "get_proc (items (processes s) ! d) ?s = Done (proc s d)" if "d < nproc s"
    using get_proc_nth [OF t, of d] that by simp
  then show ?thesis
    using ctx m get_by_pid_eq [OF t, of "ipc_receiver m"] proc_facts(3) [OF ctx(1), of d]
    by (auto simp: syscall_ipcsend_def Let_def d_def)
qed

lemma ipcsend_ok:
  assumes ok: "kernel_ok s" and r: "syscall_ipcsend can r s = Done res"
  shows "\<exists>s'. res = Returns 0 s' \<and> kernel_ok s'"
proof -
  let ?m = "(ipc_mem s (rbx r))\<lparr>ipc_sender := current_pid s\<rparr>"
  let ?d = "unat (ipc_receiver ?m)" and ?s = "s\<lparr>ipc_mem := (ipc_mem s)(rbx r := ?m)\<rparr>"
  have t: "table_ok s" using handler_ctx(1) [OF ok] .
  from r ipcsend_eq [OF ok, of can r] obtain v where d: "?d < nproc s" "running s ?d"
    and v: "vec_push can 24 ?m (mailbox (proc s ?d)) = Done v"
    and res: "res = Returns 0 (put_proc (items (processes s) ! ?d) ((proc s ?d)\<lparr>mailbox := v\<rparr>) ?s)"
    by (auto split: if_splits)
  have "vec_ok v" using vec_push_ok [OF proc_facts(2) [OF t d(1)] v] by simp
  then have "kernel_ok (put_proc (items (processes ?s) ! ?d) ((proc s ?d)\<lparr>mailbox := v\<rparr>) ?s)"
    using ok d proc_facts(1) [OF t d(1)] by (intro kernel_put) (simp_all add: running_def)
  then show ?thesis using res by simp
qed

lemma force_yield_ok: "kernel_ok s \<Longrightarrow> kernel_ok (force_yield s)"
  by (simp add: kernel_ok_def sched_ok_def force_yield_def)

lemma handler_ok:
  assumes ok: "kernel_ok s" and cur: "current_pid s \<noteq> 0" and h: "syscall_handler can r s = Done res"
  shows "kernel_ok (case res of Returns v s' \<Rightarrow> s' | Spins s' \<Rightarrow> s')"
proof -
  let ?c = "unat (current_pid s)"
  note ctx = handler_ctx [OF ok]
  have c0: "?c \<noteq> 0" using cur by (simp add: unat_eq_zero)
  have exit: "kernel_ok (put_proc (items (processes s) ! ?c)
      ((proc s ?c)\<lparr>return_value := ucast (rbx r), state := TASK_WAITINGFORDEATH\<rparr>) s)"
    using ok ctx c0 by (intro kernel_put) simp_all
  from h consider "syscall_ipcsend can r s = Done res" | "syscall_ipcrcv_sync r s = Done res"
    | "syscall_ipcrcv_oneshot r s = Done res" | "syscall_log r s = Done res"
    | "syscall_exit r s = Done res" | "syscall_getpid r s = Done res"
    by (auto simp: syscall_handler_def syscall_matrix_def split: if_splits)
  then show ?thesis
  proof cases
    case 1
    then show ?thesis using ipcsend_ok [OF ok] by force
  next
    case 2
    then show ?thesis
      using receive_ok [OF ok _ refl] force_yield_ok [OF ok] ctx
      by (fastforce simp: syscall_ipcrcv_sync_def split: if_splits)
  next
    case 3
    then show ?thesis
      using receive_ok [OF ok _ refl] ok ctx
      by (fastforce simp: syscall_ipcrcv_oneshot_def split: if_splits)
  next
    case 4
    then show ?thesis using ok by (auto simp: syscall_log_def)
  next
    case 5
    then show ?thesis using exit_eq [OF ok, of r] exit by auto
  next
    case 6
    then show ?thesis using ok ctx by (auto simp: syscall_getpid_def)
  qed
qed

section \<open>Every step keeps the invariant\<close>

lemma timer_ok:
  assumes ok: "kernel_ok s" and y: "yield_task r s = Done (r', s')"
  shows "kernel_ok s'"
proof -
  have sok: "sched_ok s" using ok by (rule kernel_ok_sched)
  note ctx = handler_ctx [OF ok]
  show ?thesis
  proof (cases "tick s < SWITCH_TICK")
    case True
    then have "s' = s\<lparr>tick := tick s + 1\<rparr>"
      using y yield_quiet [of s r] sok by (simp add: sched_ok_def)
    then show ?thesis
      using ok word_Suc_le [OF True] by (simp add: kernel_ok_def sched_ok_def)
  next
    case False
    then have t: "tick s = SWITCH_TICK" using sok by (auto simp: sched_ok_def)
    obtain k where k: "next_running s (unat (current_pid s)) = Some k"
      using next_running_Some [of 0 s] ctx by auto
    have s': "s' = switched r (unat (current_pid s)) k s"
      using y yield_switch [OF sok t k, of r] by simp
    have "pheap s' = (pheap s)(items (processes s) ! unat (current_pid s) \<mapsto>
        (proc s (unat (current_pid s)))\<lparr>regs := r\<rparr>)"
      by (simp add: s' switched_def Let_def arch_space_switch_def put_proc_def)
    then show ?thesis
      using switched_ok(1) [OF sok pick_next_eq(2) [OF ctx(1,2) k], of r] ok ctx(6)
        proc_facts(3) [OF ctx(1,2)] s'
      by (auto simp: kernel_ok_def split: if_splits)
  qed
qed

lemma task_init_DoneE:
  assumes "task_init np kstack space entry s = Done (p, s')" "usertask_lock s = 0"
  obtains v x where "np \<noteq> 0" "p = np"
    "s' = s\<lparr>vm := v, pheap := (pheap s)(np \<mapsto> x), usertask_lock := 0\<rparr>"
    "mailbox x = vec_init" "rip (regs x) = entry" "pml x = space" "state x = TASK_RUNNING"
    "cs (regs x) = 0x23" "ss (regs x) = 0x1b"
  using assms that
  by (auto simp: task_init_def Let_def arch_pmm_alloc_def arch_vmm_map_def put_proc_def
      arch_release_def split: if_splits)

text \<open>A new process object at a free address leaves the table as it is.\<close>

lemma kernel_ok_add:
  assumes ok: "kernel_ok s" and np: "np \<noteq> 0" "pheap s np = None" and x: "mailbox x = vec_init"
  shows "kernel_ok (s\<lparr>vm := v, pheap := (pheap s)(np \<mapsto> x)\<rparr>)"
proof -
  let ?s' = "s\<lparr>vm := v, pheap := (pheap s)(np \<mapsto> x)\<rparr>"
  have items: "items (processes s) ! i \<noteq> np" if "i < nproc s" for i
    using ok np that by (auto simp: kernel_ok_def sched_ok_def table_ok_def)
  have proc: "proc ?s' i = proc s i" if "i < nproc s" for i
    using items [OF that] by (simp add: proc_def)
  have n: "nproc ?s' = nproc s" by (simp add: nproc_def)
  have "table_ok ?s'"
    using ok items proc by (auto simp: kernel_ok_def sched_ok_def table_ok_def n)
  moreover have "running ?s' 0" using ok proc by (simp add: kernel_ok_def sched_ok_def running_def)
  ultimately have "sched_ok ?s'" using ok by (simp add: kernel_ok_def sched_ok_def n)
  then show ?thesis using ok np(1) x by (auto simp: kernel_ok_def split: if_splits)
qed

lemma create_ok:
  assumes ok: "kernel_ok s" and np: "pheap s np = None"
    and t: "task_init np kstack space entry s = Done (p, s')"
  shows "kernel_ok s'"
proof -
  have ut: "usertask_lock s = 0" using ok by (simp add: kernel_ok_def sched_ok_def)
  from t this obtain v x where "np \<noteq> 0" and s': "s' = s\<lparr>vm := v, pheap := (pheap s)(np \<mapsto> x), usertask_lock := 0\<rparr>"
    and x: "mailbox x = vec_init" by (rule task_init_DoneE)
  have "s' = s\<lparr>vm := v, pheap := (pheap s)(np \<mapsto> x)\<rparr>" using ut by (cases s) (simp add: s')
  with kernel_ok_add [OF ok \<open>np \<noteq> 0\<close> np x] show ?thesis by simp
qed

lemma push_ok:
  assumes ok: "kernel_ok s" and np: "pheap s np = Some x" "np \<notin> set (items (processes s))"
    and n: "Suc (nproc s) < 2 ^ 62"
    and p: "sched_push_process5 can np a1 a2 a3 a4 s = Done s'"
  shows "kernel_ok s'"
proof -
  have sok: "sched_ok s" "usertask_lock s = 0" using ok by (simp_all add: kernel_ok_def sched_ok_def)
  have np0: "np \<noteq> 0" "vec_ok (mailbox x)" using ok np(1) by (auto simp: kernel_ok_def)
  obtain v where "vec_push can 8 np (processes s) = Done v"
    using p sok(2) np(1)
    by (auto simp: sched_push_process5_def Let_def get_proc_def put_proc_def)
  from push_process_ok [OF sok(1) np(1) np0(1) np(2) np0(2) this n, of a1 a2 a3 a4] p
  show ?thesis using ok np0 by (auto simp: kernel_ok_def split: if_splits)
qed

lemma kstep_ok: "kernel_ok s \<Longrightarrow> kstep can s s' \<Longrightarrow> kernel_ok s'"
  by (erule kstepE)
    (use handler_ok in \<open>force intro: timer_ok create_ok push_ok\<close>)+

lemma reachable_ok: "reachable can s s' \<Longrightarrow> kernel_ok s \<Longrightarrow> kernel_ok s'"
  by (induction rule: reachable.induct) (auto intro: kstep_ok)

section \<open>Properties\<close>

lemma handler_simps:
  "syscall_handler can (ipc_send p r) s = syscall_ipcsend can (ipc_send p r) s"
  "syscall_handler can (ipc_rcv_sync p r) s = syscall_ipcrcv_sync (ipc_rcv_sync p r) s"
  "syscall_handler can (ipc_rcv_oneshot p r) s = syscall_ipcrcv_oneshot (ipc_rcv_oneshot p r) s"
  "syscall_handler can (exit_user n r) s = syscall_exit (exit_user n r) s"
  "syscall_handler can (getpid r) s = syscall_getpid (getpid r) s"
  by (simp_all add: syscall_handler_def syscall_matrix_def user_stubs sys_numbers)

lemma matrix_null:
  "syscall_matrix can SYS_ALLOC = Fault Null_call" "syscall_matrix can SYS_FREE = Fault Null_call"
  "syscall_matrix can SYS_REALLOC = Fault Null_call"
  by (simp_all add: syscall_matrix_def sys_numbers)

lemma matrix_beyond: "9 \<le> i \<Longrightarrow> syscall_matrix can i = Fault Out_of_bounds"
  by (auto simp: syscall_matrix_def sys_numbers word_le_nat_alt word_less_nat_alt)

lemma stub_rbx [simp]:
  "rbx (ipc_send p r) = p" "rbx (ipc_rcv_sync p r) = p" "rbx (ipc_rcv_oneshot p r) = p"
  "rbx (exit_user p r) = p"
  by (simp_all add: user_stubs)

lemma demo_kernel_ok: "t \<le> 9 \<Longrightarrow> kernel_ok (demo_sched st t)"
  using demo_ok [of t st] by (auto simp: kernel_ok_def demo_sched_def zero_process_def split: if_splits)



text \<open>
  C7: a message sent to a running process arrives: the send returns 0, and when the receiver
  next asks for a message it gets exactly that one, stamped with the pid of the sender whatever
  the sender wrote there, and its mailbox is as it was before.
\<close>

theorem ipc_delivers:
  assumes "kernel_ok s" "\<forall>n. can n"
    and "unat (ipc_receiver (ipc_mem s p)) = d" "d < nproc s" "running s d"
    and "length (items (mailbox (proc s d))) < 2 ^ 62"
  shows "\<exists>s1 s2. syscall_handler can (ipc_send p r) s = Done (Returns 0 s1) \<and>
    syscall_handler can (ipc_rcv_sync q r') (s1\<lparr>current_pid := of_nat d\<rparr>) = Done (Returns 0 s2) \<and>
    ipc_mem s2 q = (ipc_mem s p)\<lparr>ipc_sender := current_pid s\<rparr> \<and>
    items (mailbox (proc s2 d)) = items (mailbox (proc s d))"
proof -
  let ?m = "(ipc_mem s p)\<lparr>ipc_sender := current_pid s\<rparr>"
  have t: "table_ok s" using handler_ctx(1) [OF assms(1)] .
  obtain v where v: "vec_push can 24 ?m (mailbox (proc s d)) = Done v"
    "items v = items (mailbox (proc s d)) @ [?m]" "vec_ok v"
    using vec_push_Done [OF proc_facts(2) [OF t assms(4)] assms(6), of can] assms(2) by blast
  let ?a = "items (processes s) ! d"
  let ?s1 = "put_proc ?a ((proc s d)\<lparr>mailbox := v\<rparr>) (s\<lparr>ipc_mem := (ipc_mem s)(p := ?m)\<rparr>)"
  have send: "syscall_handler can (ipc_send p r) s = Done (Returns 0 ?s1)"
    using ipcsend_eq [OF assms(1), of can "ipc_send p r"] v(1) assms(3-5) by (simp add: handler_simps)
  then have ok1: "kernel_ok ?s1"
    using ipcsend_ok [OF assms(1), of can "ipc_send p r"] by (auto simp: handler_simps)
  let ?s1' = "?s1\<lparr>current_pid := of_nat d\<rparr>"
  have d: "unat (of_nat d :: u64) = d" using assms(4) t by (simp add: table_ok_def unat_of_nat_less)
  have ok1': "kernel_ok ?s1'"
    using ok1 assms(4) d by (simp add: kernel_ok_def sched_ok_def)
  have cur: "d = unat (current_pid ?s1')" using d by simp
  have pd: "proc ?s1' d = (proc s d)\<lparr>mailbox := v\<rparr>"
    using proc_put [of "s\<lparr>ipc_mem := (ipc_mem s)(p := ?m)\<rparr>" d d] t assms(4) by simp
  have it: "items (processes ?s1') ! d = ?a" by (simp add: put_proc_def)
  note ctx = handler_ctx [OF ok1', folded cur]
  have box: "items (mailbox (proc ?s1' d)) = items (mailbox (proc s d)) @ [?m]" using pd v(2) by simp
  have ne: "vlength (mailbox (proc ?s1' d)) \<noteq> 0"
    using mailbox_empty [OF ctx(6)] box by simp
  let ?x = "(proc ?s1' d)\<lparr>mailbox := (mailbox (proc ?s1' d))\<lparr>items := items (mailbox (proc s d))\<rparr>\<rparr>"
  let ?s2 = "put_proc ?a ?x (?s1'\<lparr>ipc_mem := (ipc_mem ?s1')(q := ?m)\<rparr>)"
  have "syscall_handler can (ipc_rcv_sync q r') ?s1' = Done (Returns 0 ?s2)"
    using receive_eq [OF ok1' box cur, of "ipc_rcv_sync q r'"] ctx(3,4) ne it
    by (simp add: handler_simps syscall_ipcrcv_sync_def)
  moreover have "ipc_mem ?s2 q = ?m" by (simp add: put_proc_def)
  moreover have "items (mailbox (proc ?s2 d)) = items (mailbox (proc s d))"
    by (simp add: proc_def put_proc_def)
  ultimately show ?thesis using send by blast
qed

theorem ipc_delivers_witness:
  "\<exists>s1 s2. syscall_handler (\<lambda>_. True) (ipc_send 0x700 zero_regs)
       ((demo_sched TASK_RUNNING 0)\<lparr>ipc_mem := (\<lambda>_. \<lparr>ipc_sender = 9, ipc_receiver = 1, ipc_data = 42\<rparr>)\<rparr>) =
       Done (Returns 0 s1) \<and>
     syscall_handler (\<lambda>_. True) (ipc_rcv_sync 0x900 zero_regs) (s1\<lparr>current_pid := 1\<rparr>) = Done (Returns 0 s2) \<and>
     ipc_mem s2 0x900 = \<lparr>ipc_sender = 0, ipc_receiver = 1, ipc_data = 42\<rparr>"
proof -
  let ?s = "(demo_sched TASK_RUNNING 0)\<lparr>ipc_mem := (\<lambda>_. \<lparr>ipc_sender = 9, ipc_receiver = 1, ipc_data = 42\<rparr>)\<rparr>"
  have "kernel_ok ?s" using demo_kernel_ok [of 0 TASK_RUNNING] by simp
  moreover have "1 < nproc ?s" "running ?s 1" "length (items (mailbox (proc ?s 1))) < 2 ^ 62"
    "unat (ipc_receiver (ipc_mem ?s 0x700)) = 1" "current_pid (demo_sched TASK_RUNNING 0) = 0"
    by (simp_all add: demo_sched_def nproc_def running_def proc_def zero_process_def vec_init_def)
  ultimately show ?thesis
    using ipc_delivers [of ?s "\<lambda>_. True" "0x700" 1 zero_regs "0x900" zero_regs] by auto
qed

text \<open>
  C33: the calls the kernel does not serve: the allocation calls that \<^verbatim>\<open>malloc\<close>, \<^verbatim>\<open>free\<close>
  and \<^verbatim>\<open>realloc\<close> issue jump through a null pointer, a number from 9 on reads beyond the table,
  and a message to a process that does not exist or does not run trips an assertion.
\<close>

theorem syscall_errors:
  assumes "kernel_ok s"
  shows "syscall_handler can (malloc_user n r) s = Fault Null_call \<and>
    syscall_handler can (free_user p r) s = Fault Null_call \<and>
    syscall_handler can (realloc_user p n r) s = Fault Null_call \<and>
    (9 \<le> rax r \<longrightarrow> syscall_handler can r s = Fault Out_of_bounds) \<and>
    (unat (ipc_receiver (ipc_mem s p)) \<ge> nproc s \<or> \<not> running s (unat (ipc_receiver (ipc_mem s p))) \<longrightarrow>
      syscall_handler can (ipc_send p r) s = Fault Assert_failed)"
  using ipcsend_eq [OF assms, of can "ipc_send p r"] matrix_beyond [of "rax r" can]
  by (auto simp: handler_simps) (simp_all add: syscall_handler_def matrix_null user_stubs)

theorem syscall_errors_witness:
  "syscall_handler (\<lambda>_. True) (malloc_user 64 zero_regs) (demo_sched TASK_RUNNING 0) = Fault Null_call \<and>
   syscall_handler (\<lambda>_. True) (zero_regs\<lparr>rax := 77\<rparr>) (demo_sched TASK_RUNNING 0) = Fault Out_of_bounds \<and>
   syscall_handler (\<lambda>_. True) (ipc_send 0x700 zero_regs)
     ((demo_sched TASK_IDLE 0)\<lparr>ipc_mem := (\<lambda>_. \<lparr>ipc_sender = 9, ipc_receiver = 1, ipc_data = 42\<rparr>)\<rparr>) =
     Fault Assert_failed"
proof -
  let ?s = "(demo_sched TASK_IDLE 0)\<lparr>ipc_mem := (\<lambda>_. \<lparr>ipc_sender = 9, ipc_receiver = 1, ipc_data = 42\<rparr>)\<rparr>"
  have "\<not> running ?s 1" by (simp add: demo_sched_def running_def proc_def)
  then show ?thesis
    using syscall_errors [OF demo_kernel_ok [of 0 TASK_RUNNING], of "\<lambda>_. True" 64 "zero_regs\<lparr>rax := 77\<rparr>" 0]
      syscall_errors [OF demo_kernel_ok [of 0 TASK_RUNNING], of "\<lambda>_. True" 64 zero_regs 0]
      syscall_errors [of ?s "\<lambda>_. True" 64 zero_regs "0x700"] demo_kernel_ok [of 0 TASK_IDLE]
    by (simp add: running_def)
qed



end
