(* ===== verification/Navy_Descriptors.thy ===== *)
theory Navy_Descriptors
  imports Navy_Devices Navy_Syscall
begin

text \<open>
  The descriptor tables of \<^verbatim>\<open>arch/x86_64/gdt.c\<close> and \<^verbatim>\<open>arch/x86_64/idt.c\<close> and the set-up of the
  \<^verbatim>\<open>syscall\<close> instruction in \<^verbatim>\<open>arch/x86_64/arch.c\<close>. Packed structures are records with the
  fields of the source; \<open>gdt_raw\<close> is the view through the union's \<^verbatim>\<open>raw\<close> member. The
  definitions under ``what the processor reads'' decode the tables as the architecture
  manuals prescribe, and the lemmas relate the two.
\<close>

section \<open>Segment descriptors\<close>

record gdt_entry =
  base_low :: u16
  limit_low :: u16
  base_mid :: u8
  gaccess :: u8
  limit_high :: "4 word"
  gflags :: "4 word"
  base_high :: u8

record tss_entry =
  tss_length :: u16
  base_low16 :: u16
  base_mid8 :: u8
  flags1 :: u8
  flags2 :: u8
  base_high8 :: u8
  base_upper32 :: u32
  tss_reserved :: u32

record tss =
  tss_rsp :: "u64 list"
  ist :: "u64 list"
  iopb :: u16

record gdt =
  entries :: "gdt_entry list"
  gdt_tss :: tss_entry

record descriptors =
  dgdt :: gdt
  dtss :: tss

definition GDT_LENGTH :: nat where "GDT_LENGTH = 5"
definition GDT_KERNEL_CODE :: u64 where "GDT_KERNEL_CODE = 1"
definition GDT_KERNEL_DATA :: u64 where "GDT_KERNEL_DATA = 2"
definition GDT_USER_DATA :: u64 where "GDT_USER_DATA = 3"
definition GDT_USER_CODE :: u64 where "GDT_USER_CODE = 4"

definition GDT_KERNEL :: u8 where "GDT_KERNEL = 0b00000000"
definition GDT_USER :: u8 where "GDT_USER = 0b01100000"
definition GDT_CODE :: u8 where "GDT_CODE = 0b00011000"
definition GDT_DATA :: u8 where "GDT_DATA = 0b00010000"

lemmas gdt_numbers = GDT_LENGTH_def GDT_KERNEL_CODE_def GDT_KERNEL_DATA_def GDT_USER_DATA_def
  GDT_USER_CODE_def GDT_KERNEL_def GDT_USER_def GDT_CODE_def GDT_DATA_def

definition gdt_entry_get :: "nat \<Rightarrow> gdt \<Rightarrow> gdt_entry outcome" where
  "gdt_entry_get index g =
     (if index < length (entries g) then Done (entries g ! index) else Fault Out_of_bounds)"

definition init_descriptor :: "u32 \<Rightarrow> u32 \<Rightarrow> u8 \<Rightarrow> gdt_entry" where
  "init_descriptor base limit access =
     \<lparr>base_low = ucast (base AND 0xffff),
      limit_low = ucast (limit AND 0xffff),
      base_mid = ucast (drop_bit 16 (base AND 0xff0000)),
      gaccess = 0b10000010 OR access,
      limit_high = ucast (drop_bit 16 (limit AND 0xf0000)),
      gflags = (if access \<noteq> GDT_DATA then 0b0010 else 0),
      base_high = ucast (drop_bit 24 (base AND 0xff000000))\<rparr>"

definition init_tss :: "u64 \<Rightarrow> tss_entry" where
  "init_tss tss =
     \<lparr>tss_length = 16,
      base_low16 = ucast tss AND 0xffff,
      base_mid8 = ucast (drop_bit 16 tss) AND 0xff,
      flags1 = 0b10001001,
      flags2 = 0,
      base_high8 = ucast (drop_bit 24 tss) AND 0xff,
      base_upper32 = ucast (drop_bit 32 tss),
      tss_reserved = 0\<rparr>"

text \<open>
  \<open>tss_addr\<close> is the address of the static \<^verbatim>\<open>tss\<close>, 104 bytes long. Loading the tables with
  \<^verbatim>\<open>gdt_flush\<close> and \<^verbatim>\<open>tss_flush\<close> leaves them as they are.
\<close>

definition gdt_init :: "u64 \<Rightarrow> descriptors \<Rightarrow> descriptors" where
  "gdt_init tss_addr s =
     s\<lparr>dgdt := \<lparr>entries =
         [init_descriptor 0 0 0,
          init_descriptor 0 0 (GDT_KERNEL OR GDT_CODE),
          init_descriptor 0 0 (GDT_KERNEL OR GDT_DATA),
          init_descriptor 0 0 (GDT_USER OR GDT_DATA),
          init_descriptor 0 0 (GDT_USER OR GDT_CODE)],
        gdt_tss = init_tss tss_addr\<rparr>,
       dtss := (dtss s)\<lparr>iopb := 104\<rparr>\<rparr>"

text \<open>The three results of \<^verbatim>\<open>kmalloc\<close> are arguments.\<close>

definition intstack_init :: "u64 \<Rightarrow> u64 \<Rightarrow> u64 \<Rightarrow> descriptors \<Rightarrow> descriptors" where
  "intstack_init k0 k1 k2 s =
     (let t = dtss s;
          t = t\<lparr>ist := (ist t)[0 := k0 + KERNEL_STACK_SIZE]\<rparr>;
          t = t\<lparr>ist := (ist t)[1 := k1 + KERNEL_STACK_SIZE]\<rparr>;
          t = t\<lparr>tss_rsp := (tss_rsp t)[0 := k2 + KERNEL_STACK_SIZE]\<rparr>
      in s\<lparr>dtss := t\<rparr>)"

section \<open>Interrupt gates\<close>

record idt_descr =
  offset_1 :: u16
  selector :: u16
  idt_ist :: u8
  type_attr :: u8
  offset_2 :: u16
  offset_3 :: u32
  idt_zero :: u32

record idt_ptr =
  idt_limit :: u16
  idt_base :: u64

definition INTGATE :: u8 where "INTGATE = 0x8e"
definition TRAPGATE :: u8 where "TRAPGATE = 0xef"

definition zero_descr :: idt_descr where
  "zero_descr = \<lparr>offset_1 = 0, selector = 0, idt_ist = 0, type_attr = 0, offset_2 = 0, offset_3 = 0,
     idt_zero = 0\<rparr>"

definition idt_descr_init :: "u64 \<Rightarrow> u8 \<Rightarrow> u8 \<Rightarrow> idt_descr" where
  "idt_descr_init offset typ i =
     \<lparr>offset_1 = ucast offset,
      selector = 0x08,
      idt_ist = i,
      type_attr = typ,
      offset_2 = ucast (drop_bit 16 offset),
      offset_3 = ucast (drop_bit 32 offset),
      idt_zero = 0\<rparr>"

text \<open>
  \<open>iv\<close> is the table \<^verbatim>\<open>__interrupt_vector\<close> of the assembly stubs, \<open>kidt_addr\<close> the address of
  \<^verbatim>\<open>kidt\<close>, whose 256 descriptors have 16 bytes each.
\<close>

definition fill_gates :: "(nat \<Rightarrow> u64) \<Rightarrow> u8 \<Rightarrow> nat \<Rightarrow> nat \<Rightarrow> idt_descr list \<Rightarrow> idt_descr list" where
  "fill_gates iv typ lo hi kidt = fold (\<lambda>i k. k[i := idt_descr_init (iv i) typ 0]) [lo..<hi] kidt"

definition idt_init :: "(nat \<Rightarrow> u64) \<Rightarrow> u64 \<Rightarrow> idt_descr list \<times> idt_ptr" where
  "idt_init iv kidt_addr =
     (let kidt = replicate 256 zero_descr;
          kidt = fill_gates iv INTGATE 0 3 kidt;
          kidt = kidt[3 := idt_descr_init (iv 3) TRAPGATE 0];
          kidt = kidt[4 := idt_descr_init (iv 4) TRAPGATE 0];
          kidt = fill_gates iv INTGATE 5 48 kidt
      in (kidt, \<lparr>idt_limit = 256 * 16 - 1, idt_base = kidt_addr\<rparr>))"

section \<open>The system call instruction\<close>

definition STAR_KCODE_OFFSET :: nat where "STAR_KCODE_OFFSET = 32"
definition STAR_UCODE_OFFSET :: nat where "STAR_UCODE_OFFSET = 48"

text \<open>\<open>syscall_handle\<close> is the address of the assembly entry point.\<close>

definition syscall_init :: "u64 \<Rightarrow> ports \<Rightarrow> ports" where
  "syscall_init syscall_handle s =
     (let s = asm_write_msr MSR_EFER (asm_read_msr MSR_EFER s OR 1) s;
          s = asm_write_msr MSR_STAR
                (push_bit STAR_KCODE_OFFSET (GDT_KERNEL_CODE * 8) OR
                 push_bit STAR_UCODE_OFFSET (((GDT_USER_DATA - 1) * 8) OR 3)) s;
          s = asm_write_msr MSR_LSTAR syscall_handle s
      in asm_write_msr MSR_SYSCALL_FLAG_MASK 0 s)"

section \<open>What the processor reads\<close>

text \<open>The eight bytes of a descriptor, in the order in which \<^verbatim>\<open>gdt.h\<close> declares the fields.\<close>

definition gdt_raw :: "gdt_entry \<Rightarrow> u64" where
  "gdt_raw e =
     ucast (base_low e) OR push_bit 16 (ucast (limit_low e)) OR push_bit 32 (ucast (base_mid e)) OR
     push_bit 40 (ucast (gaccess e)) OR push_bit 48 (ucast (limit_high e)) OR
     push_bit 52 (ucast (gflags e)) OR push_bit 56 (ucast (base_high e))"

text \<open>
  Present (bit 47), code or data (44), executable (43), writable or readable (41), privilege
  level (45 and 46) and 64-bit code (53). Bits 0 to 15 are the low bits of the limit, bits 16
  to 39 and 56 to 63 the base.
\<close>

definition seg_present :: "u64 \<Rightarrow> bool" where "seg_present d \<longleftrightarrow> bit d 47 \<and> bit d 44"
definition seg_code :: "u64 \<Rightarrow> bool" where "seg_code d \<longleftrightarrow> bit d 43"
definition seg_rw :: "u64 \<Rightarrow> bool" where "seg_rw d \<longleftrightarrow> bit d 41"
definition seg_long :: "u64 \<Rightarrow> bool" where "seg_long d \<longleftrightarrow> bit d 53"
definition seg_dpl :: "u64 \<Rightarrow> u64" where "seg_dpl d = take_bit 2 (drop_bit 45 d)"
definition seg_base :: "u64 \<Rightarrow> u64" where
  "seg_base d = take_bit 24 (drop_bit 16 d) OR push_bit 24 (drop_bit 56 d)"

definition tss_base :: "tss_entry \<Rightarrow> u64" where
  "tss_base t = ucast (base_low16 t) OR push_bit 16 (ucast (base_mid8 t)) OR
     push_bit 24 (ucast (base_high8 t)) OR push_bit 32 (ucast (base_upper32 t))"

definition gate_offset :: "idt_descr \<Rightarrow> u64" where
  "gate_offset d = ucast (offset_1 d) OR push_bit 16 (ucast (offset_2 d)) OR push_bit 32 (ucast (offset_3 d))"

definition gate_present :: "idt_descr \<Rightarrow> bool" where
  "gate_present d \<longleftrightarrow> bit (type_attr d) 7"

text \<open>The selectors \<^verbatim>\<open>syscall\<close> and \<^verbatim>\<open>sysret\<close> (64-bit) load, and whether they are enabled.\<close>

definition syscall_cs :: "ports \<Rightarrow> u64" where
  "syscall_cs s = take_bit 16 (drop_bit 32 (asm_read_msr MSR_STAR s)) AND NOT 3"

definition syscall_ss :: "ports \<Rightarrow> u64" where
  "syscall_ss s = take_bit 16 (drop_bit 32 (asm_read_msr MSR_STAR s)) + 8"

definition sysret_cs :: "ports \<Rightarrow> u64" where
  "sysret_cs s = (take_bit 16 (drop_bit 48 (asm_read_msr MSR_STAR s)) + 16) OR 3"

definition sysret_ss :: "ports \<Rightarrow> u64" where
  "sysret_ss s = (take_bit 16 (drop_bit 48 (asm_read_msr MSR_STAR s)) + 8) OR 3"

definition syscall_enabled :: "ports \<Rightarrow> bool" where
  "syscall_enabled s \<longleftrightarrow> bit (asm_read_msr MSR_EFER s) 0"

definition descriptor_at :: "descriptors \<Rightarrow> u64 \<Rightarrow> u64" where
  "descriptor_at d sel = gdt_raw (entries (dgdt d) ! unat (sel div 8))"

lemma and_mask_fields [mask_simps]:
  "(v :: u32) AND 0xff0000 = push_bit 16 (take_bit 8 (drop_bit 16 v))"
  "v AND 0xff000000 = push_bit 24 (take_bit 8 (drop_bit 24 v))"
  "v AND 0xf0000 = push_bit 16 (take_bit 4 (drop_bit 16 v))"
  by (simp_all add: and_push_mask [symmetric] mask_eq_exp_minus_1)

lemma tss_base_init: "tss_base (init_tss a) = a"
  by (simp add: tss_base_def init_tss_def mask_simps take_bit_word_eq_self ucast_down_up)

lemma gate_offset_init: "gate_offset (idt_descr_init a typ i) = a"
  by (simp add: gate_offset_def idt_descr_init_def mask_simps take_bit_word_eq_self ucast_down_up)

lemma bit_gdt_raw:
  "bit (gdt_raw e) n \<longleftrightarrow>
    (if n < 16 then bit (base_low e) n else if n < 32 then bit (limit_low e) (n - 16)
     else if n < 40 then bit (base_mid e) (n - 32) else if n < 48 then bit (gaccess e) (n - 40)
     else if n < 52 then bit (limit_high e) (n - 48) else if n < 56 then bit (gflags e) (n - 52)
     else bit (base_high e) (n - 56))"
proof -
  have "n < 16 \<or> (\<exists>j<16. n = 16 + j) \<or> (\<exists>j<8. n = 32 + j) \<or> (\<exists>j<8. n = 40 + j) \<or>
      (\<exists>j<4. n = 48 + j) \<or> (\<exists>j<4. n = 52 + j) \<or> (\<exists>j. n = 56 + j)"
    by presburger
  then show ?thesis
    by (elim disjE exE conjE)
      (auto simp: gdt_raw_def bit_simps bit_high dest: bit_imp_le_length)
qed

lemma bit_seg_base:
  "bit (seg_base (gdt_raw (init_descriptor base limit a))) n \<longleftrightarrow>
     n < 32 \<and> bit (if n < 16 then limit else base) n"
proof -
  have "n < 16 \<or> (\<exists>j<8. n = 16 + j) \<or> (\<exists>j<8. n = 24 + j) \<or> (\<exists>j. n = 32 + j)" by presburger
  then show ?thesis
    by (elim disjE exE conjE)
      (auto simp: seg_base_def init_descriptor_def bit_gdt_raw mask_simps bit_simps bit_high)
qed

lemma fold_update_nth:
  "j < length k \<Longrightarrow>
   fold (\<lambda>i k. k[i := f i]) [lo..<hi] k ! j = (if lo \<le> j \<and> j < hi then f j else k ! j)"
proof (induction hi)
  case (Suc hi)
  have "length (fold (\<lambda>i k. k[i := f i]) is k) = length k" for "is"
    by (induction "is" arbitrary: k) simp_all
  with Suc show ?case by (cases "j = hi") auto
qed simp

lemma length_fill_gates [simp]: "length (fill_gates iv typ lo hi k) = length k"
proof -
  have "length (fold (\<lambda>i k. k[i := idt_descr_init (iv i) typ 0]) is k) = length k" for "is"
    by (induction "is" arbitrary: k) simp_all
  then show ?thesis by (simp add: fill_gates_def)
qed

lemma fill_gates_nth:
  "j < length k \<Longrightarrow>
   fill_gates iv typ lo hi k ! j = (if lo \<le> j \<and> j < hi then idt_descr_init (iv j) typ 0 else k ! j)"
  unfolding fill_gates_def by (rule fold_update_nth)

lemma idt_init_nth:
  assumes "i < 256"
  shows "fst (idt_init iv a) ! i =
    (if i < 48 then idt_descr_init (iv i) (if i = 3 \<or> i = 4 then TRAPGATE else INTGATE) 0 else zero_descr)"
  using assms by (auto simp: idt_init_def Let_def fill_gates_nth nth_list_update)

section \<open>Properties\<close>

text \<open>
  C22: after \<^verbatim>\<open>idt_init\<close> the processor finds, for each of the vectors 0 to 47 and so for every
  exception and every line of the interrupt controller, a present gate to exactly the stub of
  that vector in the kernel code segment, a trap gate for 3 and 4 only; every other vector,
  0x80 included, has no present gate.
\<close>

theorem idt_gates_dispatch:
  assumes "i < 256"
  shows "let (kidt, ptr) = idt_init iv a; d = kidt ! i in
    length kidt = 256 \<and> unat (idt_limit ptr) + 1 = 16 * length kidt \<and> idt_base ptr = a \<and>
    (if i < 48
     then gate_present d \<and> gate_offset d = iv i \<and> ucast (selector d) = GDT_KERNEL_CODE * 8 \<and>
       type_attr d = (if i = 3 \<or> i = 4 then TRAPGATE else INTGATE)
     else \<not> gate_present d)"
proof -
  obtain kidt ptr where init: "idt_init iv a = (kidt, ptr)" by (cases "idt_init iv a")
  have "kidt ! i = (if i < 48 then idt_descr_init (iv i) (if i = 3 \<or> i = 4 then TRAPGATE else INTGATE) 0
      else zero_descr)"
    using idt_init_nth [OF assms, of iv a] by (simp add: init)
  moreover have "length kidt = 256" "ptr = \<lparr>idt_limit = 4095, idt_base = a\<rparr>"
    using init by (auto simp: idt_init_def Let_def)
  moreover have "gate_present (idt_descr_init b TRAPGATE 0)" "gate_present (idt_descr_init b INTGATE 0)" for b
    by (simp_all add: gate_present_def idt_descr_init_def TRAPGATE_def INTGATE_def bit_numeral_rec)
  moreover have "selector (idt_descr_init b t 0) = 8" "type_attr (idt_descr_init b t 0) = t" for b t
    by (simp_all add: idt_descr_init_def)
  ultimately show ?thesis
    by (auto simp: init gate_offset_init zero_descr_def gate_present_def gdt_numbers)
qed

definition demo_stub :: "nat \<Rightarrow> u64" where
  "demo_stub i = 0xffffffff80001000 + of_nat i * 16"

theorem idt_gates_dispatch_witness:
  "gate_offset (fst (idt_init demo_stub 0x5000) ! 14) = 0xffffffff800010e0 \<and>
   \<not> gate_present (fst (idt_init demo_stub 0x5000) ! 0x80)"
  using idt_gates_dispatch [of 14 demo_stub "0x5000"] idt_gates_dispatch [of 128 demo_stub "0x5000"]
  by (simp add: split_beta Let_def demo_stub_def)

text \<open>
  The base address of the task state segment is read back by the processor exactly as it
  was given to \<^verbatim>\<open>init_tss\<close>. A segment descriptor, whose two low halves \<^verbatim>\<open>gdt.h\<close> declares in
  the opposite order, has its base read back exactly when base and limit agree in their low
  16 bits, as they do for the zero values \<^verbatim>\<open>gdt_init\<close> uses.
\<close>

theorem descriptor_bases_roundtrip:
  "tss_base (init_tss a) = a \<and>
   (seg_base (gdt_raw (init_descriptor base limit acc)) = ucast base \<longleftrightarrow>
      take_bit 16 base = take_bit 16 limit)"
proof -
  have "seg_base (gdt_raw (init_descriptor base limit acc)) = ucast base \<longleftrightarrow>
      (\<forall>n<16. bit limit n = bit base n)"
    by (auto simp: bit_eq_iff bit_seg_base bit_simps dest: bit_imp_le_length)
  also have "\<dots> \<longleftrightarrow> take_bit 16 base = take_bit 16 limit"
    by (simp add: take_bit_eq_bits eq_commute)
  finally show ?thesis by (simp add: tss_base_init)
qed

text \<open>
  C21: the selectors of the whole system agree. A task created by \<^verbatim>\<open>task_init\<close> runs with the code
  and stack selectors that \<^verbatim>\<open>sysret\<close> loads after \<^verbatim>\<open>syscall_init\<close>; in the table built by
  \<^verbatim>\<open>gdt_init\<close> they name a present 64-bit code segment and a present writable data segment of
  privilege level 3. The selectors \<^verbatim>\<open>syscall\<close> loads name a 64-bit code and a data segment of
  level 0, the code selector being that of the interrupt gates; the instruction is enabled and
  enters the kernel's handler.
\<close>

theorem selectors_consistent:
  assumes task: "task_init np kstack space entry s = Done (q, s')" and lock: "usertask_lock s = 0"
    and d: "d = gdt_init tss_addr d0" and p: "p = syscall_init handle p0"
  shows "(\<exists>x. pheap s' q = Some x \<and> cs (regs x) = sysret_cs p \<and> ss (regs x) = sysret_ss p) \<and>
    (let u = descriptor_at d (sysret_cs p) in seg_present u \<and> seg_code u \<and> seg_long u \<and> seg_dpl u = 3) \<and>
    (let u = descriptor_at d (sysret_ss p) in seg_present u \<and> \<not> seg_code u \<and> seg_rw u \<and> seg_dpl u = 3) \<and>
    (let k = descriptor_at d (syscall_cs p) in seg_present k \<and> seg_code k \<and> seg_long k \<and> seg_dpl k = 0) \<and>
    (let k = descriptor_at d (syscall_ss p) in seg_present k \<and> \<not> seg_code k \<and> seg_rw k \<and> seg_dpl k = 0) \<and>
    syscall_cs p = ucast (selector (idt_descr_init b t j)) \<and>
    syscall_enabled p \<and> asm_read_msr MSR_LSTAR p = handle"
proof -
  have star: "asm_read_msr MSR_STAR p = 0x0013000800000000"
    by (simp add: p syscall_init_def asm_read_write_msr msr_numbers gdt_numbers STAR_KCODE_OFFSET_def
        STAR_UCODE_OFFSET_def)
  have sel: "sysret_cs p = 0x23" "sysret_ss p = 0x1b" "syscall_cs p = 8" "syscall_ss p = 16"
    unfolding sysret_cs_def sysret_ss_def syscall_cs_def syscall_ss_def star by simp_all
  have raw: "descriptor_at d 0x23 = 0x0020fa0000000000" "descriptor_at d 0x1b = 0x0020f20000000000"
    "descriptor_at d 8 = 0x00209a0000000000" "descriptor_at d 16 = 0x0000920000000000"
    by (simp_all add: descriptor_at_def d gdt_init_def gdt_raw_def init_descriptor_def gdt_numbers)
  have "syscall_enabled p" "asm_read_msr MSR_LSTAR p = handle"
    by (simp_all add: syscall_enabled_def p syscall_init_def asm_read_write_msr msr_numbers bit_or_iff)
  moreover obtain x where "pheap s' q = Some x" "cs (regs x) = 0x23" "ss (regs x) = 0x1b"
    using task lock by (rule task_init_DoneE) simp
  ultimately show ?thesis
    unfolding sel raw seg_present_def seg_code_def seg_rw_def seg_long_def seg_dpl_def Let_def
    by (simp add: idt_descr_init_def bit_numeral_rec)
qed

definition demo_descriptors :: descriptors where
  "demo_descriptors = \<lparr>dgdt = \<lparr>entries = [], gdt_tss = init_tss 0\<rparr>,
     dtss = \<lparr>tss_rsp = [0, 0, 0], ist = [0, 0, 0, 0, 0, 0, 0], iopb = 0\<rparr>\<rparr>"

definition roomy_sched :: sched where
  "roomy_sched =
     (demo_sched TASK_RUNNING 0)\<lparr>vm := small_vmm\<lparr>vm_pmm := (small_pmm 1 0)\<lparr>bitmap_size := 32\<rparr>\<rparr>\<rparr>"

lemma roomy_task:
  "case task_init 48 0x6000 0xffff800000000000 0x400000 roomy_sched of Done (q, s') \<Rightarrow> q = 48 | _ \<Rightarrow> False"
  by code_simp

theorem selectors_consistent_witness:
  "\<exists>s' x. task_init 48 0x6000 0xffff800000000000 0x400000 roomy_sched = Done (48, s') \<and>
     pheap s' 48 = Some x \<and> cs (regs x) = sysret_cs (syscall_init 0x1000 quiet_ports) \<and>
     seg_dpl (descriptor_at (gdt_init 0x2000 demo_descriptors) (cs (regs x))) = 3"
proof -
  obtain s' where t: "task_init 48 0x6000 0xffff800000000000 0x400000 roomy_sched = Done (48, s')"
    using roomy_task by (auto split: outcome.splits prod.splits)
  have lock: "usertask_lock roomy_sched = 0" by (simp add: roomy_sched_def demo_sched_def)
  show ?thesis
    using t selectors_consistent [OF t lock refl refl, where handle = "0x1000" and ?p0.0 = quiet_ports
        and tss_addr = "0x2000" and ?d0.0 = demo_descriptors and b = 0 and t = 0 and j = 0]
    by (auto simp: Let_def)
qed

end
