(* ===== verification/Navy_Symbols.thy ===== *)
theory Navy_Symbols
  imports Navy_Fmt
begin

text \<open>
  The kernel's symbol table (\<^verbatim>\<open>kernel/symbols.c\<close>), which the panic screen consults, and the
  size field of a tar header (\<^verbatim>\<open>libs/navy/tar.c\<close>). The symbol table is text in memory; the
  local array \<^verbatim>\<open>line\<close> is at an address given as an argument, as are the addresses of the two
  string literals. The static pointer of \<^verbatim>\<open>strtok\<close> is threaded through its calls.
\<close>

section \<open>Hexadecimal numbers\<close>

definition hex_digit :: "u8 \<Rightarrow> u8" where
  "hex_digit byte =
     (if 48 \<le>s byte \<and> byte \<le>s 57 then byte - 48
      else if 97 \<le>s byte \<and> byte \<le>s 102 then byte - 97 + 10
      else byte)"

partial_function (option) hex2int_loop :: "mem \<Rightarrow> u64 \<Rightarrow> u64 \<Rightarrow> u64 option" where
  "hex2int_loop m s val =
     (if m s = 0 then Some val
      else hex2int_loop m (s + 1) (push_bit 4 val OR ucast (hex_digit (m s) AND 0xf)))"

declare hex2int_loop.simps [code]

definition hex2int :: "mem \<Rightarrow> u64 \<Rightarrow> u64 option" where
  "hex2int m s = hex2int_loop m s 0"

section \<open>Looking a symbol up\<close>

record symscan =
  sy_mem :: mem
  sy_offset :: u64
  sy_strtok :: u64

definition call_strtok :: "u64 \<Rightarrow> u64 \<Rightarrow> symscan \<Rightarrow> (u64 \<times> symscan) outcome" where
  "call_strtok str delim s =
     bind_o (of_option (strtok (sy_mem s) (sy_strtok s) str delim)) (\<lambda>(m, p, ret).
     Done (ret, s\<lparr>sy_mem := m, sy_strtok := p\<rparr>))"

definition call_hex2int :: "mem \<Rightarrow> u64 \<Rightarrow> u32 outcome" where
  "call_hex2int m s =
     (if s = 0 then Fault Null_deref else bind_o (of_option (hex2int m s)) (\<lambda>v. Done (ucast v)))"

text \<open>
  A complete line: address, length (or the type letter of a symbol without length), type,
  name. The numbers are kept in a signed \<^verbatim>\<open>int\<close> and widened again for the comparison. \<open>blank\<close>
  and \<open>zero\<close> are the addresses of the literals \<^verbatim>\<open>" "\<close> and \<^verbatim>\<open>"0"\<close>.
\<close>

definition symbol_line :: "u64 \<Rightarrow> u64 \<Rightarrow> u64 \<Rightarrow> u64 \<Rightarrow> u64 \<Rightarrow> symscan \<Rightarrow> symscan outcome" where
  "symbol_line blank zero line ptr buffer s =
     (let s = s\<lparr>sy_mem := (sy_mem s)(line + sy_offset s - 1 := 0)\<rparr>
      in bind_o (call_strtok line blank s) (\<lambda>(addr, s).
         bind_o (call_strtok 0 blank s) (\<lambda>(len, s).
         if len = 0 then Fault Null_deref
         else
           bind_o
             (if sy_mem s len = 84 \<or> sy_mem s len = 116
              then bind_o (call_strtok 0 blank s) (\<lambda>(fn, s). Done (zero, fn, s))
              else bind_o (call_strtok 0 blank s) (\<lambda>(_, s).
                   bind_o (call_strtok 0 blank s) (\<lambda>(fn, s). Done (len, fn, s))))
             (\<lambda>(len, fn, s).
              bind_o (call_hex2int (sy_mem s) addr) (\<lambda>address.
              bind_o (call_hex2int (sy_mem s) len) (\<lambda>sz.
              bind_o
                (if scast address \<le> ptr \<and> ptr \<le> scast (address + sz)
                 then bind_o (of_option (strlen (sy_mem s) fn)) (\<lambda>n.
                      Done (s\<lparr>sy_mem := fst (memcpy (sy_mem s) buffer fn n)\<rparr>))
                 else Done s)
                (\<lambda>s. Done (s\<lparr>sy_mem := fst (memset (sy_mem s) line 0 (sy_offset s)), sy_offset := 0\<rparr>))))))))"

text \<open>The array \<^verbatim>\<open>line\<close> has 128 bytes and nothing checks \<^verbatim>\<open>offset\<close> against it.\<close>

definition symbol_step :: "u64 \<Rightarrow> u64 \<Rightarrow> u64 \<Rightarrow> range_t \<Rightarrow> u64 \<Rightarrow> u64 \<Rightarrow> u64 \<Rightarrow> symscan \<Rightarrow> symscan outcome" where
  "symbol_step blank zero line symbols ptr buffer i s =
     (if sy_offset s = 0 \<or> sy_mem s (line + sy_offset s - 1) \<noteq> 10
      then if sy_offset s < 128
           then Done (s\<lparr>sy_mem := (sy_mem s)(line + sy_offset s := sy_mem s (i + rbase symbols)),
                        sy_offset := sy_offset s + 1\<rparr>)
           else Fault Out_of_bounds
      else symbol_line blank zero line ptr buffer s)"

function symbol_loop :: "u64 \<Rightarrow> u64 \<Rightarrow> u64 \<Rightarrow> range_t \<Rightarrow> u64 \<Rightarrow> u64 \<Rightarrow> u64 \<Rightarrow> symscan \<Rightarrow> symscan outcome" where
  "symbol_loop blank zero line symbols ptr buffer i s =
     (if i < rlength symbols
      then bind_o (symbol_step blank zero line symbols ptr buffer i s)
             (symbol_loop blank zero line symbols ptr buffer (i + 1))
      else Done s)"
  by pat_completeness auto
termination
  by (relation "measure (\<lambda>(blank, zero, line, symbols, ptr, buffer, i, s). unat (rlength symbols) - unat i)")
    (auto simp: word_less_nat_alt unat_Suc_less)

declare symbol_loop.simps [simp del]

definition find_symbols :: "u64 \<Rightarrow> u64 \<Rightarrow> u64 \<Rightarrow> range_t \<Rightarrow> u64 \<Rightarrow> u64 \<Rightarrow> u64 \<Rightarrow> mem \<Rightarrow> symscan outcome" where
  "find_symbols blank zero line symbols ptr buffer strtok_p m =
     symbol_loop blank zero line symbols ptr buffer 0
       \<lparr>sy_mem = fst (memset m line 0 128), sy_offset = 0, sy_strtok = strtok_p\<rparr>"

definition register_symbols :: "range_t \<Rightarrow> range_t \<Rightarrow> range_t" where
  "register_symbols rng symbols = rng"

section \<open>Sizes in tar headers\<close>

text \<open>\<^verbatim>\<open>for (i = 11; i > 0; i--, count *= 8)\<close>; the digit is a signed \<^verbatim>\<open>int\<close> before it is widened.\<close>

primrec tar_loop :: "mem \<Rightarrow> u64 \<Rightarrow> nat \<Rightarrow> u64 \<Rightarrow> u64 \<Rightarrow> u64" where
  "tar_loop m p 0 count sz = sz"
| "tar_loop m p (Suc i) count sz =
     tar_loop m p i (count * 8) (sz + scast (scast (m (p + of_nat i)) - 48 :: u32) * count)"

definition tar_get_size :: "mem \<Rightarrow> u64 \<Rightarrow> u64" where
  "tar_get_size m p = tar_loop m p 11 1 0"

section \<open>Numbers read back\<close>

lemma hex_digit_char:
  assumes "d < 16"
  shows "ucast (hex_digit (digit_char (of_nat d)) AND 0xf) = (of_nat d :: u64)" "digit_char (of_nat d) \<noteq> 0"
proof -
  have "list_all (\<lambda>d. ucast (hex_digit (digit_char (of_nat d)) AND 0xf) = (of_nat d :: u64) \<and>
      digit_char (of_nat d) \<noteq> 0) [0..<16]"
    by code_simp
  with assms show "ucast (hex_digit (digit_char (of_nat d)) AND 0xf) = (of_nat d :: u64)"
    "digit_char (of_nat d) \<noteq> 0"
    by (auto simp: list_all_iff)
qed

lemma or_low_digit:
  assumes "d < 16"
  shows "push_bit 4 v OR of_nat d = v * 16 + (of_nat d :: u64)"
proof -
  have "take_bit 4 (of_nat d :: u64) = of_nat (take_bit 4 d)" by (simp only: take_bit_of_nat)
  then have "of_nat d = take_bit 4 (of_nat d :: u64)" using assms by (simp add: take_bit_eq_mod)
  then have "bit (of_nat d :: u64) n \<Longrightarrow> n < 4" for n by (metis bit_take_bit_iff)
  then have "\<not> bit (push_bit 4 v) n \<or> \<not> bit (of_nat d :: u64) n" for n
    by (metis bit_push_bit_iff not_less)
  then show ?thesis by (simp add: disjunctive_add [symmetric] push_bit_eq_mult)
qed

lemma hex2int_loop_digits:
  assumes "cstr m s (map (\<lambda>d. digit_char (of_nat d)) ds)" "\<forall>d\<in>set ds. d < 16"
  shows "hex2int_loop m s v = Some (v * 16 ^ length ds + of_nat (radix_value 16 (rev ds)))"
  using assms
proof (induction ds arbitrary: s v)
  case Nil
  then show ?case by (subst hex2int_loop.simps) simp
next
  case (Cons d ds)
  then show ?case
    by (subst hex2int_loop.simps)
      (simp add: hex_digit_char or_low_digit radix_value_append algebra_simps)
qed

text \<open>The octal digits of a number, least significant first, and the field that holds them.\<close>

primrec octal :: "nat \<Rightarrow> nat \<Rightarrow> nat list" where
  "octal 0 n = []"
| "octal (Suc k) n = (n mod 8) # octal k (n div 8)"

definition tar_field :: "nat \<Rightarrow> u8 list" where
  "tar_field n = map (\<lambda>d. of_nat (d + 48)) (rev (octal 11 n))"

lemma octal_facts: "length (octal k n) = k" "d \<in> set (octal k n) \<Longrightarrow> d < 8"
  by (induction k arbitrary: n) auto

lemma octal_value: "radix_value 8 (octal k n) = n mod 8 ^ k"
  by (induction k arbitrary: n) (simp_all add: mod_mult2_eq algebra_simps)

lemma octal_digit:
  assumes "d < 8"
  shows "scast (scast (of_nat (d + 48) :: u8) - 48 :: u32) = (of_nat d :: u64)"
proof -
  have "list_all (\<lambda>d. scast (scast (of_nat (d + 48) :: u8) - 48 :: u32) = (of_nat d :: u64)) [0..<8]"
    by code_simp
  with assms show ?thesis by (auto simp: list_all_iff)
qed

lemma tar_loop_digits:
  assumes "\<forall>i<length ds. m (p + of_nat i) = of_nat (ds ! i + 48)" "\<forall>d\<in>set ds. d < 8"
  shows "tar_loop m p (length ds) count sz = sz + count * of_nat (radix_value 8 (rev ds))"
  using assms
proof (induction ds arbitrary: count sz rule: rev_induct)
  case Nil
  then show ?case by simp
next
  case (snoc d ds)
  have "\<forall>i<length ds. m (p + of_nat i) = of_nat (ds ! i + 48)"
    using snoc.prems(1) by (auto simp: nth_append)
  moreover have "m (p + of_nat (length ds)) = of_nat (d + 48)"
    using snoc.prems(1) by (auto simp: nth_append)
  ultimately show ?case
    using snoc octal_digit [of d] by (simp add: algebra_simps)
qed

section \<open>Properties\<close>

text \<open>
  \<^verbatim>\<open>tar_get_size\<close> reads back every size a tar header can hold: the eleven octal digits of a
  number below 8 to the 11th give that number.
\<close>

theorem tar_size_roundtrip:
  assumes "n < 8 ^ 11" "\<forall>i<11. m (p + of_nat i) = tar_field n ! i"
  shows "tar_get_size m p = of_nat n"
proof -
  let ?ds = "rev (octal 11 n)"
  have len: "length ?ds = 11" by (simp add: octal_facts)
  have "\<forall>i<length ?ds. m (p + of_nat i) = of_nat (?ds ! i + 48)"
    using assms(2) len by (simp add: tar_field_def)
  from tar_loop_digits [OF this, of 1 0] show ?thesis
    unfolding tar_get_size_def len using assms(1) octal_facts(2) by (simp add: octal_value)
qed

theorem tar_size_roundtrip_witness:
  "tar_get_size (store_bytes (\<lambda>_. 0) 124 (cstring ''00000001750'')) 124 = 1000"
proof -
  have f: "tar_field 1000 = cstring ''00000001750''" by code_simp
  have len: "length (tar_field 1000) = 11" by (simp add: tar_field_def octal_facts)
  then have "\<forall>i<11. store_bytes (\<lambda>_. 0) 124 (tar_field 1000) (124 + of_nat i) = tar_field 1000 ! i"
    by (simp add: store_bytes_nth)
  from tar_size_roundtrip [OF _ this] show ?thesis by (simp add: f)
qed

text \<open>
  \<^verbatim>\<open>hex2int\<close> reads back the hexadecimal text that \<^verbatim>\<open>itoa\<close> writes for every number that fits
  a signed 64-bit integer and is not negative.
\<close>

theorem hex2int_itoa_roundtrip:
  assumes "n < 2 ^ 63" "s \<noteq> 0"
  shows "\<exists>m'. itoa stk m (int n) s 16 = Some m' \<and> hex2int m' s = Some (of_nat n)"
proof -
  obtain m' where i: "itoa stk m (int n) s 16 = Some m'"
    and c: "cstr m' s (map (\<lambda>d. digit_char (of_nat d)) (rev (radix_digits 16 n)))"
    using itoa_nonneg [of 16 s n stk m] assms by (auto simp: radix_string_def)
  have "\<forall>d\<in>set (rev (radix_digits 16 n)). d < 16" using radix_digits_less [of 16] by auto
  from hex2int_loop_digits [OF c this, of 0] i show ?thesis
    by (simp add: hex2int_def radix_value_digits)
qed

theorem hex2int_itoa_roundtrip_witness:
  "\<exists>m'. itoa (\<lambda>_. 0) (\<lambda>_. 0) 48879 8 16 = Some m' \<and> hex2int m' 8 = Some 0xbeef"
  using hex2int_itoa_roundtrip [of 48879 8 "\<lambda>_. 0" "\<lambda>_. 0"] by simp

end
