(* ===== verification/Navy_Console.thy ===== *)
theory Navy_Console
  imports Navy_Descriptors Navy_Symbols
begin

text \<open>
  Text on the serial line: \<^verbatim>\<open>arch_serial_puts\<close> of \<^verbatim>\<open>arch/x86_64/arch.c\<close>, the \<^verbatim>\<open>print_format\<close> macro
  with that function as its callback, and \<^verbatim>\<open>log_impl\<close> of \<^verbatim>\<open>kernel/debug.c\<close>, over the state of
  the whole machine. The result \<open>printed\<close> says what reaches the line: the bytes in order, each
  sent only when the transmitter is ready.
\<close>

section \<open>The machine\<close>

text \<open>
  The scheduler with the memory managers below it, the device ports, the locks of \<^verbatim>\<open>arch.c\<close>
  and \<^verbatim>\<open>elf.c\<close>, the static variables of \<^verbatim>\<open>interrupt.c\<close>, \<^verbatim>\<open>stdlib.c\<close>, \<^verbatim>\<open>symbols.c\<close> and \<^verbatim>\<open>strtok\<close>, the
  faulting address register and byte memory.
\<close>

record machine =
  ksched :: sched
  kports :: ports
  serial_lock :: u32
  elf_lock :: u32
  has_fault :: bool
  random_next :: u32
  symbols :: range_t
  strtok_p :: u64
  fault_addr :: u64
  kmem :: mem

section \<open>Printing\<close>

definition arch_serial_puts :: "device \<Rightarrow> mem \<Rightarrow> u64 \<Rightarrow> machine \<Rightarrow> machine outcome" where
  "arch_serial_puts dev m s k =
     bind_o (arch_acquire (serial_lock k)) (\<lambda>l.
     let k = k\<lparr>serial_lock := l\<rparr> in
     bind_o (of_option (serial_puts dev m s (kports k))) (\<lambda>p.
     let k = k\<lparr>kports := p\<rparr> in
     Done (k\<lparr>serial_lock := arch_release (serial_lock k)\<rparr>)))"

text \<open>A string the caller holds in a buffer of its own, at the address \<open>LOCAL\<close>.\<close>

definition puts_text :: "device \<Rightarrow> u8 list \<Rightarrow> machine \<Rightarrow> machine outcome" where
  "puts_text dev bs k = arch_serial_puts dev (store_bytes (\<lambda>_. 0) LOCAL bs) LOCAL k"

primrec puts_all :: "device \<Rightarrow> u8 list list \<Rightarrow> machine \<Rightarrow> machine outcome" where
  "puts_all dev [] k = Done k"
| "puts_all dev (bs # bss) k = bind_o (puts_text dev bs k) (puts_all dev bss)"

definition print_format :: "device \<Rightarrow> u8 list \<Rightarrow> fmt_value list \<Rightarrow> machine \<Rightarrow> machine outcome" where
  "print_format dev fmt args k =
     bind_o (of_option (PRINT_FORMAT (kmem k) fmt args)) (\<lambda>outs. puts_all dev outs k)"

text \<open>The escape character is 27.\<close>

definition log_impl :: "device \<Rightarrow> u8 list \<Rightarrow> u64 \<Rightarrow> u8 list \<Rightarrow> fmt_value list \<Rightarrow> machine \<Rightarrow> machine outcome" where
  "log_impl dev filename line_nbr format args k =
     bind_o (print_format dev (27 # cstring ''[33m{}:{}'' @ 27 # cstring ''[0m '')
               [fmtvals filename, fmtvald line_nbr] k) (\<lambda>k.
     bind_o (print_format dev format args k) (\<lambda>k.
     puts_text dev [10] k))"

section \<open>What reaches the line\<close>

text \<open>
  \<open>printed k bs k'\<close>: the machine \<open>k'\<close> differs from \<open>k\<close> only in the port trace, which has the
  transmission of \<open>bs\<close> appended, after the set-up of the line if this is its first use.
\<close>

definition printed :: "machine \<Rightarrow> u8 list \<Rightarrow> machine \<Rightarrow> bool" where
  "printed k bs k' \<longleftrightarrow>
     (\<exists>new. sends new bs \<and>
        k' = k\<lparr>kports := (kports k)\<lparr>is_serial_init := (is_serial_init (kports k) \<or> bs \<noteq> []),
          io_trace := io_trace (kports k) @ (if bs = [] then [] else line_setup (kports k)) @ new\<rparr>\<rparr>)"

lemma sends_append: "sends tr bs \<Longrightarrow> sends tr' ys \<Longrightarrow> sends (tr @ tr') (bs @ ys)"
proof (induction rule: sends.induct)
  case (byte vs w tr ds c)
  then show ?case using sends.byte [of vs w "tr @ tr'" "ds @ ys" c] by simp
qed simp

lemma sends_Nil: "sends tr [] \<longleftrightarrow> tr = []"
  by (auto elim: sends.cases intro: sends.none)

lemma printed_none: "printed k [] k"
  by (auto simp: printed_def sends.none intro!: exI [of _ "[]"])

lemma printed_append:
  assumes "printed k bs k1" "printed k1 ys k2"
  shows "printed k (bs @ ys) k2"
proof -
  obtain t1 where t1: "sends t1 bs"
    "k1 = k\<lparr>kports := (kports k)\<lparr>is_serial_init := (is_serial_init (kports k) \<or> bs \<noteq> []),
       io_trace := io_trace (kports k) @ (if bs = [] then [] else line_setup (kports k)) @ t1\<rparr>\<rparr>"
    using assms(1) by (auto simp: printed_def)
  obtain t2 where t2: "sends t2 ys"
    "k2 = k1\<lparr>kports := (kports k1)\<lparr>is_serial_init := (is_serial_init (kports k1) \<or> ys \<noteq> []),
       io_trace := io_trace (kports k1) @ (if ys = [] then [] else line_setup (kports k1)) @ t2\<rparr>\<rparr>"
    using assms(2) by (auto simp: printed_def)
  have "line_setup (kports k1) = []" if "bs \<noteq> []" using that by (simp add: t1(2) line_setup_def)
  moreover have "t1 = []" "k1 = k" if "bs = []" using that t1 by (auto simp: sends_Nil)
  ultimately show ?thesis
    unfolding printed_def using sends_append [OF t1(1) t2(1)] t1(2) t2(2)
    by (intro exI [of _ "t1 @ t2"]) (auto simp: Let_def)
qed

lemma printed_frame:
  assumes "printed k bs k'"
  shows "ksched k' = ksched k" "serial_lock k' = serial_lock k" "has_fault k' = has_fault k"
    "symbols k' = symbols k" "strtok_p k' = strtok_p k" "kmem k' = kmem k" "random_next k' = random_next k"
    "fault_addr k' = fault_addr k" "elf_lock k' = elf_lock k"
  using assms by (auto simp: printed_def)

text \<open>A line that answers and a console lock that is free.\<close>

definition console_up :: "device \<Rightarrow> machine \<Rightarrow> bool" where
  "console_up dev k \<longleftrightarrow> responsive dev \<and> serial_lock k = 0"

lemma console_up_printed: "printed k bs k' \<Longrightarrow> console_up dev k \<Longrightarrow> console_up dev k'"
  by (simp add: console_up_def printed_frame)

lemma arch_serial_puts_prints:
  assumes "console_up dev k" "cstr m s bs"
  shows "\<exists>k'. arch_serial_puts dev m s k = Done k' \<and> printed k bs k'"
proof -
  obtain new where "serial_puts dev m s (kports k) =
      Some ((kports k)\<lparr>is_serial_init := (is_serial_init (kports k) \<or> bs \<noteq> []),
        io_trace := io_trace (kports k) @ (if bs = [] then [] else line_setup (kports k)) @ new\<rparr>)"
    "sends new bs"
    using serial_puts_sends [of dev m s bs "kports k"] assms by (auto simp: console_up_def)
  with assms(1) show ?thesis
    by (cases k) (auto simp: arch_serial_puts_def console_up_def arch_release_def printed_def)
qed

lemma cstr_store_bytes:
  assumes "length bs < 2 ^ 64 - 1" "0 \<notin> set bs"
  shows "cstr (store_bytes (\<lambda>_. 0) p bs) p bs"
  unfolding cstr_iff_nth
proof (intro conjI allI impI)
  fix i
  assume i: "i < length bs"
  show "store_bytes (\<lambda>_. 0) p bs (p + of_nat i) = bs ! i"
    using assms(1) by (intro store_bytes_nth [OF i]) simp
  show "bs ! i \<noteq> 0" using i assms(2) by (metis nth_mem)
next
  have "p + of_nat (length bs) \<noteq> p + of_nat i" if "i < length bs" for i
    using that assms(1) u64_offset_inj [of "length bs" i p] by auto
  then show "store_bytes (\<lambda>_. 0) p bs (p + of_nat (length bs)) = 0"
    by (subst store_bytes_other) auto
qed

definition short_text :: "u8 list \<Rightarrow> bool" where
  "short_text bs \<longleftrightarrow> length bs < 2 ^ 64 - 1 \<and> 0 \<notin> set bs"

lemma puts_text_prints:
  assumes "console_up dev k" "short_text bs"
  shows "\<exists>k'. puts_text dev bs k = Done k' \<and> printed k bs k'"
  unfolding puts_text_def using assms
  by (intro arch_serial_puts_prints cstr_store_bytes) (auto simp: short_text_def)

lemma puts_all_prints:
  assumes "console_up dev k" "short_text (concat bss)"
  shows "\<exists>k'. puts_all dev bss k = Done k' \<and> printed k (concat bss) k'"
  using assms
proof (induction bss arbitrary: k)
  case Nil
  then show ?case by (simp add: printed_none)
next
  case (Cons bs bss)
  from Cons.prems(2) have "short_text bs" "short_text (concat bss)" by (auto simp: short_text_def)
  with puts_text_prints [OF Cons.prems(1)] obtain k1 where "puts_text dev bs k = Done k1" "printed k bs k1"
    by blast
  with Cons.IH [of k1] \<open>short_text (concat bss)\<close> Cons.prems(1) show ?case
    by (auto dest: console_up_printed intro: printed_append)
qed

lemma print_format_prints:
  assumes "console_up dev k" "0 \<notin> set fmt" "\<forall>v\<in>set args. value_ok v" "short_text (fmt_text fmt args)"
  shows "\<exists>k'. print_format dev fmt args k = Done k' \<and> printed k (fmt_text fmt args) k'"
proof -
  obtain outs where "PRINT_FORMAT (kmem k) fmt args = Some outs" "concat outs = fmt_text fmt args"
    using PRINT_FORMAT_spec [OF assms(2,3)] by blast
  then show ?thesis using puts_all_prints [of dev k outs] assms by (simp add: print_format_def)
qed

section \<open>Bounds on the printed text\<close>

text \<open>Texts of values and of formats contain no terminator and stay far below the address space.\<close>

lemma radix_string_short:
  assumes "n < 2 ^ 64" "b = 10 \<or> b = 16"
  shows "length (radix_string b n) \<le> 64" "0 \<notin> set (radix_string b n)"
proof -
  have "n < b ^ 64" using assms power_mono [of 2 b 64] by auto
  then show "length (radix_string b n) \<le> 64" using radix_digits_length [of b n 64] assms(2) by auto
  show "0 \<notin> set (radix_string b n)" using radix_string_nonzero [of b 0 n] assms(2) by auto
qed

lemma negative_digit_nonzero: "d < 10 \<Longrightarrow> digit_char (- of_nat d) \<noteq> 0"
proof -
  assume "d < 10"
  moreover have "list_all (\<lambda>d. digit_char (- of_nat d) \<noteq> 0) [0..<10]" by code_simp
  ultimately show ?thesis by (auto simp: list_all_iff)
qed

lemma number_text_short:
  assumes "int64 v" "b = 10 \<or> b = 16"
  shows "length (number_text b v) \<le> 128" "0 \<notin> set (number_text b v)"
proof -
  have small: "nat v < 2 ^ 64" "nat (- v) < 2 ^ 64"
    using assms(1) by (cases "0 \<le> v"; simp add: int64_def nat_less_iff)+
  define h l where "h = nat (v mod 2 ^ 64 div 2 ^ 32)" and "l = nat (v mod 2 ^ 32)"
  have halves: "h < 2 ^ 64" "l < 2 ^ 64" by (simp_all add: h_def l_def nat_less_iff)
  have eq: "number_text b v =
      (if 0 \<le> v then radix_string b (nat v)
       else if b = 10 then map (\<lambda>d. digit_char (- of_nat d)) (rev (radix_digits 10 (nat (- v)))) @ [45]
       else radix_string b h @ radix_string b l)"
    by (simp only: number_text_def h_def l_def)
  note short = radix_string_short [OF small(1) assms(2)] radix_string_short [OF halves(1) assms(2)]
    radix_string_short [OF halves(2) assms(2)]
  have neg: "length (radix_digits 10 (nat (- v))) \<le> 64"
    using radix_string_short(1) [OF small(2), of 10] by simp
  show "length (number_text b v) \<le> 128" using short neg by (simp add: eq)
  show "0 \<notin> set (number_text b v)"
    using short negative_digit_nonzero radix_digits_less [of 10 _ "nat (- v)"] by (auto simp: eq)
qed

fun value_short :: "fmt_value \<Rightarrow> bool" where
  "value_short (FMT_DECIMAL v) = int64 v"
| "value_short (FMT_STRING s) = (length s \<le> 200 \<and> 0 \<notin> set s)"
| "value_short (FMT_CHAR c) = True"

lemma value_short_ok: "value_short v \<Longrightarrow> value_ok v"
  by (cases v) simp_all

lemma value_text_short:
  assumes "value_short v"
  shows "length (value_text mode v) \<le> 200 \<and> 0 \<notin> set (value_text mode v)"
proof (cases v)
  case (FMT_DECIMAL n)
  obtain base pad n' u where dm: "decimal_mode mode n = (base, pad, n', u)"
    by (cases "decimal_mode mode n")
  have "int64 n'" "base = 10 \<or> base = 16"
    using decimal_mode_ok [OF _ dm] assms FMT_DECIMAL by auto
  moreover have "pad \<le> 16" "length u \<le> 2" "0 \<notin> set u"
    using dm by (auto simp: decimal_mode_def split: if_splits)
  ultimately show ?thesis
    using number_text_short [of n' "unat base"] by (auto simp: FMT_DECIMAL value_text_def dm Let_def)
qed (use assms in \<open>auto simp: value_text_def\<close>)

lemma fmt_text_short:
  assumes "0 \<notin> set fmt" "\<forall>v\<in>set args. value_short v"
  shows "length (fmt_text fmt args) \<le> length fmt + 200 * length args \<and> 0 \<notin> set (fmt_text fmt args)"
  using assms
proof (induction fmt args rule: fmt_text.induct)
  case (2 c ys args)
  let ?rest = "drop 1 (dropWhile (\<lambda>c. c \<noteq> 125) ys)"
  have "length ?rest \<le> length ys" by (metis diff_le_self length_drop length_dropWhile_le le_trans)
  moreover have "0 \<notin> set ?rest" using 2(3) by (auto dest!: in_set_dropD set_dropWhileD)
  moreover have "\<forall>v\<in>set (drop 1 args). value_short v" using 2(4) by (auto dest: in_set_dropD)
  ultimately have "c = 123 \<Longrightarrow> length (fmt_text ?rest (drop 1 args)) \<le> length ys + 200 * length (drop 1 args) \<and>
      0 \<notin> set (fmt_text ?rest (drop 1 args))"
    using 2(1) by force
  then show ?case
    using 2(2-4) value_text_short [of "hd args" "mode_of ys"] by (cases args; cases "c = 123") auto
qed simp

definition line_ok :: "u8 list \<times> fmt_value list \<Rightarrow> bool" where
  "line_ok l \<longleftrightarrow> 0 \<notin> set (fst l) \<and> length (fst l) \<le> 200 \<and> length (snd l) \<le> 10 \<and> (\<forall>v\<in>set (snd l). value_short v)"

lemma line_prints:
  assumes "console_up dev k" "line_ok l"
  shows "\<exists>k'. print_format dev (fst l) (snd l) k = Done k' \<and> printed k (fmt_text (fst l) (snd l)) k'"
proof -
  have "short_text (fmt_text (fst l) (snd l))"
    using fmt_text_short [of "fst l" "snd l"] assms(2) by (auto simp: short_text_def line_ok_def)
  with print_format_prints [of dev k "fst l" "snd l"] assms show ?thesis
    by (auto simp: line_ok_def value_short_ok)
qed

lemma fmtvald_short: "value_short (fmtvald w)"
  using fmtvald_ok [of w] by (simp add: fmtvald_def)

lemma log_prints:
  assumes "console_up dev k" "line_ok (format, args)" "value_short (fmtvals filename)"
  shows "\<exists>k' head. log_impl dev filename line_nbr format args k = Done k' \<and>
    printed k (head @ fmt_text format args @ [10]) k'"
proof -
  let ?l = "(27 # cstring ''[33m{}:{}'' @ 27 # cstring ''[0m '', [fmtvals filename, fmtvald line_nbr])"
  have "line_ok ?l" using assms(3) by (simp add: line_ok_def cstring_def fmtvald_short)
  from line_prints [OF assms(1) this] obtain k1 where
    k1: "print_format dev (fst ?l) (snd ?l) k = Done k1" "printed k (fmt_text (fst ?l) (snd ?l)) k1" by blast
  from line_prints [OF console_up_printed [OF k1(2) assms(1)] assms(2)] obtain k2 where
    k2: "print_format dev format args k1 = Done k2" "printed k1 (fmt_text format args) k2" by auto
  have "console_up dev k2" using assms(1) k1(2) k2(2) by (meson console_up_printed)
  from puts_text_prints [OF this, of "[10]"] obtain k3 where
    k3: "puts_text dev [10] k2 = Done k3" "printed k2 [10] k3" by (auto simp: short_text_def)
  from printed_append [OF k1(2) printed_append [OF k2(2) k3(2)]] k1(1) k2(1) k3(1) show ?thesis
    by (intro exI [of _ k3] exI [of _ "fmt_text (fst ?l) (snd ?l)"]) (simp add: log_impl_def)
qed

text \<open>A log line on a working console changes nothing but the ports.\<close>

lemma log_returns:
  assumes "console_up dev k" "line_ok (format, args)" "value_short (fmtvals filename)"
  shows "\<exists>p. log_impl dev filename line_nbr format args k = Done (k\<lparr>kports := p\<rparr>)"
  using log_prints [OF assms, of line_nbr] by (auto simp: printed_def)

lemma console_up_ports [simp]: "console_up dev (k\<lparr>kports := p\<rparr>) = console_up dev k"
  by (simp add: console_up_def)

end
