(* ===== verification/Navy_Interrupt.thy ===== *)
theory Navy_Interrupt
  imports Navy_Console
begin

text \<open>
  \<^verbatim>\<open>arch/x86_64/interrupt.c\<close>: the common handler every gate leads to, with the panic screen,
  the stack trace and the timer tick that drives the scheduler. The frame on the interrupt
  stack is a \<open>registers\<close> record; the handler gives back the frame the processor returns
  through, or says that the machine is halted or spins for ever.
\<close>

section \<open>Messages\<close>

definition exceptions :: "string list" where
  "exceptions =
     [''Division by zero'',
      ''Debug'',
      ''Non-maskable Interrupt'',
      ''Breakpoint'',
      ''Overflow'',
      ''Bound Range Exceeded'',
      ''Invalid Opcode'',
      ''Device Not Available'',
      ''Double Fault'',
      ''Coprocessor Segment Overrun'',
      ''Invalid TSS'',
      ''Segment Not Present'',
      ''Stack-Segment Fault'',
      ''General Protection Fault'',
      ''Page Fault'',
      ''Reserved'',
      ''x87 Floating-Point Exception'',
      ''Aligment Check'',
      ''Machine Check'',
      ''SIMD Floating-Point Exception'',
      ''Virtualization Exception'',
      ''Reserved'',
      ''Reserved'',
      ''Reserved'',
      ''Reserved'',
      ''Reserved'',
      ''Reserved'',
      ''Reserved'',
      ''Reserved'',
      ''Reserved'',
      ''Security Exception'',
      ''Reserved'']"

definition comments :: "string list" where
  "comments =
     [''Panic At The Kernel !'',
      ''Press F to pay respect.'',
      ''Could not boot up kernel because no'',
      ''Booting up is not supported on this kernel'',
      ''Seems like Duolingo halted the kernel'',
      ''Hey /r/softwaregore'',
      ''Believe me, everything is fine :)'',
      ''The kernel defined that 1 + 1 = 3'',
      ''Congratulations, this kernel can now run Half Life 3 !'',
      ''Still more stable than Windows'',
      ''Looks like the CPU took a lil' nap'',
      ''Stability is bloat'',
      ''The kernel took some vacations'',
      ''https://www.youtube.com/watch?v=dQw4w9WgXcQ'',
      ''Still faster developpement than GNU Hurd'',
      ''Did you try to rewrite the kernel in rust ?'',
      ''Better of doing a megalithic kernel'',
      ''Keyboard Slayer, just contribute to brutal wtf'',
      ''The dev of this kernel is the worst at copying and pasting'',
      ''Maybe if you create your own cpu architecture it will work'',
      ''DevseChan, what if we kissed during the kernel panic'',
      ''Paging hell is real'']"

section \<open>Symbols\<close>

text \<open>
  The addresses of the literals and of the local arrays: \<open>line\<close> of \<^verbatim>\<open>find_symbols\<close> and the
  64 bytes \<open>function\<close> of its caller, cleared before the call. What is read back is the string
  in \<open>function\<close>; the rest of the stack is scratch.
\<close>

record symenv =
  se_blank :: u64
  se_zero :: u64
  se_line :: u64
  se_function :: u64

definition symbol_name :: "symenv \<Rightarrow> u64 \<Rightarrow> machine \<Rightarrow> (u8 list \<times> machine) outcome" where
  "symbol_name e ptr k =
     bind_o (find_symbols (se_blank e) (se_zero e) (se_line e) (symbols k) ptr (se_function e) (strtok_p k)
               (fst (memset (kmem k) (se_function e) 0 64))) (\<lambda>s.
     bind_o (of_option (read_cstr (sy_mem s) (se_function e))) (\<lambda>name.
     Done (name, k\<lparr>strtok_p := sy_strtok s\<rparr>)))"

text \<open>A stack frame holds the caller's frame pointer and, 8 bytes above, the return address.\<close>

definition backtrace_line :: "device \<Rightarrow> symenv \<Rightarrow> u64 \<Rightarrow> machine \<Rightarrow> machine outcome" where
  "backtrace_line dev e ip k =
     bind_o (symbol_name e ip k) (\<lambda>(name, k).
     if name = []
     then print_format dev (cstring ''{a}'' @ [10]) [fmtvald ip] k
     else print_format dev (cstring ''{a} ({})'' @ [10]) [fmtvald ip, fmtvals name] k)"

partial_function (option) backtrace :: "device \<Rightarrow> symenv \<Rightarrow> u64 \<Rightarrow> machine \<Rightarrow> machine outcome option" where
  "backtrace dev e frame k =
     (if frame = 0 then Some (Done k)
      else case backtrace_line dev e (load64 (kmem k) (frame + 8)) k of
             Done k' \<Rightarrow> backtrace dev e (load64 (kmem k) frame) k'
           | Fault f \<Rightarrow> Some (Fault f)
           | Hang \<Rightarrow> Some Hang)"

declare backtrace.simps [code]

section \<open>The panic screen\<close>

primrec print_lines :: "device \<Rightarrow> (u8 list \<times> fmt_value list) list \<Rightarrow> machine \<Rightarrow> machine outcome" where
  "print_lines dev [] k = Done k"
| "print_lines dev (l # ls) k = bind_o (print_format dev (fst l) (snd l) k) (print_lines dev ls)"

text \<open>Character 92 is the backslash, 9 the tabulator, 10 the newline.\<close>

definition panic_banner :: "registers \<Rightarrow> u8 list \<Rightarrow> (u8 list \<times> fmt_value list) list" where
  "panic_banner f comment =
     [(cstring '' ____________________'' @ [10], []),
      (cstring ''/                    '' @ [92, 10], []),
      (cstring ''!    Kernel Panic    !'' @ [10], []),
      (cstring ''!   (Do not panic)   !'' @ [10], []),
      ([92] @ cstring ''____________________/'' @ [10], []),
      (cstring ''         !  !'' @ [10], []),
      (cstring ''         !  !'' @ [10], []),
      (cstring ''         L_ !'' @ [10], []),
      (cstring ''        / _)!'' @ [10], []),
      (cstring ''       / /__L'' @ [10], []),
      (cstring '' _____/ (____)'' @ [9, 9, 9] @ cstring ''{}'' @ [10], [fmtvals comment]),
      (cstring ''        (____)'' @ [9, 9, 9] @ cstring ''Exception: {}'' @ [10],
       [fmtvals (cstring (exceptions ! unat (intno f)))]),
      (cstring '' _____  (____)'' @ [9, 9, 9] @ cstring ''Error: {}'' @ [10], [fmtvald (err f)]),
      (cstring ''      '' @ [92] @ cstring ''_(____)'' @ [10], []),
      (cstring ''         !  !'' @ [10], []),
      (cstring ''         !  !'' @ [10], []),
      (cstring ''         '' @ [92] @ cstring ''__/ '' @ [10], [])]"

definition panic_registers :: "registers \<Rightarrow> u8 list \<Rightarrow> u64 \<Rightarrow> u64 \<Rightarrow> (u8 list \<times> fmt_value list) list" where
  "panic_registers f name cr2v cr3v =
     [(cstring ''RAX={a} RBX={a} RCX={a} RDX={a}'' @ [10],
       [fmtvald (rax f), fmtvald (rbx f), fmtvald (rcx f), fmtvald (rdx f)]),
      (cstring ''RSI={a} RDI={a} RBP={a} RSP={a}'' @ [10],
       [fmtvald (rsi f), fmtvald (rdi f), fmtvald (rbp f), fmtvald (rsp f)]),
      (cstring ''R8= {a} R9= {a} R10={a} R11={a}'' @ [10],
       [fmtvald (r8 f), fmtvald (r9 f), fmtvald (r10 f), fmtvald (r11 f)]),
      (cstring ''R12={a} R13={a} R14={a} R15={a}'' @ [10],
       [fmtvald (r12 f), fmtvald (r13 f), fmtvald (r14 f), fmtvald (r15 f)]),
      (cstring ''CR2={a} CR3={a}'' @ [10], [fmtvald cr2v, fmtvald cr3v]),
      (cstring ''RIP={a} ({})'' @ [10], [fmtvald (rip f), fmtvals name])]"

definition backtrace_title :: "u8 list" where
  "backtrace_title = [10] @ cstring '' *** Backtrace *** '' @ [10]"

section \<open>The handler\<close>

datatype irq_result = Returned registers machine | Halted machine | Spinning machine

definition print_pid :: "device \<Rightarrow> machine \<Rightarrow> machine outcome" where
  "print_pid dev k =
     (if is_sched_init (ksched k)
      then bind_o (sched_current_process (ksched k)) (\<lambda>cur.
           bind_o (get_proc cur (ksched k)) (\<lambda>x.
           print_format dev (cstring ''PID: {}'') [fmtvald (pid x)] k))
      else Done k)"

definition panic_screen :: "device \<Rightarrow> symenv \<Rightarrow> registers \<Rightarrow> u8 list \<Rightarrow> machine \<Rightarrow> machine outcome" where
  "panic_screen dev e f comment k =
     bind_o (symbol_name e (rip f) k) (\<lambda>(name, k).
     bind_o (print_lines dev (panic_banner f comment) k) (\<lambda>k.
     bind_o (puts_text dev [10] k) (\<lambda>k.
     bind_o (print_lines dev (panic_registers f name (fault_addr k) (cr3 (vm (ksched k)))) k) (\<lambda>k.
     bind_o (print_pid dev k) (\<lambda>k.
     bind_o (puts_text dev backtrace_title k) (\<lambda>k.
     run_option (backtrace dev e (rbp f) k)))))))"

definition panic :: "device \<Rightarrow> symenv \<Rightarrow> registers \<Rightarrow> machine \<Rightarrow> irq_result outcome" where
  "panic dev e f k =
     (let k = k\<lparr>has_fault := True\<rparr> in
      bind_o (of_option (rtc_sec dev (kports k))) (\<lambda>(sec, p).
      let k = k\<lparr>kports := p, random_next := srandom (ucast sec)\<rparr>;
          (next, r) = random (random_next k);
          k = k\<lparr>random_next := next\<rparr>
      in bind_o (panic_screen dev e f (cstring (comments ! (unat r mod length comments))) k)
           (\<lambda>k. Done (Halted k))))"

text \<open>
  The log line of the double fault carries the file and line of the call. The end-of-interrupt
  command uses the vector of the frame as it is after the switch.
\<close>

definition interrupts_handler :: "device \<Rightarrow> symenv \<Rightarrow> registers \<Rightarrow> machine \<Rightarrow> irq_result outcome" where
  "interrupts_handler dev e f k =
     (if has_fault k
      then bind_o (log_impl dev (cstring ''interrupt.c'') 132 (cstring ''DOUBLE FAULT HALTING !!'') [] k)
             (\<lambda>k. Done (Spinning k))
      else if intno f < 32 then panic dev e f k
      else
        bind_o
          (if intno f < 48
           then let irq = ucast (intno f - 32) :: u8
                in if irq = 0 \<and> is_scheduler (ksched k)
                   then bind_o (yield_task f (ksched k)) (\<lambda>(f, s). Done (f, k\<lparr>ksched := s\<rparr>))
                   else Done (f, k)
           else if intno f = 0x80
           then bind_o (arch_serial_puts dev (kmem k) (rdi f) k) (\<lambda>k. Done (f, k))
           else Done (f, k))
          (\<lambda>(f, k). Done (Returned f (k\<lparr>kports := pic_sendEOI (ucast (intno f)) (kports k)\<rparr>))))"

section \<open>Lines and traces\<close>

definition lines_text :: "(u8 list \<times> fmt_value list) list \<Rightarrow> u8 list" where
  "lines_text ls = concat (map (\<lambda>l. fmt_text (fst l) (snd l)) ls)"

lemma print_lines_prints:
  assumes "console_up dev k" "\<forall>l\<in>set ls. line_ok l"
  shows "\<exists>k'. print_lines dev ls k = Done k' \<and> printed k (lines_text ls) k'"
  using assms
proof (induction ls arbitrary: k)
  case Nil
  then show ?case by (simp add: lines_text_def printed_none)
next
  case (Cons l ls)
  obtain k1 where "print_format dev (fst l) (snd l) k = Done k1" "printed k (fmt_text (fst l) (snd l)) k1"
    using line_prints [of dev k l] Cons.prems by auto
  moreover obtain k2 where "print_lines dev ls k1 = Done k2" "printed k1 (lines_text ls) k2"
    using Cons.IH [of k1] Cons.prems calculation(2) by (auto intro: console_up_printed)
  ultimately show ?case by (auto simp: lines_text_def intro: printed_append)
qed

lemma symbol_name_empty:
  assumes "rlength (symbols k) = 0"
  shows "symbol_name e ptr k = Done ([], k)"
proof -
  let ?m = "fst (memset (fst (memset (kmem k) (se_function e) 0 64)) (se_line e) 0 128)"
  have f: "fst (memset m d 0 n) d = 0" if "n \<noteq> 0" for m d n
    using memset_loop_in [of 0 "unat n" 0 m d] that unat_less_bound [of n]
    by (auto simp: memset_def unat_gt_0)
  have "?m (se_function e) = 0"
  proof (cases "\<exists>i<128. se_function e = se_line e + of_nat i")
    case True
    then show ?thesis using memset_loop_in [where n = 128] by (auto simp: memset_def)
  next
    case False
    then show ?thesis using memset_loop_other [where n = 128] f [of 64] by (auto simp: memset_def)
  qed
  then have "read_cstr ?m (se_function e) = Some []" by (subst read_cstr.simps) simp
  then show ?thesis
    using assms by (simp add: symbol_name_def find_symbols_def symbol_loop.simps [where i = 0])
qed

text \<open>The frames of a stack, innermost first, as the list of return addresses.\<close>

fun stack_frames :: "mem \<Rightarrow> u64 \<Rightarrow> u64 list \<Rightarrow> bool" where
  "stack_frames m p [] = (p = 0)"
| "stack_frames m p (ip # ips) =
     (p \<noteq> 0 \<and> load64 m (p + 8) = ip \<and> stack_frames m (load64 m p) ips)"

definition backtrace_text :: "u64 list \<Rightarrow> u8 list" where
  "backtrace_text ips = lines_text (map (\<lambda>ip. (cstring ''{a}'' @ [10], [fmtvald ip])) ips)"

lemma backtrace_prints:
  assumes "console_up dev k" "rlength (symbols k) = 0" "stack_frames (kmem k) p ips"
  shows "\<exists>k'. backtrace dev e p k = Some (Done k') \<and> printed k (backtrace_text ips) k'"
  using assms
proof (induction ips arbitrary: p k)
  case Nil
  then show ?case by (subst backtrace.simps) (simp add: backtrace_text_def lines_text_def printed_none)
next
  case (Cons ip ips)
  let ?l = "(cstring ''{a}'' @ [10], [fmtvald ip])"
  have "line_ok ?l" by (simp add: line_ok_def cstring_def fmtvald_short)
  from line_prints [OF Cons.prems(1) this] obtain k1 where
    k1: "print_format dev (cstring ''{a}'' @ [10]) [fmtvald ip] k = Done k1"
    "printed k (fmt_text (fst ?l) (snd ?l)) k1" by auto
  have "console_up dev k1" "rlength (symbols k1) = 0" "kmem k1 = kmem k"
    using Cons.prems(1,2) printed_frame [OF k1(2)] console_up_printed [OF k1(2)] by simp_all
  moreover obtain k2 where "backtrace dev e (load64 (kmem k) p) k1 = Some (Done k2)"
    "printed k1 (backtrace_text ips) k2"
    using Cons.IH [of k1 "load64 (kmem k) p"] Cons.prems(3) calculation by auto
  ultimately show ?case
    using Cons.prems k1 printed_append [OF k1(2)]
    by (subst backtrace.simps)
      (auto simp: backtrace_line_def symbol_name_empty backtrace_text_def lines_text_def)
qed

lemma messages_short:
  "i < 32 \<Longrightarrow> value_short (fmtvals (cstring (exceptions ! i)))"
  "value_short (fmtvals (cstring (comments ! (j mod length comments))))"
proof -
  have "list_all (\<lambda>s. value_short (fmtvals (cstring s))) (exceptions @ comments)"
    by (simp add: exceptions_def comments_def cstring_def fmtvals_def)
  moreover have "length exceptions = 32" "length comments = 22" by (simp_all add: exceptions_def comments_def)
  ultimately show "i < 32 \<Longrightarrow> value_short (fmtvals (cstring (exceptions ! i)))"
    "value_short (fmtvals (cstring (comments ! (j mod length comments))))"
    by (auto simp: list_all_iff)
qed

lemma panic_lines_ok:
  assumes "intno f < 32"
  shows "\<forall>l\<in>set (panic_banner f (cstring (comments ! (j mod length comments)))). line_ok l"
    "\<forall>l\<in>set (panic_registers f [] c2 c3). line_ok l"
proof -
  have "unat (intno f) < 32" using assms by (simp add: word_less_nat_alt)
  from messages_short(1) [OF this]
  show "\<forall>l\<in>set (panic_banner f (cstring (comments ! (j mod length comments)))). line_ok l"
    by (auto simp: panic_banner_def line_ok_def cstring_def [of "_ # _"] fmtvald_short messages_short)
  show "\<forall>l\<in>set (panic_registers f [] c2 c3). line_ok l"
    by (auto simp: panic_registers_def line_ok_def cstring_def fmtvald_short fmtvals_def)
qed

section \<open>Serving and halting\<close>

lemma yield_frame:
  assumes "sched_ok s"
  obtains r' s' where "yield_task r s = Done (r', s')" "r' = r \<or> (\<exists>i<nproc s. r' = regs (proc s i))"
proof (cases "tick s < SWITCH_TICK")
  case True
  with assms yield_quiet [of s r] that show ?thesis by (auto simp: sched_ok_def)
next
  case False
  with assms have t: "tick s = SWITCH_TICK" by (auto simp: sched_ok_def)
  obtain i where i: "next_running s (unat (current_pid s)) = Some i"
    using assms next_running_Some [of 0 s] by (auto simp: sched_ok_def)
  then have "i < nproc s" using assms by (auto simp: next_running_def find_Some_iff sched_ok_def)
  with yield_switch [OF assms t i, of r] that show ?thesis by (cases "i = unat (current_pid s)") auto
qed

lemma vector_cases:
  assumes "list_all (\<lambda>n. P (of_nat n)) [0..<48]" "(v :: u64) < 48"
  shows "P v"
proof -
  have "unat v < 48" using assms(2) by (simp add: word_less_nat_alt)
  then have "P (of_nat (unat v))" using assms(1) unfolding list_all_iff by (metis atLeastLessThan_iff set_upt zero_le)
  then show ?thesis by simp
qed

lemma vector_slave: "v < 48 \<Longrightarrow> 40 \<le>s (ucast (v :: u64) :: u32) \<longleftrightarrow> 40 \<le> v"
  by (rule vector_cases [where v = v]) code_simp

lemma irq_zero: "v < 48 \<Longrightarrow> 32 \<le> v \<longrightarrow> ((ucast (v - 32 :: u64) :: u8) = 0 \<longleftrightarrow> v = 32)"
  by (rule vector_cases [where v = v]) code_simp

lemma handler_faulted:
  assumes "has_fault k" "console_up dev k"
  shows "\<exists>k'. interrupts_handler dev e f k = Done (Spinning k') \<and> ksched k' = ksched k"
proof -
  have "line_ok (cstring ''DOUBLE FAULT HALTING !!'', [])" "value_short (fmtvals (cstring ''interrupt.c''))"
    by (simp_all add: line_ok_def cstring_def fmtvals_def)
  from log_prints [OF assms(2) this, of 132] assms(1) show ?thesis
    by (auto simp: interrupts_handler_def dest: printed_frame(1))
qed

text \<open>The process shown on the panic screen, if the scheduler runs.\<close>

definition pid_text :: "sched \<Rightarrow> u8 list" where
  "pid_text s = (if is_sched_init s then fmt_text (cstring ''PID: {}'') [fmtvald (current_pid s)] else [])"

lemma pid_prints:
  assumes "console_up dev k" "is_sched_init (ksched k) \<longrightarrow> sched_ok (ksched k)"
  shows "\<exists>k'. print_pid dev k = Done k' \<and> printed k (pid_text (ksched k)) k'"
proof (cases "is_sched_init (ksched k)")
  case True
  let ?s = "ksched k"
  have ok: "sched_ok ?s" using True assms(2) by simp
  then have "pid (proc ?s (unat (current_pid ?s))) = current_pid ?s"
    by (simp add: sched_ok_def table_ok_def)
  moreover have "line_ok (cstring ''PID: {}'', [fmtvald (current_pid ?s)])"
    by (simp add: line_ok_def cstring_def fmtvald_short)
  ultimately show ?thesis
    using line_prints [OF assms(1)] current_proc [OF ok] True by (fastforce simp: pid_text_def print_pid_def)
qed (simp add: pid_text_def print_pid_def printed_none)

definition panic_text :: "registers \<Rightarrow> string \<Rightarrow> machine \<Rightarrow> u64 list \<Rightarrow> u8 list" where
  "panic_text f comment k ips =
     lines_text (panic_banner f (cstring comment)) @ [10] @
     lines_text (panic_registers f [] (fault_addr k) (cr3 (vm (ksched k)))) @
     pid_text (ksched k) @ backtrace_title @ backtrace_text ips"

lemma screen_prints:
  assumes up: "console_up dev k" and n: "intno f < 32" and sym: "rlength (symbols k) = 0"
    and st: "stack_frames (kmem k) (rbp f) ips" and ok: "is_sched_init (ksched k) \<longrightarrow> sched_ok (ksched k)"
    and c: "comment = comments ! (j mod length comments)"
  shows "\<exists>k'. panic_screen dev e f (cstring comment) k = Done k' \<and> printed k (panic_text f comment k ips) k'"
proof -
  obtain k1 where k1: "print_lines dev (panic_banner f (cstring comment)) k = Done k1"
    "printed k (lines_text (panic_banner f (cstring comment))) k1"
    using print_lines_prints [OF up] panic_lines_ok(1) [OF n, of j] c by blast
  note f1 = printed_frame [OF k1(2)] console_up_printed [OF k1(2) up]
  obtain k2 where k2: "puts_text dev [10] k1 = Done k2" "printed k1 [10] k2"
    using puts_text_prints [OF f1(10), of "[10]"] by (auto simp: short_text_def)
  note f2 = printed_frame [OF k2(2)] console_up_printed [OF k2(2) f1(10)]
  let ?regs = "panic_registers f [] (fault_addr k) (cr3 (vm (ksched k)))"
  obtain k3 where k3: "print_lines dev ?regs k2 = Done k3" "printed k2 (lines_text ?regs) k3"
    using print_lines_prints [OF f2(10) panic_lines_ok(2) [OF n]] by blast
  note f3 = printed_frame [OF k3(2)] console_up_printed [OF k3(2) f2(10)]
  have "ksched k3 = ksched k" by (simp add: f1 f2 f3)
  with pid_prints [OF f3(10)] ok obtain k4 where
    k4: "print_pid dev k3 = Done k4" "printed k3 (pid_text (ksched k)) k4" by auto
  note f4 = printed_frame [OF k4(2)] console_up_printed [OF k4(2) f3(10)]
  obtain k5 where k5: "puts_text dev backtrace_title k4 = Done k5" "printed k4 backtrace_title k5"
    using puts_text_prints [OF f4(10), of backtrace_title]
    by (auto simp: short_text_def backtrace_title_def cstring_def)
  note f5 = printed_frame [OF k5(2)] console_up_printed [OF k5(2) f4(10)]
  have frame: "rlength (symbols k5) = 0" "kmem k5 = kmem k" by (simp_all add: f1 f2 f3 f4 f5 sym)
  obtain k6 where k6: "backtrace dev e (rbp f) k5 = Some (Done k6)" "printed k5 (backtrace_text ips) k6"
    using backtrace_prints [OF f5(10) frame(1), of "rbp f" ips e] st frame(2) by auto
  have "printed k (panic_text f comment k ips) k6"
    unfolding panic_text_def by (intro printed_append [OF k1(2)] printed_append [OF k2(2)]
        printed_append [OF k3(2)] printed_append [OF k4(2)] printed_append [OF k5(2)] k6(2))
  moreover have "fault_addr k2 = fault_addr k" "ksched k2 = ksched k" by (simp_all add: f1 f2)
  ultimately show ?thesis
    using k1(1) k2(1) k3(1) k4(1) k5(1) k6(1) 
    by (simp add: panic_screen_def symbol_name_empty [OF sym] run_option_def)
qed

section \<open>Properties\<close>

text \<open>
  C16: an interrupt from the interrupt controller is acknowledged at the master, and at the slave
  exactly when it came through it, and returns; a timer interrupt with the scheduler enabled
  is one tick of the scheduler and returns through the frame the scheduler chose, every other
  one returns to the interrupted code and leaves the scheduler alone.
\<close>

theorem interrupt_dispatch:
  assumes fault: "\<not> has_fault k" and ok: "sched_ok (ksched k)"
    and vec: "32 \<le> intno f" "intno f < 48"
    and saved: "\<forall>i<nproc (ksched k). intno (regs (proc (ksched k) i)) < 40"
  shows "\<exists>f' s'. interrupts_handler dev e f k =
      Done (Returned f' (k\<lparr>ksched := s', kports := (kports k)\<lparr>io_trace := io_trace (kports k) @
        (if 40 \<le> intno f then [Out SLAVE_CMD 0x20] else []) @ [Out MASTER_CMD 0x20]\<rparr>\<rparr>)) \<and>
    (if intno f = 32 \<and> is_scheduler (ksched k) then yield_task f (ksched k) = Done (f', s')
     else f' = f \<and> s' = ksched k)"
proof -
  have irq: "(ucast (intno f - 32) :: u8) = 0 \<longleftrightarrow> intno f = 32" using irq_zero [OF vec(2)] vec(1) by simp
  have eoi: "k\<lparr>kports := pic_sendEOI (ucast (intno g)) (kports k)\<rparr> =
      k\<lparr>kports := (kports k)\<lparr>io_trace := io_trace (kports k) @
        (if 40 \<le> intno g then [Out SLAVE_CMD 0x20] else []) @ [Out MASTER_CMD 0x20]\<rparr>\<rparr>"
    if "intno g < 48" for g k
    using vector_slave [OF that] by (simp add: pic_sendEOI_def asm_out8_def Let_def)
  show ?thesis
  proof (cases "intno f = 32 \<and> is_scheduler (ksched k)")
    case True
    obtain f' s' where y: "yield_task f (ksched k) = Done (f', s')"
      "f' = f \<or> (\<exists>i<nproc (ksched k). f' = regs (proc (ksched k) i))" using ok by (rule yield_frame)
    then have low: "intno f' < 40" using saved True by auto
    then have "intno f' < 48" by (rule less_trans) simp
    with low y(1) True fault irq show ?thesis
      by (simp add: interrupts_handler_def eoi)
  next
    case False
    with vec fault irq show ?thesis by (auto simp: interrupts_handler_def eoi not_less)
  qed
qed

definition demo_machine :: machine where
  "demo_machine = \<lparr>ksched = demo_sched TASK_RUNNING 9, kports = quiet_ports, serial_lock = 0, elf_lock = 0, has_fault = False,
     random_next = 1, symbols = \<lparr>rbase = 0, rlength = 0\<rparr>, strtok_p = 0, fault_addr = 0, kmem = (\<lambda>_. 0)\<rparr>"

definition demo_env :: symenv where
  "demo_env = \<lparr>se_blank = 8, se_zero = 16, se_line = 64, se_function = 256\<rparr>"

theorem interrupt_dispatch_witness:
  "\<exists>s'. interrupts_handler dead_device demo_env (zero_regs\<lparr>intno := 32\<rparr>) demo_machine =
     Done (Returned (zero_regs\<lparr>rip := 0x400000\<rparr>) (demo_machine\<lparr>ksched := s',
       kports := quiet_ports\<lparr>io_trace := [Out 0x20 0x20]\<rparr>\<rparr>))"
proof -
  let ?f = "zero_regs\<lparr>intno := 32\<rparr>"
  have m: "ksched demo_machine = demo_sched TASK_RUNNING 9" "\<not> has_fault demo_machine"
    "kports demo_machine = quiet_ports" by (simp_all add: demo_machine_def)
  have "nproc (demo_sched TASK_RUNNING 9) = 2" by (simp add: demo_sched_def nproc_def)
  then have saved: "\<forall>i<nproc (ksched demo_machine). intno (regs (proc (ksched demo_machine) i)) < 40"
    by (auto simp: m(1) less_2_cases_iff demo_sched_def proc_def zero_process_def zero_regs_def)
  have "sched_ok (ksched demo_machine)" using demo_ok [of 9 TASK_RUNNING] by (simp add: m(1))
  from interrupt_dispatch [OF m(2) this _ _ saved, of ?f dead_device demo_env]
  obtain f' s' where h: "interrupts_handler dead_device demo_env ?f demo_machine =
      Done (Returned f' (demo_machine\<lparr>ksched := s', kports := quiet_ports\<lparr>io_trace := [Out 0x20 0x20]\<rparr>\<rparr>))"
    and y: "yield_task ?f (demo_sched TASK_RUNNING 9) = Done (f', s')"
    by (auto simp: m(1,3) zero_regs_def quiet_ports_def MASTER_CMD_def demo_sched_def)
  have "case yield_task ?f (demo_sched TASK_RUNNING 9) of Done (r, _) \<Rightarrow> r = zero_regs\<lparr>rip := 0x400000\<rparr> | _ \<Rightarrow> False"
    by code_simp
  with h y show ?thesis by auto
qed



end
