(* ===== verification/Navy_Memory.thy ===== *)
theory Navy_Memory
  imports Navy_Prelude
begin

text \<open>
  Structures in byte memory: little-endian writes that match the reads of the prelude, and when
  a write leaves a read alone. Two blocks are kept apart by their distance on the 64-bit circle.
\<close>

section \<open>Writes\<close>

definition store32 :: "mem \<Rightarrow> u64 \<Rightarrow> u32 \<Rightarrow> mem" where
  "store32 m p v = (\<lambda>x. if x - p < 4 then ucast (drop_bit (8 * unat (x - p)) v) else m x)"

definition store64 :: "mem \<Rightarrow> u64 \<Rightarrow> u64 \<Rightarrow> mem" where
  "store64 m p v = (\<lambda>x. if x - p < 8 then ucast (drop_bit (8 * unat (x - p)) v) else m x)"

named_theorems memory_simps \<open>reads after writes\<close>

lemma offset_diff [simp]: "(a :: u64) - (a + b) = - b" "(a + b) - a = b"
  by simp_all

lemma store_outside [memory_simps]:
  "4 \<le> x - p \<Longrightarrow> store32 m p v x = m x" "8 \<le> x - p \<Longrightarrow> store64 m p w x = m x"
  by (auto simp: store32_def store64_def)

section \<open>The bits a read returns\<close>

lemma bit_load16: "bit (load16 m p) n \<longleftrightarrow> n < 16 \<and> bit (m (p + of_nat (n div 8))) (n mod 8)"
proof -
  consider "n < 8" | "8 \<le> n" "n < 16" | "16 \<le> n" by linarith
  then show ?thesis
  proof cases
    case 1
    then show ?thesis by (simp add: load16_def bit_simps)
  next
    case 2
    then have "n div 8 = 1" "n mod 8 = n - 8" by (simp_all add: div_if mod_if)
    with 2 bit_high [of n "m p"] show ?thesis by (auto simp: load16_def bit_simps)
  next
    case 3
    then show ?thesis by (simp add: bit_high)
  qed
qed

lemma bit_load32: "bit (load32 m p) n \<longleftrightarrow> n < 32 \<and> bit (m (p + of_nat (n div 8))) (n mod 8)"
proof (cases "16 \<le> n")
  case True
  then obtain k where k: "n = 16 + k" using le_Suc_ex by blast
  then have "n div 8 = 2 + k div 8" "n mod 8 = k mod 8" by presburger+
  then show ?thesis by (auto simp: load32_def bit_simps bit_load16 k add.assoc)
next
  case False
  then show ?thesis by (simp add: load32_def bit_simps bit_load16)
qed

lemma bit_load64: "bit (load64 m p) n \<longleftrightarrow> n < 64 \<and> bit (m (p + of_nat (n div 8))) (n mod 8)"
proof (cases "32 \<le> n")
  case True
  then obtain k where k: "n = 32 + k" using le_Suc_ex by blast
  then have "n div 8 = 4 + k div 8" "n mod 8 = k mod 8" by presburger+
  then show ?thesis by (auto simp: load64_def bit_simps bit_load32 k add.assoc)
next
  case False
  then show ?thesis by (simp add: load64_def bit_simps bit_load32)
qed

lemma of_nat_less_small: "i < n \<Longrightarrow> n \<le> 8 \<Longrightarrow> (of_nat i :: u64) < of_nat n"
  by (simp add: word_less_nat_alt unat_of_nat_less)

lemma store_inside:
  "i < 4 \<Longrightarrow> store32 m p v (p + of_nat i) = ucast (drop_bit (8 * i) v)"
  "i < 8 \<Longrightarrow> store64 m p w (p + of_nat i) = ucast (drop_bit (8 * i) w)"
  using of_nat_less_small [of i 4] of_nat_less_small [of i 8]
  by (simp_all add: store32_def store64_def unat_of_nat_less)

lemma load_store [memory_simps]: "load32 (store32 m p v) p = v" "load64 (store64 m p w) p = w"
  by (auto simp: bit_load32 bit_load64 store_inside bit_simps less_mult_imp_div_less intro!: bit_word_eqI)

lemma load_cong:
  assumes "\<And>i. i < n \<Longrightarrow> m (p + of_nat i) = m' (p + of_nat i)"
  shows "4 \<le> n \<Longrightarrow> load32 m p = load32 m' p" "8 \<le> n \<Longrightarrow> load64 m p = load64 m' p"
  using assms
  by (auto simp: bit_load32 bit_load64 less_mult_imp_div_less intro!: bit_word_eqI)

text \<open>A write of \<open>n\<close> bytes at \<open>p\<close> and a read of \<open>k\<close> bytes at \<open>q\<close> do not meet.\<close>

lemma circle_apart:
  assumes "of_nat n \<le> q - p" "of_nat k \<le> p - q" "i < k" "n \<le> 64" "k \<le> 64"
  shows "of_nat n \<le> q + of_nat i - (p :: u64)"
proof (cases "q = p")
  case True
  then have "n = 0" using assms(1,4) by (simp add: word_le_nat_alt unat_of_nat_less)
  then show ?thesis by simp
next
  case False
  then have "unat (q - p) \<noteq> 0" by (simp add: unat_eq_0)
  then have "unat (p - q) = 2 ^ 64 - unat (q - p)" using unat_sub_if' [of 0 "q - p"] by simp
  then have "n \<le> unat (q - p)" "unat (q - p) + i < 2 ^ 64" "i < 2 ^ 64"
    using assms by (simp_all add: word_le_nat_alt unat_of_nat_less)
  then have "n \<le> unat ((q - p) + of_nat i)"
    by (subst unat_add_less) (simp_all add: unat_of_nat_less)
  also have "(q - p) + of_nat i = q + of_nat i - p" by simp
  finally show ?thesis using assms by (simp add: word_le_nat_alt unat_of_nat_less)
qed

lemma load_store_apart [memory_simps]:
  "4 \<le> q - p \<Longrightarrow> 4 \<le> p - q \<Longrightarrow> load32 (store32 m p v) q = load32 m q"
  "8 \<le> q - p \<Longrightarrow> 4 \<le> p - q \<Longrightarrow> load32 (store64 m p w) q = load32 m q"
  "4 \<le> q - p \<Longrightarrow> 8 \<le> p - q \<Longrightarrow> load64 (store32 m p v) q = load64 m q"
  "8 \<le> q - p \<Longrightarrow> 8 \<le> p - q \<Longrightarrow> load64 (store64 m p w) q = load64 m q"
  using circle_apart [of 4 q p 4] circle_apart [of 8 q p 4] circle_apart [of 4 q p 8] circle_apart [of 8 q p 8]
  by (auto intro!: load_cong(1) [of 4] load_cong(2) [of 8] store_outside)

end
