(* ===== verification/Navy_Liballoc.thy ===== *)
theory Navy_Liballoc
  imports Navy_Memory Navy_String Navy_Sched
begin

text \<open>
  The kernel heap: \<^verbatim>\<open>libs/liballoc/liballoc.c\<close> over byte memory, its hooks in
  \<^verbatim>\<open>libs/liballoc/compat.c\<close> over the memory managers and the scheduler, and the wrappers of
  \<^verbatim>\<open>kernel/kmalloc.c\<close>. A major is a run of pages from the page allocator, a minor a block
  handed out inside a major; both headers are doubly linked and lie in the memory they describe.
  The hooks are an argument of the allocator, as \<^verbatim>\<open>liballoc.h\<close> declares them. The branches
  compiled only with \<^verbatim>\<open>DEBUG\<close> or \<^verbatim>\<open>INFO\<close> are not part of the kernel.
\<close>

section \<open>The headers\<close>

record liballoc_major =
  maj_prev :: u64
  maj_next :: u64
  maj_pages :: u32
  maj_size :: u32
  maj_usage :: u32
  maj_first :: u64

record liballoc_minor =
  min_prev :: u64
  min_next :: u64
  min_block :: u64
  min_magic :: u32
  min_size :: u32
  min_req_size :: u32

text \<open>Both structures have 40 bytes, with their padding.\<close>

definition sizeof_major :: u64 where "sizeof_major = 40"
definition sizeof_minor :: u64 where "sizeof_minor = 40"

definition read_major :: "mem \<Rightarrow> u64 \<Rightarrow> liballoc_major" where
  "read_major m p =
     \<lparr>maj_prev = load64 m p, maj_next = load64 m (p + 8), maj_pages = load32 m (p + 16),
      maj_size = load32 m (p + 20), maj_usage = load32 m (p + 24), maj_first = load64 m (p + 32)\<rparr>"

definition write_major :: "mem \<Rightarrow> u64 \<Rightarrow> liballoc_major \<Rightarrow> mem" where
  "write_major m p r =
     (let m = store64 m p (maj_prev r);
          m = store64 m (p + 8) (maj_next r);
          m = store32 m (p + 16) (maj_pages r);
          m = store32 m (p + 20) (maj_size r);
          m = store32 m (p + 24) (maj_usage r)
      in store64 m (p + 32) (maj_first r))"

definition read_minor :: "mem \<Rightarrow> u64 \<Rightarrow> liballoc_minor" where
  "read_minor m p =
     \<lparr>min_prev = load64 m p, min_next = load64 m (p + 8), min_block = load64 m (p + 16),
      min_magic = load32 m (p + 24), min_size = load32 m (p + 28), min_req_size = load32 m (p + 32)\<rparr>"

definition write_minor :: "mem \<Rightarrow> u64 \<Rightarrow> liballoc_minor \<Rightarrow> mem" where
  "write_minor m p r =
     (let m = store64 m p (min_prev r);
          m = store64 m (p + 8) (min_next r);
          m = store64 m (p + 16) (min_block r);
          m = store32 m (p + 24) (min_magic r);
          m = store32 m (p + 28) (min_size r)
      in store32 m (p + 32) (min_req_size r))"

section \<open>State and hooks\<close>

text \<open>The static variables of \<^verbatim>\<open>liballoc.c\<close>, the memory, and the state \<open>la_env\<close> of the hooks.\<close>

record 's heap =
  l_memRoot :: u64
  l_bestBet :: u64
  l_allocated :: u64
  l_inuse :: u64
  l_warningCount :: u64
  l_errorCount :: u64
  l_possibleOverruns :: u64
  la_mem :: mem
  la_env :: 's

record 's hooks =
  hk_lock :: "'s \<Rightarrow> 's outcome"
  hk_unlock :: "'s \<Rightarrow> 's outcome"
  hk_alloc :: "u32 \<Rightarrow> 's \<Rightarrow> (u64 \<times> 's) outcome"
  hk_free :: "u64 \<Rightarrow> u32 \<Rightarrow> 's \<Rightarrow> 's outcome"

definition l_pageSize :: u32 where "l_pageSize = 4096"
definition l_pageCount :: u32 where "l_pageCount = 16"
definition ALIGNMENT :: u64 where "ALIGNMENT = 16"
definition ALIGN_INFO :: u64 where "ALIGN_INFO = 16"
definition LIBALLOC_MAGIC :: u32 where "LIBALLOC_MAGIC = 0xc001c0de"
definition LIBALLOC_DEAD :: u32 where "LIBALLOC_DEAD = 0xdeaddead"

definition major :: "'s heap \<Rightarrow> u64 \<Rightarrow> liballoc_major" where
  "major h p = read_major (la_mem h) p"

definition minor :: "'s heap \<Rightarrow> u64 \<Rightarrow> liballoc_minor" where
  "minor h p = read_minor (la_mem h) p"

text \<open>An assignment to fields of a header: the other fields are written back as they were read.\<close>

definition set_major :: "u64 \<Rightarrow> (liballoc_major \<Rightarrow> liballoc_major) \<Rightarrow> 's heap \<Rightarrow> 's heap" where
  "set_major p f h = h\<lparr>la_mem := write_major (la_mem h) p (f (major h p))\<rparr>"

definition set_minor :: "u64 \<Rightarrow> (liballoc_minor \<Rightarrow> liballoc_minor) \<Rightarrow> 's heap \<Rightarrow> 's heap" where
  "set_minor p f h = h\<lparr>la_mem := write_minor (la_mem h) p (f (minor h p))\<rparr>"

definition liballoc_lock :: "'s hooks \<Rightarrow> 's heap \<Rightarrow> 's heap outcome" where
  "liballoc_lock hk h = bind_o (hk_lock hk (la_env h)) (\<lambda>s. Done (h\<lparr>la_env := s\<rparr>))"

definition liballoc_unlock :: "'s hooks \<Rightarrow> 's heap \<Rightarrow> 's heap outcome" where
  "liballoc_unlock hk h = bind_o (hk_unlock hk (la_env h)) (\<lambda>s. Done (h\<lparr>la_env := s\<rparr>))"

section \<open>Alignment\<close>

definition ALIGN :: "u64 \<Rightarrow> 's heap \<Rightarrow> u64 \<times> 's heap" where
  "ALIGN ptr h =
     (let ptr = ptr + ALIGN_INFO;
          diff = ptr AND (ALIGNMENT - 1);
          (diff, ptr) = (if diff \<noteq> 0 then (ALIGNMENT - diff, ptr + (ALIGNMENT - diff)) else (diff, ptr))
      in (ptr, h\<lparr>la_mem := (la_mem h)(ptr - ALIGN_INFO := ucast (diff + ALIGN_INFO))\<rparr>))"

definition UNALIGN :: "mem \<Rightarrow> u64 \<Rightarrow> u64" where
  "UNALIGN m ptr =
     (let diff = scast (m (ptr - ALIGN_INFO))
      in if diff < ALIGNMENT + ALIGN_INFO then ptr - diff else ptr)"

section \<open>Copying\<close>

partial_function (option) memset_from :: "u64 \<Rightarrow> u8 \<Rightarrow> u64 \<Rightarrow> u32 \<Rightarrow> mem \<Rightarrow> mem option" where
  "memset_from s c n i m =
     (if (ucast i :: u64) < n then memset_from s c n (i + 1) (m(s + ucast i := c)) else Some m)"

declare memset_from.simps [code]

definition liballoc_memset :: "u64 \<Rightarrow> u8 \<Rightarrow> u64 \<Rightarrow> mem \<Rightarrow> mem option" where
  "liballoc_memset s c n m = memset_from s c n 0 m"

function copy_bytes :: "u64 \<Rightarrow> u64 \<Rightarrow> u64 \<Rightarrow> mem \<Rightarrow> mem" where
  "copy_bytes cdest csrc n m =
     (if n > 0 then copy_bytes (cdest + 1) (csrc + 1) (n - 1) (m(cdest := m csrc)) else m)"
  by auto
termination by (relation "measure (\<lambda>(d, s, n, m). unat n)") (auto simp: measure_unat)

function liballoc_memcpy :: "u64 \<Rightarrow> u64 \<Rightarrow> u64 \<Rightarrow> mem \<Rightarrow> mem" where
  "liballoc_memcpy s1 s2 n m =
     (if n \<ge> 4 then liballoc_memcpy (s1 + 4) (s2 + 4) (n - 4) (store32 m s1 (load32 m s2))
      else copy_bytes s1 s2 n m)"
  by auto
termination
  by (relation "measure (\<lambda>(d, s, n, m). unat n)") (auto simp: word_le_nat_alt unat_sub)

declare copy_bytes.simps [simp del] liballoc_memcpy.simps [simp del]

section \<open>New majors\<close>

text \<open>The number of pages for a block, at least \<^verbatim>\<open>l_pageCount\<close>.\<close>

definition page_count :: "u32 \<Rightarrow> u32" where
  "page_count n =
     (let st = ucast (ucast n + sizeof_major) :: u32;
          st = ucast (ucast st + sizeof_minor) :: u32;
          st = (if st mod l_pageSize = 0 then st div l_pageSize else st div l_pageSize + 1)
      in if st < l_pageCount then l_pageCount else st)"

definition allocate_new_page :: "'s hooks \<Rightarrow> u32 \<Rightarrow> 's heap \<Rightarrow> (u64 \<times> 's heap) outcome" where
  "allocate_new_page hk n h =
     (let st = page_count n
      in bind_o (hk_alloc hk st (la_env h)) (\<lambda>(maj, s).
         let h = h\<lparr>la_env := s\<rparr> in
         if maj = 0 then Done (0, h\<lparr>l_warningCount := l_warningCount h + 1\<rparr>)
         else
           let h = set_major maj (\<lambda>r. r\<lparr>maj_prev := 0, maj_next := 0, maj_pages := st, maj_size := st * l_pageSize,
                     maj_usage := ucast sizeof_major, maj_first := 0\<rparr>) h;
               h = h\<lparr>l_allocated := l_allocated h + ucast (maj_size (major h maj))\<rparr>
           in Done (maj, h)))"

section \<open>Placing a minor\<close>

text \<open>The end of every successful case: account for the block and align the pointer to its data.\<close>

definition hand_out :: "u64 \<Rightarrow> u64 \<Rightarrow> u64 \<Rightarrow> 's heap \<Rightarrow> u64 \<times> 's heap" where
  "hand_out maj a n h =
     (let h = set_major maj (\<lambda>r. r\<lparr>maj_usage := ucast (ucast (maj_usage r) + (n + sizeof_minor))\<rparr>) h;
          h = h\<lparr>l_inuse := l_inuse h + n\<rparr>
      in ALIGN (a + sizeof_minor) h)"

definition case2 :: "u64 \<Rightarrow> u64 \<Rightarrow> u64 \<Rightarrow> 's heap \<Rightarrow> u64 \<times> 's heap" where
  "case2 req n maj h =
     (let a = maj + sizeof_major;
          h = set_major maj (\<lambda>r. r\<lparr>maj_first := a\<rparr>) h;
          h = set_minor a (\<lambda>r. r\<lparr>min_magic := LIBALLOC_MAGIC, min_prev := 0, min_next := 0, min_block := maj,
                min_size := ucast n, min_req_size := ucast req\<rparr>) h
      in hand_out maj a n h)"

definition case3 :: "u64 \<Rightarrow> u64 \<Rightarrow> u64 \<Rightarrow> 's heap \<Rightarrow> u64 \<times> 's heap" where
  "case3 req n maj h =
     (let a = maj + sizeof_major;
          b = maj_first (major h maj);
          h = set_minor b (\<lambda>r. r\<lparr>min_prev := a\<rparr>) h;
          h = set_minor a (\<lambda>r. r\<lparr>min_next := b\<rparr>) h;
          h = set_major maj (\<lambda>r. r\<lparr>maj_first := a\<rparr>) h;
          h = set_minor a (\<lambda>r. r\<lparr>min_magic := LIBALLOC_MAGIC, min_prev := 0, min_block := maj,
                min_size := ucast n, min_req_size := ucast req\<rparr>) h
      in hand_out maj a n h)"

definition case41 :: "u64 \<Rightarrow> u64 \<Rightarrow> u64 \<Rightarrow> u64 \<Rightarrow> 's heap \<Rightarrow> u64 \<times> 's heap" where
  "case41 req n maj b h =
     (let a = b + sizeof_minor + ucast (min_size (minor h b));
          h = set_minor b (\<lambda>r. r\<lparr>min_next := a\<rparr>) h;
          h = set_minor a (\<lambda>r. r\<lparr>min_prev := b\<rparr>) h;
          h = set_minor a (\<lambda>r. r\<lparr>min_next := 0, min_magic := LIBALLOC_MAGIC, min_block := maj,
                min_size := ucast n, min_req_size := ucast req\<rparr>) h
      in hand_out maj a n h)"

definition case42 :: "u64 \<Rightarrow> u64 \<Rightarrow> u64 \<Rightarrow> u64 \<Rightarrow> 's heap \<Rightarrow> u64 \<times> 's heap" where
  "case42 req n maj b h =
     (let a = b + sizeof_minor + ucast (min_size (minor h b));
          h = set_minor a (\<lambda>r. r\<lparr>min_magic := LIBALLOC_MAGIC, min_next := min_next (minor h b), min_prev := b,
                min_size := ucast n, min_req_size := ucast req, min_block := maj\<rparr>) h;
          h = set_minor (min_next (minor h b)) (\<lambda>r. r\<lparr>min_prev := a\<rparr>) h;
          h = set_minor b (\<lambda>r. r\<lparr>min_next := a\<rparr>) h
      in hand_out maj a n h)"

text \<open>The walk over the minors of a block: no gap is large enough, or the block is placed.\<close>

partial_function (option) case4_loop ::
  "u64 \<Rightarrow> u64 \<Rightarrow> u64 \<Rightarrow> u64 \<Rightarrow> 's heap \<Rightarrow> (u64 \<times> 's heap) option option" where
  "case4_loop req n maj b h =
     (if b = 0 then Some None
      else
        let next = min_next (minor h b) in
        if next = 0
        then if maj + ucast (maj_size (major h maj)) - b - sizeof_minor - ucast (min_size (minor h b)) \<ge> n + sizeof_minor
             then Some (Some (case41 req n maj b h))
             else case4_loop req n maj next h
        else if next - b - sizeof_minor - ucast (min_size (minor h b)) \<ge> n + sizeof_minor
             then Some (Some (case42 req n maj b h))
             else case4_loop req n maj next h)"

declare case4_loop.simps [code]

definition try_block :: "u64 \<Rightarrow> u64 \<Rightarrow> u64 \<Rightarrow> 's heap \<Rightarrow> (u64 \<times> 's heap) option option" where
  "try_block req n maj h =
     (let first = maj_first (major h maj) in
      if first = 0 then Some (Some (case2 req n maj h))
      else if first - maj - sizeof_major \<ge> n + sizeof_minor then Some (Some (case3 req n maj h))
      else case4_loop req n maj first h)"

section \<open>The search over the majors\<close>

text \<open>
  One turn of the loop of \<^verbatim>\<open>liballoc_malloc\<close> either goes on with a major (\<^verbatim>\<open>continue\<close>, with the
  flag \<^verbatim>\<open>startedBet\<close>), leaves the function with a pointer, null after \<^verbatim>\<open>break\<close>, or, inside the turn,
  falls through to the next case.
\<close>

datatype 's turn = Hop u64 bool "'s heap" | Leave u64 "'s heap" | Stay u64 "'s heap"

text \<open>\<^verbatim>\<open>maj->next = allocate_new_page(size)\<close> with the link back.\<close>

definition append_major :: "'s hooks \<Rightarrow> u64 \<Rightarrow> u64 \<Rightarrow> 's heap \<Rightarrow> 's turn outcome" where
  "append_major hk n maj h =
     bind_o (allocate_new_page hk (ucast n) h) (\<lambda>(a, h).
     let h = set_major maj (\<lambda>r. r\<lparr>maj_next := a\<rparr>) h in
     if a = 0 then Done (Leave 0 h)
     else Done (Stay a (set_major a (\<lambda>r. r\<lparr>maj_prev := maj\<rparr>) h)))"

definition free_space :: "'s heap \<Rightarrow> u64 \<Rightarrow> u64" where
  "free_space h maj = ucast (maj_size (major h maj) - maj_usage (major h maj))"

definition case1 :: "'s hooks \<Rightarrow> u64 \<Rightarrow> u64 \<Rightarrow> bool \<Rightarrow> 's heap \<Rightarrow> 's turn outcome" where
  "case1 hk n maj started h =
     (if free_space h maj < n + sizeof_minor
      then
        if maj_next (major h maj) \<noteq> 0 then Done (Hop (maj_next (major h maj)) started h)
        else if started then Done (Hop (l_memRoot h) False h)
        else append_major hk n maj h
      else Done (Stay maj h))"

definition case5 :: "'s hooks \<Rightarrow> u64 \<Rightarrow> u64 \<Rightarrow> bool \<Rightarrow> 's heap \<Rightarrow> 's turn outcome" where
  "case5 hk n maj started h =
     (if maj_next (major h maj) = 0
      then
        if started then Done (Hop (l_memRoot h) False h)
        else bind_o (append_major hk n maj h) (\<lambda>t.
             case t of Stay a h \<Rightarrow> Done (Hop a started h) | _ \<Rightarrow> Done t)
      else Done (Hop (maj_next (major h maj)) started h))"

definition malloc_turn :: "'s hooks \<Rightarrow> u64 \<Rightarrow> u64 \<Rightarrow> u64 \<Rightarrow> bool \<Rightarrow> 's heap \<Rightarrow> 's turn outcome option" where
  "malloc_turn hk req n maj started h =
     (case case1 hk n maj started h of
        Done (Stay maj h) \<Rightarrow>
          (case try_block req n maj h of
             None \<Rightarrow> None
           | Some (Some (p, h)) \<Rightarrow> Some (Done (Leave p h))
           | Some None \<Rightarrow> Some (case5 hk n maj started h))
      | t \<Rightarrow> Some t)"

partial_function (option) malloc_loop ::
  "'s hooks \<Rightarrow> u64 \<Rightarrow> u64 \<Rightarrow> u64 \<Rightarrow> bool \<Rightarrow> u64 \<Rightarrow> 's heap \<Rightarrow> (u64 \<times> 's heap) outcome option" where
  "malloc_loop hk req n maj started bestSize h =
     (if maj = 0 then Some (Done (0, h))
      else
        let diff = free_space h maj;
            better = bestSize < diff
        in case malloc_turn hk req n maj started (if better then h\<lparr>l_bestBet := maj\<rparr> else h) of
             None \<Rightarrow> None
           | Some (Done (Hop maj' started' h')) \<Rightarrow>
               malloc_loop hk req n maj' started' (if better then diff else bestSize) h'
           | Some (Done (Leave p h')) \<Rightarrow> Some (Done (p, h'))
           | Some (Done (Stay a h')) \<Rightarrow> Some (Done (0, h'))
           | Some (Fault e) \<Rightarrow> Some (Fault e)
           | Some Hang \<Rightarrow> Some Hang)"

declare malloc_loop.simps [code]

definition init_root :: "'s hooks \<Rightarrow> u64 \<Rightarrow> 's heap \<Rightarrow> 's heap outcome" where
  "init_root hk n h =
     (if l_memRoot h = 0
      then bind_o (allocate_new_page hk (ucast n) h) (\<lambda>(r, h). Done (h\<lparr>l_memRoot := r\<rparr>))
      else Done h)"

definition start_search :: "u64 \<Rightarrow> 's heap \<Rightarrow> u64 \<times> bool \<times> u64" where
  "start_search n h =
     (if l_bestBet h \<noteq> 0
      then let bestSize = free_space h (l_bestBet h)
           in if bestSize > n + sizeof_minor then (l_bestBet h, True, bestSize)
              else (l_memRoot h, False, bestSize)
      else (l_memRoot h, False, 0))"

definition malloc_sized :: "'s hooks \<Rightarrow> u64 \<Rightarrow> u64 \<Rightarrow> 's heap \<Rightarrow> (u64 \<times> 's heap) outcome" where
  "malloc_sized hk req n h =
     bind_o (liballoc_lock hk h) (\<lambda>h.
     bind_o (init_root hk n h) (\<lambda>h.
     bind_o
       (if l_memRoot h = 0 then Done (0, h)
        else let (maj, started, bestSize) = start_search n h
             in run_option (malloc_loop hk req n maj started bestSize h))
       (\<lambda>(p, h). bind_o (liballoc_unlock hk h) (\<lambda>h. Done (p, h)))))"

text \<open>A padded size of 0 is the only case of the recursive call, whose own size is not 0.\<close>

definition liballoc_malloc :: "'s hooks \<Rightarrow> u64 \<Rightarrow> 's heap \<Rightarrow> (u64 \<times> 's heap) outcome" where
  "liballoc_malloc hk req_size h =
     (let n = req_size + (ALIGNMENT + ALIGN_INFO) in
      if n = 0
      then bind_o (liballoc_lock hk h) (\<lambda>h.
           bind_o (liballoc_unlock hk (h\<lparr>l_warningCount := l_warningCount h + 1\<rparr>)) (\<lambda>h.
           malloc_sized hk 1 (1 + (ALIGNMENT + ALIGN_INFO)) h))
      else malloc_sized hk req_size n h)"

section \<open>Releasing\<close>

definition bad_magic :: "u32 \<Rightarrow> 's heap \<Rightarrow> 's heap" where
  "bad_magic magic h =
     (let h = h\<lparr>l_errorCount := l_errorCount h + 1\<rparr>
      in if magic AND 0xFFFFFF = LIBALLOC_MAGIC AND 0xFFFFFF \<or> magic AND 0xFFFF = LIBALLOC_MAGIC AND 0xFFFF \<or>
            magic AND 0xFF = LIBALLOC_MAGIC AND 0xFF
         then h\<lparr>l_possibleOverruns := l_possibleOverruns h + 1\<rparr> else h)"

definition unlink_minor :: "u64 \<Rightarrow> u64 \<Rightarrow> 's heap \<Rightarrow> 's heap" where
  "unlink_minor maj a h =
     (let h = h\<lparr>l_inuse := l_inuse h - ucast (min_size (minor h a))\<rparr>;
          h = set_major maj (\<lambda>r. r\<lparr>maj_usage :=
                ucast (ucast (maj_usage r) - (ucast (min_size (minor h a)) + sizeof_minor))\<rparr>) h;
          h = set_minor a (\<lambda>r. r\<lparr>min_magic := LIBALLOC_DEAD\<rparr>) h;
          h = (if min_next (minor h a) \<noteq> 0
               then set_minor (min_next (minor h a)) (\<lambda>r. r\<lparr>min_prev := min_prev (minor h a)\<rparr>) h else h);
          h = (if min_prev (minor h a) \<noteq> 0
               then set_minor (min_prev (minor h a)) (\<lambda>r. r\<lparr>min_next := min_next (minor h a)\<rparr>) h else h)
      in if min_prev (minor h a) = 0 then set_major maj (\<lambda>r. r\<lparr>maj_first := min_next (minor h a)\<rparr>) h else h)"

definition release_major :: "'s hooks \<Rightarrow> u64 \<Rightarrow> 's heap \<Rightarrow> 's heap outcome" where
  "release_major hk maj h =
     (let h = (if l_memRoot h = maj then h\<lparr>l_memRoot := maj_next (major h maj)\<rparr> else h);
          h = (if l_bestBet h = maj then h\<lparr>l_bestBet := 0\<rparr> else h);
          h = (if maj_prev (major h maj) \<noteq> 0
               then set_major (maj_prev (major h maj)) (\<lambda>r. r\<lparr>maj_next := maj_next (major h maj)\<rparr>) h else h);
          h = (if maj_next (major h maj) \<noteq> 0
               then set_major (maj_next (major h maj)) (\<lambda>r. r\<lparr>maj_prev := maj_prev (major h maj)\<rparr>) h else h);
          h = h\<lparr>l_allocated := l_allocated h - ucast (maj_size (major h maj))\<rparr>
      in bind_o (hk_free hk maj (maj_pages (major h maj)) (la_env h)) (\<lambda>s. Done (h\<lparr>la_env := s\<rparr>)))"

text \<open>The comparison is of signed integers.\<close>

definition update_best :: "u64 \<Rightarrow> 's heap \<Rightarrow> 's heap" where
  "update_best maj h =
     (if l_bestBet h \<noteq> 0
      then let bestSize = maj_size (major h (l_bestBet h)) - maj_usage (major h (l_bestBet h));
               majSize = maj_size (major h maj) - maj_usage (major h maj)
           in if sint majSize > sint bestSize then h\<lparr>l_bestBet := maj\<rparr> else h
      else h)"

definition liballoc_free :: "'s hooks \<Rightarrow> u64 \<Rightarrow> 's heap \<Rightarrow> 's heap outcome" where
  "liballoc_free hk ptr h =
     (if ptr = 0 then Done (h\<lparr>l_warningCount := l_warningCount h + 1\<rparr>)
      else
        let ptr = UNALIGN (la_mem h) ptr in
        bind_o (liballoc_lock hk h) (\<lambda>h.
        let a = ptr - sizeof_minor in
        if min_magic (minor h a) \<noteq> LIBALLOC_MAGIC
        then liballoc_unlock hk (bad_magic (min_magic (minor h a)) h)
        else
          let maj = min_block (minor h a);
              h = unlink_minor maj a h
          in bind_o (if maj_first (major h maj) = 0 then release_major hk maj h else Done (update_best maj h))
               (liballoc_unlock hk)))"

definition write_ptr :: "u64 \<Rightarrow> u64 \<Rightarrow> 'a outcome \<Rightarrow> 'a outcome" where
  "write_ptr p n k = (if p = 0 \<and> n \<noteq> 0 then Fault Null_deref else k)"

definition liballoc_calloc :: "'s hooks \<Rightarrow> u64 \<Rightarrow> u64 \<Rightarrow> 's heap \<Rightarrow> (u64 \<times> 's heap) outcome" where
  "liballoc_calloc hk nobj obj_size h =
     (let real_size = scast (ucast (nobj * obj_size) :: u32) in
      bind_o (liballoc_malloc hk real_size h) (\<lambda>(p, h).
      write_ptr p real_size
        (bind_o (of_option (liballoc_memset p 0 real_size (la_mem h))) (\<lambda>m. Done (p, h\<lparr>la_mem := m\<rparr>)))))"

definition liballoc_realloc :: "'s hooks \<Rightarrow> u64 \<Rightarrow> u64 \<Rightarrow> 's heap \<Rightarrow> (u64 \<times> 's heap) outcome" where
  "liballoc_realloc hk p n h =
     (if n = 0 then bind_o (liballoc_free hk p h) (\<lambda>h. Done (0, h))
      else if p = 0 then liballoc_malloc hk n h
      else
        let ptr = UNALIGN (la_mem h) p in
        bind_o (liballoc_lock hk h) (\<lambda>h.
        let a = ptr - sizeof_minor in
        if min_magic (minor h a) \<noteq> LIBALLOC_MAGIC
        then bind_o (liballoc_unlock hk (bad_magic (min_magic (minor h a)) h)) (\<lambda>h. Done (0, h))
        else
          let real_size = ucast (min_req_size (minor h a)) :: u64 in
          if real_size \<ge> n
          then bind_o (liballoc_unlock hk (set_minor a (\<lambda>r. r\<lparr>min_req_size := ucast n\<rparr>) h)) (\<lambda>h. Done (p, h))
          else
            bind_o (liballoc_unlock hk h) (\<lambda>h.
            bind_o (liballoc_malloc hk n h) (\<lambda>(ptr, h).
            write_ptr ptr real_size
              (bind_o (liballoc_free hk p (h\<lparr>la_mem := liballoc_memcpy ptr p real_size (la_mem h)\<rparr>)) (\<lambda>h.
               Done (ptr, h)))))))"

section \<open>The hooks of the kernel\<close>

record kernel_env =
  ke_lock :: u32
  ke_sched :: sched

definition compat_lock :: "kernel_env \<Rightarrow> kernel_env outcome" where
  "compat_lock s = bind_o (arch_acquire (ke_lock s)) (\<lambda>l. Done (s\<lparr>ke_lock := l\<rparr>))"

definition compat_unlock :: "kernel_env \<Rightarrow> kernel_env outcome" where
  "compat_unlock s = Done (s\<lparr>ke_lock := arch_release (ke_lock s)\<rparr>)"

text \<open>\<^verbatim>\<open>size * PAGE_SIZE\<close> is a product of 32-bit integers, widened with its sign.\<close>

definition liballoc_alloc :: "u32 \<Rightarrow> kernel_env \<Rightarrow> (u64 \<times> kernel_env) outcome" where
  "liballoc_alloc n s =
     bind_o
       (if is_sched_init (ke_sched s)
        then bind_o (sched_current_process (ke_sched s)) (\<lambda>p.
             bind_o (get_proc p (ke_sched s)) (\<lambda>x. Done (pml x)))
        else Done (get_kernel_space (vm (ke_sched s)))) (\<lambda>space.
     bind_o (arch_pmm_alloc (scast (n * 4096)) (ke_sched s)) (\<lambda>(phys, k).
     kassert (rlength phys > 0) (
     bind_o (arch_vmm_map space \<lparr>rbase = mmap_phys_to_io (rbase phys), rlength = rlength phys\<rparr> phys True k) (\<lambda>k.
     Done (mmap_phys_to_io (rbase phys), s\<lparr>ke_sched := k\<rparr>)))))"

definition liballoc_free_pages :: "u64 \<Rightarrow> u32 \<Rightarrow> kernel_env \<Rightarrow> kernel_env outcome" where
  "liballoc_free_pages ptr pages s =
     bind_o (call_pmm_free \<lparr>rbase = ptr, rlength = scast pages\<rparr> (ke_sched s)) (\<lambda>k. Done (s\<lparr>ke_sched := k\<rparr>))"

definition kernel_hooks :: "kernel_env hooks" where
  "kernel_hooks = \<lparr>hk_lock = compat_lock, hk_unlock = compat_unlock, hk_alloc = liballoc_alloc, hk_free = liballoc_free_pages\<rparr>"

section \<open>The wrappers\<close>

type_synonym kheap = "kernel_env heap"

definition kmalloc :: "u64 \<Rightarrow> kheap \<Rightarrow> (u64 \<times> kheap) outcome" where
  "kmalloc count h = liballoc_malloc kernel_hooks count h"

definition kcalloc :: "u64 \<Rightarrow> kheap \<Rightarrow> (u64 \<times> kheap) outcome" where
  "kcalloc count h =
     bind_o (liballoc_malloc kernel_hooks count h) (\<lambda>(ptr, h).
     write_ptr ptr count (Done (ptr, h\<lparr>la_mem := fst (memset (la_mem h) ptr 0 count)\<rparr>)))"

definition krealloc :: "u64 \<Rightarrow> u64 \<Rightarrow> kheap \<Rightarrow> (u64 \<times> kheap) outcome" where
  "krealloc ptr count h = liballoc_realloc kernel_hooks ptr count h"

definition kfree :: "u64 \<Rightarrow> kheap \<Rightarrow> kheap outcome" where
  "kfree ptr h = liballoc_free kernel_hooks ptr h"

end
