(* ===== verification/Navy_Heap.thy ===== *)
theory Navy_Heap
  imports Navy_Liballoc
begin

text \<open>
  Why the kernel heap is sound: the headers of \<open>Navy_Liballoc\<close> always describe a layout of
  disjoint blocks. Lemmas about headers in memory come first, then the layout as a list of
  regions with their pieces, the invariant that memory represents it, and what every case of
  \<^verbatim>\<open>liballoc_malloc\<close> and \<^verbatim>\<open>liballoc_free\<close> does to it.
\<close>

section \<open>Truncation to 32 bits\<close>

named_theorems down_simps \<open>32-bit fields computed with 64-bit numbers\<close>

lemma take_bit_32_64:
  "take_bit 32 (take_bit 64 a + take_bit 64 b) = take_bit 32 (a + (b :: int))"
  "take_bit 32 (take_bit 64 a - take_bit 64 b) = take_bit 32 (a - (b :: int))"
  using take_bit_add [of 32 "take_bit 64 a" "take_bit 64 b"] take_bit_add [of 32 a b]
    take_bit_diff [of 32 "take_bit 64 a" "take_bit 64 b"] take_bit_diff [of 32 a b] by simp_all

lemma ucast_down [down_simps]:
  "(ucast (a + b :: u64) :: u32) = ucast a + ucast b"
  "(ucast (a - b :: u64) :: u32) = ucast a - ucast b"
  "(ucast (of_nat k :: u64) :: u32) = of_nat k"
  "(ucast (ucast u :: u64) :: u32) = u"
  by (transfer; simp add: take_bit_32_64 take_bit_of_nat flip: of_nat_take_bit)+

section \<open>Headers in memory\<close>

lemma word_minus_bound:
  fixes y :: u64
  assumes "40 \<le> y"
  shows "8 \<le> y" "8 \<le> y - 8" "8 \<le> y - 16" "4 \<le> y - 16" "4 \<le> y - 20" "4 \<le> y - 24" "4 \<le> y - 28" "4 \<le> y - 32" "8 \<le> y - 32"
  using assms by (simp_all add: word_le_nat_alt unat_sub)

lemma read_write_major [simp]: "read_major (write_major m p r) p = r"
  by (simp add: read_major_def write_major_def Let_def memory_simps)

lemma read_write_minor [simp]: "read_minor (write_minor m p r) p = r"
  by (simp add: read_minor_def write_minor_def Let_def memory_simps)

lemma write_header_outside:
  assumes "40 \<le> x - p"
  shows "write_major m p r x = m x" "write_minor m p s x = m x"
  using word_minus_bound [OF assms]
  by (simp_all add: write_major_def write_minor_def Let_def store_outside diff_diff_eq [symmetric])

text \<open>A header of 40 bytes that does not wrap around, and addresses outside it.\<close>

definition hdr :: "u64 \<Rightarrow> bool" where
  "hdr p \<longleftrightarrow> unat p + 40 \<le> 2 ^ 64"

definition inside :: "u64 \<Rightarrow> nat \<Rightarrow> u64 \<Rightarrow> bool" where
  "inside p n x \<longleftrightarrow> unat p \<le> unat x \<and> unat x < unat p + n"

lemma outside_distance: "hdr p \<Longrightarrow> \<not> inside p 40 x \<Longrightarrow> 40 \<le> x - p"
  using unat_less_bound [of x] by (auto simp: hdr_def inside_def word_le_nat_alt unat_sub_if')

lemma inside_offset: "unat p + n \<le> 2 ^ 64 \<Longrightarrow> i < n \<Longrightarrow> inside p n (p + of_nat i)"
proof -
  assume "unat p + n \<le> 2 ^ 64" "i < n"
  then have "unat (p + of_nat i) = unat p + i" by (subst unat_add_less) (simp_all add: unat_of_nat_less)
  with \<open>i < n\<close> show ?thesis by (simp add: inside_def)
qed

lemma read_header_cong:
  assumes "hdr p" "\<And>x. inside p 40 x \<Longrightarrow> m x = m' x"
  shows "read_major m p = read_major m' p" "read_minor m p = read_minor m' p"
proof -
  have at: "m (p + of_nat i) = m' (p + of_nat i)" if "i < 40" for i
    using assms(1) that by (intro assms(2) inside_offset) (simp_all add: hdr_def)
  have l: "load64 m (p + of_nat k) = load64 m' (p + of_nat k)" if "k \<le> 32" for k
    using at [of "k + _"] that by (intro load_cong(2) [of 8]) (simp_all add: add.assoc flip: of_nat_add)
  have w: "load32 m (p + of_nat k) = load32 m' (p + of_nat k)" if "k \<le> 32" for k
    using at [of "k + _"] that by (intro load_cong(1) [of 4]) (simp_all add: add.assoc flip: of_nat_add)
  show "read_major m p = read_major m' p" "read_minor m p = read_minor m' p"
    using l [of 0] l [of 8] l [of 16] l [of 32] w [of 16] w [of 20] w [of 24] w [of 28] w [of 32]
    by (simp_all add: read_major_def read_minor_def)
qed

text \<open>Two headers that do not meet.\<close>

definition apart :: "u64 \<Rightarrow> u64 \<Rightarrow> bool" where
  "apart p q \<longleftrightarrow> hdr p \<and> hdr q \<and> (unat p + 40 \<le> unat q \<or> unat q + 40 \<le> unat p)"

lemma apart_sym: "apart p q \<Longrightarrow> apart q p"
  by (auto simp: apart_def)

lemma apart_outside: "apart p q \<Longrightarrow> inside q 40 x \<Longrightarrow> 40 \<le> x - p"
  by (rule outside_distance) (auto simp: apart_def inside_def)

lemma set_header_same [simp]:
  "major (set_major p f h) p = f (major h p)" "minor (set_minor p g h) p = g (minor h p)"
  by (simp_all add: major_def minor_def set_major_def set_minor_def)

lemma set_header_apart [simp]:
  assumes "apart p q"
  shows "major (set_major p f h) q = major h q" "major (set_minor p g h) q = major h q"
    "minor (set_major p f h) q = minor h q" "minor (set_minor p g h) q = minor h q"
proof -
  have q: "hdr q" using assms by (simp add: apart_def)
  have out: "write_major m p r x = m x" "write_minor m p s x = m x" if "inside q 40 x" for m x r s
    using write_header_outside apart_outside [OF assms that] by blast+
  have "read_major (write_major m p r) q = read_major m q" "read_major (write_minor m p s) q = read_major m q"
    "read_minor (write_major m p r) q = read_minor m q" "read_minor (write_minor m p s) q = read_minor m q" for m r s
    by (rule read_header_cong(1) [OF q] read_header_cong(2) [OF q]; rule out; assumption)+
  then show "major (set_major p f h) q = major h q" "major (set_minor p g h) q = major h q"
    "minor (set_major p f h) q = minor h q" "minor (set_minor p g h) q = minor h q"
    by (simp_all add: major_def minor_def set_major_def set_minor_def)
qed

lemma set_header_mem:
  assumes "hdr p" "\<not> inside p 40 x"
  shows "la_mem (set_major p f h) x = la_mem h x" "la_mem (set_minor p g h) x = la_mem h x"
  using write_header_outside [OF outside_distance [OF assms]] by (simp_all add: set_major_def set_minor_def)

lemma set_header_fields [simp]:
  "l_memRoot (set_major p f h) = l_memRoot h" "l_memRoot (set_minor p g h) = l_memRoot h"
  "l_bestBet (set_major p f h) = l_bestBet h" "l_bestBet (set_minor p g h) = l_bestBet h"
  "l_allocated (set_major p f h) = l_allocated h" "l_allocated (set_minor p g h) = l_allocated h"
  "l_inuse (set_major p f h) = l_inuse h" "l_inuse (set_minor p g h) = l_inuse h"
  "l_errorCount (set_major p f h) = l_errorCount h" "l_errorCount (set_minor p g h) = l_errorCount h"
  "la_env (set_major p f h) = la_env h" "la_env (set_minor p g h) = la_env h"
  by (simp_all add: set_major_def set_minor_def)

lemma header_fields [simp]:
  "major (h\<lparr>l_memRoot := a\<rparr>) p = major h p" "minor (h\<lparr>l_memRoot := a\<rparr>) p = minor h p"
  "major (h\<lparr>l_bestBet := a\<rparr>) p = major h p" "minor (h\<lparr>l_bestBet := a\<rparr>) p = minor h p"
  "major (h\<lparr>l_allocated := a\<rparr>) p = major h p" "minor (h\<lparr>l_allocated := a\<rparr>) p = minor h p"
  "major (h\<lparr>l_inuse := a\<rparr>) p = major h p" "minor (h\<lparr>l_inuse := a\<rparr>) p = minor h p"
  "major (h\<lparr>l_warningCount := a\<rparr>) p = major h p" "minor (h\<lparr>l_warningCount := a\<rparr>) p = minor h p"
  "major (h\<lparr>l_errorCount := a\<rparr>) p = major h p" "minor (h\<lparr>l_errorCount := a\<rparr>) p = minor h p"
  "major (h\<lparr>l_possibleOverruns := a\<rparr>) p = major h p" "minor (h\<lparr>l_possibleOverruns := a\<rparr>) p = minor h p"
  "major (h\<lparr>la_env := s\<rparr>) p = major h p" "minor (h\<lparr>la_env := s\<rparr>) p = minor h p"
  by (simp_all add: major_def minor_def)

lemma header_cong:
  assumes "hdr p" "\<And>x. inside p 40 x \<Longrightarrow> la_mem h' x = la_mem h x"
  shows "major h' p = major h p" "minor h' p = minor h p"
  using read_header_cong [OF assms] by (simp_all add: major_def minor_def)

section \<open>Layouts\<close>

text \<open>A piece is a minor with its data, a region a major with its pieces in the order of their addresses.\<close>

datatype piece = Piece (padr: u64) (psize: nat) (preq: nat)

datatype region = Region (rmaj: u64) (rsize: nat) (pieces: "piece list")

definition used :: "piece list \<Rightarrow> nat" where
  "used bs = sum_list (map (\<lambda>b. 40 + psize b) bs)"

fun fits :: "nat \<Rightarrow> nat \<Rightarrow> piece list \<Rightarrow> bool" where
  "fits lo hi [] \<longleftrightarrow> lo \<le> hi"
| "fits lo hi (b # bs) \<longleftrightarrow> lo \<le> unat (padr b) \<and> fits (unat (padr b) + 40 + psize b) hi bs"

fun piece_end :: "nat \<Rightarrow> piece list \<Rightarrow> nat" where
  "piece_end lo [] = lo"
| "piece_end lo (b # bs) = piece_end (unat (padr b) + 40 + psize b) bs"

fun piece_start :: "nat \<Rightarrow> piece list \<Rightarrow> nat" where
  "piece_start hi [] = hi"
| "piece_start hi (b # bs) = unat (padr b)"

definition piece_ok :: "piece \<Rightarrow> bool" where
  "piece_ok b \<longleftrightarrow> preq b + 32 \<le> psize b"

definition region_ok :: "region \<Rightarrow> bool" where
  "region_ok R \<longleftrightarrow> rmaj R \<noteq> 0 \<and> rsize R < 2 ^ 24 \<and> 4096 dvd rsize R \<and> unat (rmaj R) + rsize R < 2 ^ 64 \<and>
     fits (unat (rmaj R) + 40) (unat (rmaj R) + rsize R) (pieces R) \<and> (\<forall>b\<in>set (pieces R). piece_ok b)"

definition regions_apart :: "region \<Rightarrow> region \<Rightarrow> bool" where
  "regions_apart R S \<longleftrightarrow> unat (rmaj R) + rsize R \<le> unat (rmaj S) \<or> unat (rmaj S) + rsize S \<le> unat (rmaj R)"

definition layout_ok :: "region list \<Rightarrow> bool" where
  "layout_ok Rs \<longleftrightarrow> (\<forall>R\<in>set Rs. region_ok R) \<and> sorted_wrt regions_apart Rs"

definition live :: "region list \<Rightarrow> piece list" where
  "live Rs = concat (map pieces Rs)"

lemma fits_append: "fits lo hi (xs @ ys) \<longleftrightarrow> fits lo (piece_start hi ys) xs \<and> fits (piece_end lo xs) hi ys"
proof (induction xs arbitrary: lo)
  case Nil
  show ?case by (cases ys) auto
qed auto

lemma fits_used: "fits lo hi bs \<Longrightarrow> lo + used bs \<le> hi"
  by (induction bs arbitrary: lo) (auto simp: used_def, force)

lemma fits_bound: "fits lo hi bs \<Longrightarrow> b \<in> set bs \<Longrightarrow> lo \<le> unat (padr b) \<and> unat (padr b) + 40 + psize b \<le> hi"
proof (induction bs arbitrary: lo)
  case (Cons c bs)
  have "unat (padr c) + 40 + psize c \<le> hi" using fits_used Cons.prems(1) by fastforce
  with Cons show ?case by fastforce
qed simp

lemma piece_end_le: "fits lo hi bs \<Longrightarrow> lo \<le> piece_end lo bs \<and> piece_end lo bs \<le> hi"
  by (induction bs arbitrary: lo) fastforce+

lemma used_append [simp]: "used (xs @ ys) = used xs + used ys" "used [] = 0" "used (b # bs) = 40 + psize b + used bs"
  by (simp_all add: used_def)

lemma live_append [simp]: "live (Rs @ Ss) = live Rs @ live Ss" "live [] = []" "live (R # Rs) = pieces R @ live Rs"
  by (simp_all add: live_def)

text \<open>The pointer the caller gets for a piece: its data aligned to 16 bytes, past the alignment byte.\<close>

definition data_ptr :: "u64 \<Rightarrow> u64" where
  "data_ptr a = (let p = a + 40 + 16 in if p AND 15 \<noteq> 0 then p + (16 - (p AND 15)) else p)"

lemma data_ptr_bounds:
  assumes "unat a + 72 \<le> 2 ^ 64"
  shows "unat a + 56 \<le> unat (data_ptr a)" "unat (data_ptr a) \<le> unat a + 71" "unat (data_ptr a) mod 16 = 0"
proof -
  let ?p = "a + 56 :: u64"
  have p: "unat ?p = unat a + 56" using assms by (subst unat_add_less) simp_all
  have "?p AND 15 = take_bit 4 ?p" using and_mask_literals(1) [of ?p] by simp
  then have r: "unat (?p AND 15) = unat ?p mod 16" by (simp add: take_bit_eq_mod unat_mod)
  have le: "unat (?p AND 15) \<le> 15" by (simp add: r)
  have d: "unat (16 - (?p AND 15)) = 16 - unat ?p mod 16" using le by (simp add: unat_sub word_le_nat_alt r)
  have q: "unat (data_ptr a) = (if unat ?p mod 16 = 0 then unat ?p else unat ?p + (16 - unat ?p mod 16))"
  proof (cases "unat ?p mod 16 = 0")
    case True
    then have "?p AND 15 = 0" using r by (simp add: unat_eq_0 [symmetric])
    then show ?thesis using True by (simp add: data_ptr_def add.assoc)
  next
    case False
    then have "?p AND 15 \<noteq> 0" using r by auto
    moreover have "unat (?p + (16 - (?p AND 15))) = unat ?p + (16 - unat ?p mod 16)"
      using False d p assms by (subst unat_add_less) simp_all
    ultimately show ?thesis using False by (simp add: data_ptr_def add.assoc)
  qed
  show "unat a + 56 \<le> unat (data_ptr a)" "unat (data_ptr a) \<le> unat a + 71" "unat (data_ptr a) mod 16 = 0"
    unfolding q p by (auto, presburger+)
qed

abbreviation align_byte :: "u64 \<Rightarrow> u8" where
  "align_byte a \<equiv> ucast (data_ptr a - (a + 40))"

abbreviation align_at :: "u64 \<Rightarrow> u64" where
  "align_at a \<equiv> data_ptr a - 16"

lemma ALIGN_eq: "ALIGN (a + 40) h = (data_ptr a, h\<lparr>la_mem := (la_mem h)(align_at a := align_byte a)\<rparr>)"
  by (simp add: ALIGN_def data_ptr_def ALIGN_INFO_def ALIGNMENT_def Let_def)

lemma align_at_bounds:
  assumes "unat a + 72 \<le> 2 ^ 64"
  shows "unat a + 40 \<le> unat (align_at a)" "unat (align_at a) < unat a + 56"
proof -
  have "unat (align_at a) = unat (data_ptr a) - 16"
    using data_ptr_bounds(1) [OF assms] by (simp add: unat_sub word_le_nat_alt)
  with data_ptr_bounds(1,2) [OF assms]
  show "unat a + 40 \<le> unat (align_at a)" "unat (align_at a) < unat a + 56" by simp_all
qed

lemma UNALIGN_eq:
  assumes "unat a + 72 \<le> 2 ^ 64" "m (align_at a) = align_byte a"
  shows "UNALIGN m (data_ptr a) = a + 40"
proof -
  let ?d = "data_ptr a - (a + 40)"
  have "unat (a + 40) = unat a + 40" using assms(1) by (subst unat_add_less) simp_all
  then have d: "unat ?d \<le> 31"
    using data_ptr_bounds [OF assms(1)] by (subst unat_sub) (simp_all add: word_le_nat_alt)
  have "scast (ucast ?d :: u8) = ?d"
  proof (rule bit_word_eqI)
    fix n
    assume "n < LENGTH(64)"
    have "take_bit 5 ?d = ?d"
      using d by (simp add: take_bit_eq_mod word_unat_eq_iff unat_mod)
    then have hi: "\<not> bit ?d k" if "5 \<le> k" for k using that by (metis bit_take_bit_iff leD)
    show "bit (scast (ucast ?d :: u8) :: u64) n = bit ?d n"
      using \<open>n < LENGTH(64)\<close> hi [of 7] hi [of n] by (cases "n < 7") (simp_all add: bit_simps min_def)
  qed
  moreover have "?d < 32" using d by (simp add: word_less_nat_alt)
  ultimately show ?thesis
    using assms(2) by (simp add: UNALIGN_def ALIGN_INFO_def ALIGNMENT_def Let_def)
qed

section \<open>Memory that represents a layout\<close>

definition piece_in :: "'s heap \<Rightarrow> u64 \<Rightarrow> u64 \<Rightarrow> u64 \<Rightarrow> piece \<Rightarrow> bool" where
  "piece_in h M p q b \<longleftrightarrow>
     minor h (padr b) = \<lparr>min_prev = p, min_next = q, min_block = M, min_magic = LIBALLOC_MAGIC,
       min_size = of_nat (psize b), min_req_size = of_nat (preq b)\<rparr> \<and>
     la_mem h (align_at (padr b)) = align_byte (padr b)"

definition head :: "u64 \<Rightarrow> piece list \<Rightarrow> u64" where
  "head q bs = (case bs of [] \<Rightarrow> q | b # _ \<Rightarrow> padr b)"

definition tail :: "u64 \<Rightarrow> piece list \<Rightarrow> u64" where
  "tail p bs = (if bs = [] then p else padr (last bs))"

fun dseg :: "'s heap \<Rightarrow> u64 \<Rightarrow> u64 \<Rightarrow> piece list \<Rightarrow> u64 \<Rightarrow> bool" where
  "dseg h M p [] q \<longleftrightarrow> True"
| "dseg h M p (b # bs) q \<longleftrightarrow> piece_in h M p (head q bs) b \<and> dseg h M (padr b) bs q"

definition region_in :: "'s heap \<Rightarrow> u64 \<Rightarrow> u64 \<Rightarrow> region \<Rightarrow> bool" where
  "region_in h p q R \<longleftrightarrow>
     major h (rmaj R) = \<lparr>maj_prev = p, maj_next = q, maj_pages = of_nat (rsize R div 4096), maj_size = of_nat (rsize R),
       maj_usage = of_nat (40 + used (pieces R)), maj_first = head 0 (pieces R)\<rparr> \<and>
     dseg h (rmaj R) 0 (pieces R) 0"

definition rhead :: "region list \<Rightarrow> u64" where
  "rhead Rs = (case Rs of [] \<Rightarrow> 0 | R # _ \<Rightarrow> rmaj R)"

definition rtail :: "u64 \<Rightarrow> region list \<Rightarrow> u64" where
  "rtail p Rs = (if Rs = [] then p else rmaj (last Rs))"

fun mseg :: "'s heap \<Rightarrow> u64 \<Rightarrow> region list \<Rightarrow> u64 \<Rightarrow> bool" where
  "mseg h p [] q \<longleftrightarrow> True"
| "mseg h p (R # Rs) q \<longleftrightarrow> region_in h p (if Rs = [] then q else rhead Rs) R \<and> mseg h (rmaj R) Rs q"

definition heap_ok :: "'s heap \<Rightarrow> region list \<Rightarrow> bool" where
  "heap_ok h Rs \<longleftrightarrow> layout_ok Rs \<and> mseg h 0 Rs 0 \<and> l_memRoot h = rhead Rs \<and>
     (l_bestBet h = 0 \<or> l_bestBet h \<in> rmaj ` set Rs) \<and>
     l_inuse h = of_nat (sum_list (map psize (live Rs))) \<and> l_allocated h = of_nat (sum_list (map rsize Rs))"

lemma head_simps [simp]: "head q [] = q" "head q (b # bs) = padr b" "head q (xs @ ys) = head (head q ys) xs"
  by (auto simp: head_def split: list.split)

lemma tail_simps [simp]: "tail p [] = p" "tail p (b # bs) = tail (padr b) bs" "tail p (xs @ [b]) = padr b"
  by (simp_all add: tail_def)

lemma rhead_simps [simp]: "rhead [] = 0" "rhead (R # Rs) = rmaj R"
  by (simp_all add: rhead_def)

lemma rhead_append [simp]: "rhead (Rs @ Ss) = (if Rs = [] then rhead Ss else rhead Rs)"
  by (cases Rs) simp_all

lemma rtail_simps [simp]: "rtail p [] = p" "rtail p (R # Rs) = rtail (rmaj R) Rs" "rtail p (Rs @ [R]) = rmaj R"
  by (simp_all add: rtail_def)

lemma dseg_append: "dseg h M p (xs @ ys) q \<longleftrightarrow> dseg h M p xs (head q ys) \<and> dseg h M (tail p xs) ys q"
  by (induction xs arbitrary: p) auto

lemma mseg_append:
  "mseg h p (Rs @ Ss) q \<longleftrightarrow> mseg h p Rs (if Ss = [] then q else rhead Ss) \<and> mseg h (rtail p Rs) Ss q"
  by (induction Rs arbitrary: p) auto

lemma same_mem:
  assumes "la_mem h' = la_mem h"
  shows "major h' p = major h p" "minor h' p = minor h p" "dseg h' M p bs q = dseg h M p bs q"
    "mseg h' p Rs q = mseg h p Rs q"
proof -
  show r: "major h' p = major h p" "minor h' p = minor h p" for p using assms by (simp_all add: major_def minor_def)
  show d: "dseg h' M p bs q = dseg h M p bs q" for M p bs q
    by (induction bs arbitrary: p) (simp_all add: piece_in_def r assms)
  show "mseg h' p Rs q = mseg h p Rs q"
    by (induction Rs arbitrary: p) (simp_all add: region_in_def r d)
qed

lemma heap_ok_bestBet: "heap_ok h Rs \<Longrightarrow> R \<in> set Rs \<Longrightarrow> heap_ok (h\<lparr>l_bestBet := rmaj R\<rparr>) Rs"
  by (simp add: heap_ok_def same_mem [of "h\<lparr>l_bestBet := rmaj R\<rparr>" h])

lemma piece_hdr:
  assumes "region_ok R" "b \<in> set (pieces R)"
  shows "unat (rmaj R) + 40 \<le> unat (padr b)" "unat (padr b) + 40 + psize b \<le> unat (rmaj R) + rsize R"
    "piece_ok b" "hdr (padr b)" "unat (padr b) + 72 \<le> 2 ^ 64" "padr b \<noteq> 0"
proof -
  have "fits (unat (rmaj R) + 40) (unat (rmaj R) + rsize R) (pieces R)" "unat (rmaj R) + rsize R < 2 ^ 64"
    and ok: "piece_ok b" using assms by (simp_all add: region_ok_def)
  with fits_bound [OF _ assms(2)] have *: "unat (rmaj R) + 40 \<le> unat (padr b)"
    "unat (padr b) + 40 + psize b \<le> unat (rmaj R) + rsize R" "unat (rmaj R) + rsize R < 2 ^ 64" by blast+
  then show "unat (rmaj R) + 40 \<le> unat (padr b)" "unat (padr b) + 40 + psize b \<le> unat (rmaj R) + rsize R"
    "piece_ok b" "hdr (padr b)" "unat (padr b) + 72 \<le> 2 ^ 64" "padr b \<noteq> 0"
    using ok by (auto simp: piece_ok_def hdr_def)
qed

lemma region_hdr:
  assumes "region_ok R"
  shows "40 + used (pieces R) \<le> rsize R" "hdr (rmaj R)" "rmaj R \<noteq> 0"
    "unat (of_nat (rsize R) :: u32) = rsize R" "unat (of_nat (40 + used (pieces R)) :: u32) = 40 + used (pieces R)"
proof -
  have *: "rsize R < 2 ^ 24" "unat (rmaj R) + rsize R < 2 ^ 64" "rmaj R \<noteq> 0" using assms by (simp_all add: region_ok_def)
  have "unat (rmaj R) + 40 + used (pieces R) \<le> unat (rmaj R) + rsize R"
    using assms by (intro fits_used) (simp add: region_ok_def)
  with * show u: "40 + used (pieces R) \<le> rsize R" and "hdr (rmaj R)" "rmaj R \<noteq> 0" by (simp_all add: hdr_def)
  from * u show "unat (of_nat (rsize R) :: u32) = rsize R"
    "unat (of_nat (40 + used (pieces R)) :: u32) = 40 + used (pieces R)"
    by (simp_all add: unat_of_nat_less del: of_nat_add)
qed

text \<open>The bytes of a piece that the allocator relies on: the header and the alignment byte.\<close>

lemma piece_in_cong:
  assumes "unat (padr b) + 72 \<le> 2 ^ 64" "\<And>x. inside (padr b) 56 x \<Longrightarrow> la_mem h' x = la_mem h x"
  shows "piece_in h' M p q b = piece_in h M p q b"
proof -
  have "minor h' (padr b) = minor h (padr b)"
    using assms by (intro header_cong) (auto simp: hdr_def inside_def)
  moreover have "la_mem h' (align_at (padr b)) = la_mem h (align_at (padr b))"
    using align_at_bounds [OF assms(1)] by (intro assms(2)) (simp add: inside_def)
  ultimately show ?thesis by (simp add: piece_in_def)
qed

lemma dseg_cong:
  assumes "\<And>b M p q. b \<in> set bs \<Longrightarrow> piece_in h' M p q b = piece_in h M p q b"
  shows "dseg h' M p bs q = dseg h M p bs q"
  using assms by (induction bs arbitrary: p) auto

lemma region_in_cong:
  assumes "region_ok R" "\<And>x. inside (rmaj R) (rsize R) x \<Longrightarrow> la_mem h' x = la_mem h x"
  shows "region_in h' p q R = region_in h p q R"
proof -
  have "major h' (rmaj R) = major h (rmaj R)"
    using region_hdr(1,2) [OF assms(1)] by (intro header_cong assms(2)) (auto simp: inside_def)
  moreover have "dseg h' (rmaj R) 0 (pieces R) 0 = dseg h (rmaj R) 0 (pieces R) 0"
  proof (rule dseg_cong, rule piece_in_cong)
    fix b x
    assume b: "b \<in> set (pieces R)"
    note ph = piece_hdr [OF assms(1) b]
    show "unat (padr b) + 72 \<le> 2 ^ 64" by (fact ph)
    show "la_mem h' x = la_mem h x" if "inside (padr b) 56 x"
      using that ph(1-3) by (intro assms(2)) (auto simp: inside_def piece_ok_def)
  qed
  ultimately show ?thesis by (simp add: region_in_def)
qed

lemma mseg_cong:
  assumes "\<And>R p q. R \<in> set Rs \<Longrightarrow> region_in h' p q R = region_in h p q R"
  shows "mseg h' p Rs q = mseg h p Rs q"
  using assms by (induction Rs arbitrary: p) auto

lemma layout_split:
  assumes "layout_ok (Rs @ R # Ss)"
  shows "region_ok R" "S \<in> set (Rs @ Ss) \<Longrightarrow> region_ok S"
    "S \<in> set (Rs @ Ss) \<Longrightarrow> inside (rmaj S) (rsize S) x \<Longrightarrow> \<not> inside (rmaj R) (rsize R) x"
  using assms
  by (auto simp: layout_ok_def sorted_wrt_append regions_apart_def inside_def dest!: bspec split: if_splits)

text \<open>Changing one region inside its own bytes leaves the others alone.\<close>

lemma mseg_replace:
  assumes lay: "layout_ok (Rs @ R # Ss)" and m: "mseg h 0 (Rs @ R # Ss) 0"
    and same: "rmaj R' = rmaj R"
    and frame: "\<And>x. \<not> inside (rmaj R) (rsize R) x \<Longrightarrow> la_mem h' x = la_mem h x"
    and new: "region_in h' (rtail 0 Rs) (rhead Ss) R'"
  shows "mseg h' 0 (Rs @ R' # Ss) 0"
proof -
  have "region_in h' p q S = region_in h p q S" if "S \<in> set (Rs @ Ss)" for p q S
    using layout_split [OF lay] that frame by (intro region_in_cong) blast+
  then have "mseg h' p Rs q = mseg h p Rs q" "mseg h' p Ss q = mseg h p Ss q" for p q
    by (intro mseg_cong; simp)+
  with m new same show ?thesis by (cases Ss) (simp_all add: mseg_append)
qed

section \<open>Placing a piece in a gap\<close>

text \<open>
  \<open>linked\<close>: the links of a region have been changed so that a new minor at \<open>a\<close> follows the pieces
  \<open>xs\<close> and precedes \<open>ys\<close>; nothing but the headers involved has been written. \<open>placed\<close>: in addition
  the usage, the total and the alignment byte are up to date.
\<close>

definition linked :: "'s heap \<Rightarrow> 's heap \<Rightarrow> u64 \<Rightarrow> piece list \<Rightarrow> piece \<Rightarrow> piece list \<Rightarrow> bool" where
  "linked h h' M xs b ys \<longleftrightarrow>
     (\<forall>x. \<not> inside M 40 x \<and> \<not> inside (padr b) 40 x \<and> (xs \<noteq> [] \<longrightarrow> \<not> inside (padr (last xs)) 40 x) \<and>
        (ys \<noteq> [] \<longrightarrow> \<not> inside (padr (hd ys)) 40 x) \<longrightarrow> la_mem h' x = la_mem h x) \<and>
     minor h' (padr b) = \<lparr>min_prev = tail 0 xs, min_next = head 0 ys, min_block = M, min_magic = LIBALLOC_MAGIC,
       min_size = of_nat (psize b), min_req_size = of_nat (preq b)\<rparr> \<and>
     (xs \<noteq> [] \<longrightarrow> minor h' (padr (last xs)) = (minor h (padr (last xs)))\<lparr>min_next := padr b\<rparr>) \<and>
     (ys \<noteq> [] \<longrightarrow> minor h' (padr (hd ys)) = (minor h (padr (hd ys)))\<lparr>min_prev := padr b\<rparr>) \<and>
     major h' M = (major h M)\<lparr>maj_first := (if xs = [] then padr b else maj_first (major h M))\<rparr> \<and>
     l_memRoot h' = l_memRoot h \<and> l_bestBet h' = l_bestBet h \<and> l_allocated h' = l_allocated h \<and>
     l_inuse h' = l_inuse h \<and> la_env h' = la_env h"

definition placed :: "'s heap \<Rightarrow> 's heap \<Rightarrow> u64 \<Rightarrow> piece list \<Rightarrow> piece \<Rightarrow> piece list \<Rightarrow> bool" where
  "placed h h' M xs b ys \<longleftrightarrow>
     (\<forall>x. \<not> inside M 40 x \<and> \<not> inside (padr b) 56 x \<and> (xs \<noteq> [] \<longrightarrow> \<not> inside (padr (last xs)) 40 x) \<and>
        (ys \<noteq> [] \<longrightarrow> \<not> inside (padr (hd ys)) 40 x) \<longrightarrow> la_mem h' x = la_mem h x) \<and>
     piece_in h' M (tail 0 xs) (head 0 ys) b \<and>
     (xs \<noteq> [] \<longrightarrow> minor h' (padr (last xs)) = (minor h (padr (last xs)))\<lparr>min_next := padr b\<rparr>) \<and>
     (ys \<noteq> [] \<longrightarrow> minor h' (padr (hd ys)) = (minor h (padr (hd ys)))\<lparr>min_prev := padr b\<rparr>) \<and>
     major h' M = (major h M)\<lparr>maj_first := (if xs = [] then padr b else maj_first (major h M)),
       maj_usage := maj_usage (major h M) + of_nat (40 + psize b)\<rparr> \<and>
     l_memRoot h' = l_memRoot h \<and> l_bestBet h' = l_bestBet h \<and> l_allocated h' = l_allocated h \<and>
     l_inuse h' = l_inuse h + of_nat (psize b) \<and> la_env h' = la_env h"

text \<open>A gap for a piece: between the end of \<open>xs\<close> and the start of \<open>ys\<close>.\<close>

definition gap :: "region \<Rightarrow> piece list \<Rightarrow> piece \<Rightarrow> piece list \<Rightarrow> bool" where
  "gap R xs b ys \<longleftrightarrow> region_ok R \<and> pieces R = xs @ ys \<and> piece_ok b \<and>
     piece_end (unat (rmaj R) + 40) xs \<le> unat (padr b) \<and>
     unat (padr b) + 40 + psize b \<le> piece_start (unat (rmaj R) + rsize R) ys"

lemma piece_end_bound: "fits lo hi xs \<Longrightarrow> c \<in> set xs \<Longrightarrow> unat (padr c) + 40 + psize c \<le> piece_end lo xs"
proof (induction xs arbitrary: lo)
  case (Cons d xs)
  then show ?case using piece_end_le [of "unat (padr d) + 40 + psize d" hi xs] by auto
qed simp

lemma piece_start_bound: "fits lo hi ys \<Longrightarrow> c \<in> set ys \<Longrightarrow> piece_start hi ys \<le> unat (padr c)"
proof (induction ys arbitrary: lo)
  case (Cons d ys)
  then have "c = d \<or> unat (padr d) + 40 + psize d \<le> unat (padr c)" using fits_bound by fastforce
  then show ?case by auto
qed simp

lemma piece_start_le: "fits lo hi ys \<Longrightarrow> lo \<le> piece_start hi ys \<and> piece_start hi ys \<le> hi"
  using fits_used by (cases ys) fastforce+

lemma gapD:
  assumes "gap R xs b ys"
  shows "unat (rmaj R) + 40 \<le> unat (padr b)" "unat (padr b) + 40 + psize b \<le> unat (rmaj R) + rsize R"
    "c \<in> set xs \<Longrightarrow> unat (padr c) + 40 + psize c \<le> unat (padr b)"
    "c \<in> set ys \<Longrightarrow> unat (padr b) + 40 + psize b \<le> unat (padr c)"
    "c \<in> set xs \<Longrightarrow> d \<in> set ys \<Longrightarrow> unat (padr c) + 40 + psize c \<le> unat (padr d)"
    "unat (padr b) + 72 \<le> 2 ^ 64" "hdr (padr b)"
    "region_ok (Region (rmaj R) (rsize R) (xs @ b # ys))"
proof -
  let ?lo = "unat (rmaj R) + 40" and ?hi = "unat (rmaj R) + rsize R"
  have ok: "region_ok R" "piece_ok b" "pieces R = xs @ ys" and g: "piece_end ?lo xs \<le> unat (padr b)"
    "unat (padr b) + 40 + psize b \<le> piece_start ?hi ys" using assms by (auto simp: gap_def)
  have f: "fits ?lo (piece_start ?hi ys) xs" "fits (piece_end ?lo xs) ?hi ys" and bd: "?hi < 2 ^ 64"
    using ok by (simp_all add: region_ok_def fits_append)
  show lo: "?lo \<le> unat (padr b)" and hi: "unat (padr b) + 40 + psize b \<le> ?hi"
    using g piece_end_le [OF f(1)] piece_start_le [OF f(2)] by linarith+
  show x: "unat (padr c) + 40 + psize c \<le> unat (padr b)" if "c \<in> set xs" for c
    using piece_end_bound [OF f(1) that] g by linarith
  show y: "unat (padr b) + 40 + psize b \<le> unat (padr c)" if "c \<in> set ys" for c
    using piece_start_bound [OF f(2) that] g by linarith
  show "unat (padr c) + 40 + psize c \<le> unat (padr d)" if "c \<in> set xs" "d \<in> set ys" using x [OF that(1)] y [OF that(2)] by linarith
  show "unat (padr b) + 72 \<le> 2 ^ 64" "hdr (padr b)" using hi bd ok(2) by (simp_all add: piece_ok_def hdr_def)
  have "fits ?lo (unat (padr b)) xs" using f(1) g
  proof -
    have "fits lo hi zs \<Longrightarrow> piece_end lo zs \<le> k \<Longrightarrow> fits lo k zs" for lo hi k and zs by (induction zs arbitrary: lo) auto
    then show ?thesis using f(1) g(1) by blast
  qed
  moreover have "fits (unat (padr b) + 40 + psize b) ?hi ys" using f(2) g(2) by (cases ys) auto
  ultimately show "region_ok (Region (rmaj R) (rsize R) (xs @ b # ys))"
    using ok g by (auto simp: region_ok_def fits_append)
qed

lemma gap_apart:
  assumes "gap R xs b ys"
  shows "apart (rmaj R) (padr b)" "apart (padr b) (rmaj R)"
    "c \<in> set (xs @ ys) \<Longrightarrow> apart (rmaj R) (padr c)" "c \<in> set (xs @ ys) \<Longrightarrow> apart (padr c) (rmaj R)"
    "c \<in> set (xs @ ys) \<Longrightarrow> apart (padr b) (padr c)" "c \<in> set (xs @ ys) \<Longrightarrow> apart (padr c) (padr b)"
    "c \<in> set xs \<Longrightarrow> d \<in> set ys \<Longrightarrow> apart (padr c) (padr d)" "c \<in> set xs \<Longrightarrow> d \<in> set ys \<Longrightarrow> apart (padr d) (padr c)"
proof -
  have ok: "region_ok R" "pieces R = xs @ ys" using assms by (auto simp: gap_def)
  note ph = piece_hdr [OF ok(1), unfolded ok(2)] and rh = region_hdr(2) [OF ok(1)] and g = gapD [OF assms]
  show *: "apart (rmaj R) (padr b)" "c \<in> set (xs @ ys) \<Longrightarrow> apart (rmaj R) (padr c)" for c
    using ph(1,4) [of c] rh g(1,7) by (auto simp: apart_def)
  show **: "apart (padr b) (padr c)" if "c \<in> set (xs @ ys)" for c
    using g(3,4) [of c] g(7) ph(4) [OF that] that by (auto simp: apart_def)
  show ***: "apart (padr c) (padr d)" if "c \<in> set xs" "d \<in> set ys" for c d
    using g(5) [OF that] ph(4) [of c] ph(4) [of d] that by (auto simp: apart_def)
  show "apart (padr b) (rmaj R)" "c \<in> set (xs @ ys) \<Longrightarrow> apart (padr c) (rmaj R)"
    "c \<in> set (xs @ ys) \<Longrightarrow> apart (padr c) (padr b)" "c \<in> set xs \<Longrightarrow> d \<in> set ys \<Longrightarrow> apart (padr d) (padr c)"
    using * ** *** apart_sym by blast+
qed

lemma set_major_outside: "hdr p \<Longrightarrow> \<not> inside p 40 x \<Longrightarrow> la_mem (set_major p f h) x = la_mem h x"
  and set_minor_outside: "hdr p \<Longrightarrow> \<not> inside p 40 x \<Longrightarrow> la_mem (set_minor p g h) x = la_mem h x"
  by (rule set_header_mem; assumption)+

lemma major_align_byte:
  assumes "hdr p" "\<not> inside p 40 x"
  shows "major (h\<lparr>la_mem := (la_mem h)(x := v)\<rparr>) p = major h p" "minor (h\<lparr>la_mem := (la_mem h)(x := v)\<rparr>) p = minor h p"
  using assms by (auto intro!: header_cong)

lemma hand_out_placed:
  assumes g: "gap R xs b ys" and l: "linked h h1 (rmaj R) xs b ys" and n: "n = of_nat (psize b)" "psize b < 2 ^ 32"
  shows "\<exists>h'. hand_out (rmaj R) (padr b) n h1 = (data_ptr (padr b), h') \<and> placed h h' (rmaj R) xs b ys"
proof -
  let ?M = "rmaj R" and ?a = "padr b"
  define h2 where "h2 = (set_major ?M (\<lambda>r. r\<lparr>maj_usage := maj_usage r + of_nat (40 + psize b)\<rparr>) h1)
    \<lparr>l_inuse := l_inuse h1 + of_nat (psize b)\<rparr>"
  define h' where "h' = h2\<lparr>la_mem := (la_mem h2)(align_at ?a := align_byte ?a)\<rparr>"
  have "ucast (ucast u + ((of_nat (psize b) :: u64) + 40)) = u + (of_nat (40 + psize b) :: u32)" for u :: u32
    by (simp add: down_simps)
  then have ho: "hand_out ?M ?a n h1 = (data_ptr ?a, h')"
    by (simp add: hand_out_def sizeof_minor_def ALIGN_eq n(1) h'_def h2_def Let_def)
  have at: "unat ?a + 40 \<le> unat (align_at ?a)" "unat (align_at ?a) < unat ?a + 56"
    using align_at_bounds gapD(6) [OF g] by blast+
  note ap = gap_apart [OF g] and gd = gapD [OF g]
  have hM: "hdr ?M" using ap(1) by (simp add: apart_def)
  have out: "\<not> inside ?M 40 (align_at ?a)" "\<not> inside ?a 40 (align_at ?a)" using at gd(1) by (auto simp: inside_def)
  have outc: "\<not> inside (padr c) 40 (align_at ?a)" if "c \<in> set (xs @ ys)" for c
    using at gd(3,4) [of c] that g by (auto simp: inside_def gap_def piece_ok_def)
  have frame: "la_mem h' x = la_mem h1 x" if "\<not> inside ?M 40 x" "\<not> inside ?a 56 x" for x
  proof -
    have "x \<noteq> align_at ?a" using that(2) at by (auto simp: inside_def)
    then show ?thesis using set_major_outside [OF hM that(1)] by (simp add: h'_def h2_def)
  qed
  have read: "minor h' p = minor h1 p" if "apart ?M p" "\<not> inside p 40 (align_at ?a)" for p
    using that unfolding h'_def by (subst major_align_byte) (auto simp: h2_def apart_def)
  have "piece_in h' ?M (tail 0 xs) (head 0 ys) b"
    using l read [OF ap(1) out(2)] by (simp add: piece_in_def linked_def h'_def)
  moreover have "minor h' (padr c) = minor h1 (padr c)" if "c \<in> set (xs @ ys)" for c
    using read [OF ap(3) [OF that] outc [OF that]] .
  moreover have "major h' ?M = (major h1 ?M)\<lparr>maj_usage := maj_usage (major h1 ?M) + of_nat (40 + psize b)\<rparr>"
    unfolding h'_def by (subst major_align_byte) (use hM out(1) in \<open>simp_all add: h2_def\<close>)
  moreover have "la_mem h' x = la_mem h x" if "\<not> inside ?M 40 x \<and> \<not> inside ?a 56 x \<and>
      (xs \<noteq> [] \<longrightarrow> \<not> inside (padr (last xs)) 40 x) \<and> (ys \<noteq> [] \<longrightarrow> \<not> inside (padr (hd ys)) 40 x)" for x
  proof -
    have "\<not> inside ?a 40 x" using that by (auto simp: inside_def)
    then show ?thesis using that frame l by (simp add: linked_def)
  qed
  ultimately have "placed h h' ?M xs b ys"
    using l by (auto simp: placed_def linked_def) (simp_all add: h'_def h2_def)
  with ho show ?thesis by blast
qed

text \<open>The piece a request makes at an address.\<close>

abbreviation new_piece :: "u64 \<Rightarrow> u64 \<Rightarrow> u64 \<Rightarrow> piece" where
  "new_piece a n req \<equiv> Piece a (unat n) (unat req)"

lemma ucast_of_nat_unat: "of_nat (unat (n :: u64)) = (ucast n :: u32)" "of_nat (unat n) = n"
  using ucast_down(3) [of "unat n"] by simp_all

lemma case2_placed:
  assumes "gap R [] (new_piece (rmaj R + 40) n req) []" "unat n < 2 ^ 32"
  shows "\<exists>h'. case2 req n (rmaj R) h = (data_ptr (rmaj R + 40), h') \<and>
    placed h h' (rmaj R) [] (new_piece (rmaj R + 40) n req) []"
proof -
  let ?M = "rmaj R" and ?a = "rmaj R + 40"
  define h1 where "h1 = set_minor ?a (\<lambda>r. r\<lparr>min_magic := LIBALLOC_MAGIC, min_prev := 0, min_next := 0, min_block := ?M,
     min_size := ucast n, min_req_size := ucast req\<rparr>) (set_major ?M (\<lambda>r. r\<lparr>maj_first := ?a\<rparr>) h)"
  have ap: "apart ?M ?a" "apart ?a ?M" "hdr ?M" "hdr ?a" using gap_apart(1,2) [OF assms(1)] by (auto simp: apart_def)
  have "linked h h1 ?M [] (new_piece ?a n req) []"
    by (simp add: linked_def h1_def ap set_major_outside set_minor_outside ucast_of_nat_unat)
  with hand_out_placed [OF assms(1) this, of n] assms(2) show ?thesis
    by (simp add: case2_def h1_def sizeof_major_def ucast_of_nat_unat Let_def)
qed

lemma case3_placed:
  assumes "gap R [] (new_piece (rmaj R + 40) n req) (v # vs)" "unat n < 2 ^ 32" "maj_first (major h (rmaj R)) = padr v"
  shows "\<exists>h'. case3 req n (rmaj R) h = (data_ptr (rmaj R + 40), h') \<and>
    placed h h' (rmaj R) [] (new_piece (rmaj R + 40) n req) (v # vs)"
proof -
  let ?M = "rmaj R" and ?a = "rmaj R + 40" and ?v = "padr v"
  define h1 where "h1 = set_minor ?a (\<lambda>r. r\<lparr>min_magic := LIBALLOC_MAGIC, min_prev := 0, min_block := ?M,
       min_size := ucast n, min_req_size := ucast req\<rparr>)
     (set_major ?M (\<lambda>r. r\<lparr>maj_first := ?a\<rparr>)
     (set_minor ?a (\<lambda>r. r\<lparr>min_next := ?v\<rparr>) (set_minor ?v (\<lambda>r. r\<lparr>min_prev := ?a\<rparr>) h)))"
  have ap: "apart ?M ?a" "apart ?a ?M" "hdr ?M" "hdr ?a" "apart ?M ?v" "apart ?v ?M" "apart ?v ?a" "apart ?a ?v" "hdr ?v"
    using gap_apart(1,2) [OF assms(1)] gap_apart(3-6) [OF assms(1), of v] by (auto simp: apart_def)
  have "linked h h1 ?M [] (new_piece ?a n req) (v # vs)"
    by (simp add: linked_def h1_def ap set_major_outside set_minor_outside ucast_of_nat_unat)
  with hand_out_placed [OF assms(1) this, of n] assms(2,3) show ?thesis
    by (simp add: case3_def h1_def sizeof_major_def ucast_of_nat_unat Let_def)
qed

lemma case41_placed:
  fixes a u
  assumes a: "a = padr u + 40 + ucast (min_size (minor h (padr u)))"
    and "gap R (us @ [u]) (new_piece a n req) []" "unat n < 2 ^ 32"
  shows "\<exists>h'. case41 req n (rmaj R) (padr u) h = (data_ptr a, h') \<and>
    placed h h' (rmaj R) (us @ [u]) (new_piece a n req) []"
proof -
  let ?M = "rmaj R" and ?u = "padr u"
  define h1 where "h1 = set_minor a (\<lambda>r. r\<lparr>min_next := 0, min_magic := LIBALLOC_MAGIC, min_block := ?M,
       min_size := ucast n, min_req_size := ucast req\<rparr>)
     (set_minor a (\<lambda>r. r\<lparr>min_prev := ?u\<rparr>) (set_minor ?u (\<lambda>r. r\<lparr>min_next := a\<rparr>) h))"
  have ap: "apart ?M a" "apart a ?M" "hdr ?M" "hdr a" "apart ?M ?u" "apart ?u ?M" "apart ?u a" "apart a ?u" "hdr ?u"
    using gap_apart(1,2) [OF assms(2)] gap_apart(3-6) [OF assms(2), of u] by (auto simp: apart_def)
  have "linked h h1 ?M (us @ [u]) (new_piece a n req) []"
    by (simp add: linked_def h1_def ap set_major_outside set_minor_outside ucast_of_nat_unat)
  with hand_out_placed [OF assms(2) this, of n] assms(3) show ?thesis
    by (simp add: case41_def h1_def sizeof_minor_def ucast_of_nat_unat Let_def flip: a)
qed

lemma case42_placed:
  fixes a u
  assumes a: "a = padr u + 40 + ucast (min_size (minor h (padr u)))" and v: "min_next (minor h (padr u)) = padr v"
    and "gap R (us @ [u]) (new_piece a n req) (v # vs)" "unat n < 2 ^ 32"
  shows "\<exists>h'. case42 req n (rmaj R) (padr u) h = (data_ptr a, h') \<and>
    placed h h' (rmaj R) (us @ [u]) (new_piece a n req) (v # vs)"
proof -
  let ?M = "rmaj R" and ?u = "padr u" and ?v = "padr v"
  define h1 where "h1 = set_minor ?u (\<lambda>r. r\<lparr>min_next := a\<rparr>) (set_minor ?v (\<lambda>r. r\<lparr>min_prev := a\<rparr>)
     (set_minor a (\<lambda>r. r\<lparr>min_magic := LIBALLOC_MAGIC, min_next := ?v, min_prev := ?u,
       min_size := ucast n, min_req_size := ucast req, min_block := ?M\<rparr>) h))"
  have ap: "apart ?M a" "apart a ?M" "hdr ?M" "hdr a" "apart ?M ?u" "apart ?u ?M" "apart ?u a" "apart a ?u" "hdr ?u"
    "apart ?M ?v" "apart ?v ?M" "apart ?v a" "apart a ?v" "hdr ?v" "apart ?u ?v" "apart ?v ?u"
    using gap_apart(1,2) [OF assms(3)] gap_apart(3-6) [OF assms(3), of u] gap_apart(3-6) [OF assms(3), of v] gap_apart(7,8) [OF assms(3), of u v]
    by (auto simp: apart_def)
  have "linked h h1 ?M (us @ [u]) (new_piece a n req) (v # vs)"
    by (simp add: linked_def h1_def ap set_major_outside set_minor_outside ucast_of_nat_unat)
  with hand_out_placed [OF assms(3) this, of n] assms(4) show ?thesis
    by (simp add: case42_def h1_def sizeof_minor_def ucast_of_nat_unat Let_def v ap flip: a)
qed

text \<open>The bytes of a piece beyond its header: the alignment byte and the data.\<close>

definition in_data :: "piece \<Rightarrow> u64 \<Rightarrow> bool" where
  "in_data b x \<longleftrightarrow> unat (padr b) + 40 \<le> unat x \<and> unat x < unat (padr b) + 40 + psize b"

abbreviation before :: "piece \<Rightarrow> piece \<Rightarrow> bool" where
  "before c d \<equiv> unat (padr c) + 40 + psize c \<le> unat (padr d)"

lemma fits_sorted: "fits lo hi bs \<Longrightarrow> sorted_wrt before bs"
  by (induction bs arbitrary: lo) (auto dest: fits_bound)

lemma pieces_sorted: "region_ok R \<Longrightarrow> sorted_wrt before (pieces R)"
  using fits_sorted by (simp add: region_ok_def) blast

lemma sorted_wrt_cases: "sorted_wrt P bs \<Longrightarrow> c \<in> set bs \<Longrightarrow> d \<in> set bs \<Longrightarrow> d = c \<or> P c d \<or> P d c"
  by (induction bs) auto

text \<open>A change of the headers around a gap, and of what lies in it.\<close>

definition gap_change :: "'s heap \<Rightarrow> 's heap \<Rightarrow> u64 \<Rightarrow> piece list \<Rightarrow> piece \<Rightarrow> piece list \<Rightarrow> bool" where
  "gap_change h h' M xs b ys \<longleftrightarrow>
     (\<forall>x. \<not> inside M 40 x \<and> \<not> inside (padr b) 56 x \<and> (xs \<noteq> [] \<longrightarrow> \<not> inside (padr (last xs)) 40 x) \<and>
        (ys \<noteq> [] \<longrightarrow> \<not> inside (padr (hd ys)) 40 x) \<longrightarrow> la_mem h' x = la_mem h x)"

lemma gap_frame:
  assumes g: "gap R xs b ys" and p: "gap_change h h' (rmaj R) xs b ys" and c: "c \<in> set (xs @ ys)"
    and x: "inside (padr c) (40 + psize c) x"
    and "\<not> inside (padr c) 40 x \<or> (xs \<noteq> [] \<longrightarrow> c \<noteq> last xs) \<and> (ys \<noteq> [] \<longrightarrow> c \<noteq> hd ys)"
  shows "la_mem h' x = la_mem h x"
proof -
  have ok: "region_ok R" "pieces R = xs @ ys" "piece_ok b" using g by (auto simp: gap_def)
  have srt: "sorted_wrt before (xs @ ys)" using pieces_sorted [OF ok(1)] by (simp only: ok(2))
  note ph = piece_hdr [OF ok(1), unfolded ok(2), OF c] and gd = gapD [OF g]
  have 1: "\<not> inside (rmaj R) 40 x" using ph(1) x by (auto simp: inside_def)
  have 2: "\<not> inside (padr b) 56 x"
    using gd(3,4) [of c] x c ok(3) by (auto simp: inside_def piece_ok_def)
  have other: "\<not> inside (padr d) 40 x" if "d \<in> set (xs @ ys)" "before c d \<or> before d c" for d
    using that x by (auto simp: inside_def)
  have cmp: "d = c \<or> before c d \<or> before d c" if "d \<in> set (xs @ ys)" for d
    using sorted_wrt_cases [OF srt] c that by blast
  have 3: "xs \<noteq> [] \<longrightarrow> \<not> inside (padr (last xs)) 40 x" "ys \<noteq> [] \<longrightarrow> \<not> inside (padr (hd ys)) 40 x"
    using cmp [of "last xs"] cmp [of "hd ys"] other [of "last xs"] other [of "hd ys"] assms(5) by auto
  show ?thesis using p 1 2 3 by (simp add: gap_change_def)
qed

lemma gap_outside:
  assumes g: "gap R xs b ys" and p: "gap_change h h' (rmaj R) xs b ys" and out: "\<not> inside (rmaj R) (rsize R) x"
  shows "la_mem h' x = la_mem h x"
proof -
  have rok: "region_ok R" "pieces R = xs @ ys" using g by (auto simp: gap_def)
  have "\<not> inside (padr c) 40 x" if "c \<in> set (xs @ ys)" for c
    using piece_hdr(1,2) [OF rok(1), unfolded rok(2), OF that] out by (auto simp: inside_def)
  then have "xs \<noteq> [] \<longrightarrow> \<not> inside (padr (last xs)) 40 x" "ys \<noteq> [] \<longrightarrow> \<not> inside (padr (hd ys)) 40 x" by auto
  moreover have "\<not> inside (padr b) 56 x" "\<not> inside (rmaj R) 40 x"
    using gapD(1,2) [OF g] g region_hdr(1) [OF rok(1)] out by (auto simp: inside_def gap_def piece_ok_def)
  ultimately show ?thesis using p by (simp add: gap_change_def)
qed

text \<open>When only the links at the gap change, the two sides stay segments with new ends.\<close>

lemma relink_pieces:
  assumes g: "gap R xs b ys" and p: "gap_change h h' (rmaj R) xs b ys"
    and d: "dseg h (rmaj R) 0 xs e" "dseg h (rmaj R) f ys 0"
    and nx: "xs \<noteq> [] \<Longrightarrow> minor h' (padr (last xs)) = (minor h (padr (last xs)))\<lparr>min_next := q\<rparr>"
    and pv: "ys \<noteq> [] \<Longrightarrow> minor h' (padr (hd ys)) = (minor h (padr (hd ys)))\<lparr>min_prev := r\<rparr>"
  shows "dseg h' (rmaj R) 0 xs q" "dseg h' (rmaj R) r ys 0"
proof -
  let ?M = "rmaj R"
  have ok: "region_ok R" "pieces R = xs @ ys" using g by (auto simp: gap_def)
  note ph = piece_hdr [OF ok(1), unfolded ok(2)]
  have size: "56 \<le> 40 + psize c" if "c \<in> set (xs @ ys)" for c using ph(3) [OF that] by (simp add: piece_ok_def)
  have align: "la_mem h' (align_at (padr c)) = la_mem h (align_at (padr c))" if "c \<in> set (xs @ ys)" for c
    using align_at_bounds [OF ph(5) [OF that]] size [OF that]
    by (intro gap_frame [OF g p that]) (auto simp: inside_def)
  have rest: "piece_in h' M p q c = piece_in h M p q c"
    if "c \<in> set (xs @ ys)" "xs \<noteq> [] \<longrightarrow> c \<noteq> last xs" "ys \<noteq> [] \<longrightarrow> c \<noteq> hd ys" for c M p q
    using gap_frame [OF g p that(1)] that(2,3) size [OF that(1)] ph(5) [OF that(1)]
    by (intro piece_in_cong) (auto simp: inside_def)
  have srt: "sorted_wrt before (xs @ ys)" using pieces_sorted [OF ok(1)] by (simp only: ok(2))
  show "dseg h' ?M 0 xs q"
  proof (cases xs rule: rev_cases)
    case (snoc us u)
    then have "c \<noteq> u \<and> (ys \<noteq> [] \<longrightarrow> c \<noteq> hd ys)" if "c \<in> set us" for c
      using srt that by (cases ys) (auto simp: sorted_wrt_append)
    then have "dseg h' ?M 0 us (padr u) = dseg h ?M 0 us (padr u)"
      using snoc by (intro dseg_cong rest) auto
    moreover have "piece_in h' ?M (tail 0 us) q u"
      using d(1) nx align [of u] snoc by (simp add: dseg_append piece_in_def)
    ultimately show ?thesis using d(1) snoc by (simp add: dseg_append)
  qed simp
  show "dseg h' ?M r ys 0"
  proof (cases ys)
    case (Cons v vs)
    then have "c \<noteq> v \<and> (xs \<noteq> [] \<longrightarrow> c \<noteq> last xs)" if "c \<in> set vs" for c
      using srt that by (cases xs rule: rev_cases) (auto simp: sorted_wrt_append)
    then have "dseg h' ?M (padr v) vs 0 = dseg h ?M (padr v) vs 0"
      using Cons by (intro dseg_cong rest) auto
    moreover have "piece_in h' ?M r (head 0 vs) v"
      using d(2) pv align [of v] Cons by (simp add: piece_in_def)
    ultimately show ?thesis using d(2) Cons by simp
  qed simp
qed

lemma placed_change: "placed h h' M xs b ys \<Longrightarrow> gap_change h h' M xs b ys"
  by (simp add: placed_def gap_change_def)

lemma placed_pieces:
  assumes g: "gap R xs b ys" and p: "placed h h' (rmaj R) xs b ys" and d: "dseg h (rmaj R) 0 (xs @ ys) 0"
  shows "dseg h' (rmaj R) 0 (xs @ b # ys) 0"
  using relink_pieces [OF g placed_change [OF p], of "head 0 ys" "tail 0 xs" "padr b" "padr b"] p d
  by (simp add: dseg_append placed_def)

lemma placed_region:
  assumes g: "gap R xs b ys" and p: "placed h h' (rmaj R) xs b ys" and r: "region_in h q s R"
  shows "region_in h' q s (Region (rmaj R) (rsize R) (xs @ b # ys))"
proof -
  have pcs: "pieces R = xs @ ys" using g by (simp add: gap_def)
  have "maj_first (major h (rmaj R)) = head 0 (xs @ ys)" using r pcs by (simp add: region_in_def)
  then have "(if xs = [] then padr b else maj_first (major h (rmaj R))) = head 0 (xs @ b # ys)"
    by (cases xs) simp_all
  with p r placed_pieces [OF g p] show ?thesis
    by (simp add: region_in_def placed_def pcs add_ac)
qed

text \<open>What the caller may rely on when a heap changes: other pieces keep their data.\<close>

definition data_kept :: "piece set \<Rightarrow> 's heap \<Rightarrow> 's heap \<Rightarrow> bool" where
  "data_kept P h h' \<longleftrightarrow> (\<forall>c\<in>P. \<forall>x. in_data c x \<longrightarrow> la_mem h' x = la_mem h x)"

lemma data_keptI:
  assumes lay: "layout_ok (Rs @ R # Ss)"
    and out: "\<And>x. \<not> inside (rmaj R) (rsize R) x \<Longrightarrow> la_mem h' x = la_mem h x"
    and own: "\<And>c x. c \<in> P \<inter> set (pieces R) \<Longrightarrow> in_data c x \<Longrightarrow> la_mem h' x = la_mem h x"
    and P: "P \<subseteq> set (live (Rs @ R # Ss))"
  shows "data_kept P h h'"
  unfolding data_kept_def
proof (intro ballI allI impI)
  fix c x
  assume c: "c \<in> P" and x: "in_data c x"
  show "la_mem h' x = la_mem h x"
  proof (cases "c \<in> set (pieces R)")
    case False
    then obtain S where S: "S \<in> set (Rs @ Ss)" "c \<in> set (pieces S)" using c P by (auto simp: live_def)
    then have "inside (rmaj S) (rsize S) x"
      using piece_hdr(1,2) [OF layout_split(2) [OF lay S(1)] S(2)] x by (auto simp: inside_def in_data_def)
    with layout_split(3) [OF lay S(1)] out show ?thesis by blast
  qed (use own c x in blast)
qed

text \<open>Different live pieces have no byte in common.\<close>

lemma live_region:
  assumes "layout_ok Rs" "c \<in> set (live Rs)"
  obtains R where "R \<in> set Rs" "c \<in> set (pieces R)" "region_ok R"
    "unat (rmaj R) + 40 \<le> unat (padr c)" "unat (padr c) + 40 + psize c \<le> unat (rmaj R) + rsize R"
  using assms piece_hdr(1,2) by (auto simp: live_def layout_ok_def)

lemma live_disjoint:
  assumes lay: "layout_ok Rs" and c: "c \<in> set (live Rs)" and d: "d \<in> set (live Rs)" and "c \<noteq> d"
  shows "before c d \<or> before d c"
proof -
  obtain R where R: "R \<in> set Rs" "c \<in> set (pieces R)" "region_ok R"
    "unat (rmaj R) + 40 \<le> unat (padr c)" "unat (padr c) + 40 + psize c \<le> unat (rmaj R) + rsize R"
    using lay c by (rule live_region)
  obtain S where S: "S \<in> set Rs" "d \<in> set (pieces S)"
    "unat (rmaj S) + 40 \<le> unat (padr d)" "unat (padr d) + 40 + psize d \<le> unat (rmaj S) + rsize S"
    using lay d by (rule live_region)
  have "S = R \<or> regions_apart R S \<or> regions_apart S R"
    using sorted_wrt_cases [of regions_apart Rs R S] R(1) S(1) lay by (simp add: layout_ok_def)
  then show ?thesis
    using sorted_wrt_cases [OF pieces_sorted [OF R(3)] R(2), of d] R S \<open>c \<noteq> d\<close>
    by (auto simp: regions_apart_def)
qed

lemma gap_not_live:
  assumes lay: "layout_ok (Rs @ R # Ss)" and g: "gap R xs b ys"
  shows "b \<notin> set (live (Rs @ R # Ss))"
proof
  assume "b \<in> set (live (Rs @ R # Ss))"
  with lay obtain S where S: "S \<in> set (Rs @ R # Ss)" "b \<in> set (pieces S)"
    "unat (rmaj S) + 40 \<le> unat (padr b)" "unat (padr b) + 40 + psize b \<le> unat (rmaj S) + rsize S"
    by (rule live_region)
  have "inside (rmaj S) (rsize S) (padr b)" "inside (rmaj R) (rsize R) (padr b)"
    using S(3,4) gapD(1,2) [OF g] by (auto simp: inside_def)
  then have "S = R" using layout_split(3) [OF lay] S(1) by auto
  then show False using gapD(3,4) [OF g, of b] S(2) g by (auto simp: gap_def)
qed

lemma place_ok:
  assumes ok: "heap_ok h (Rs @ R # Ss)" and g: "gap R xs b ys" and p: "placed h h' (rmaj R) xs b ys"
  defines "R' \<equiv> Region (rmaj R) (rsize R) (xs @ b # ys)"
  shows "heap_ok h' (Rs @ R' # Ss)" "data_kept (set (live (Rs @ R # Ss))) h h'"
    "set (live (Rs @ R' # Ss)) = insert b (set (live (Rs @ R # Ss)))" "la_env h' = la_env h"
    "b \<notin> set (live (Rs @ R # Ss))"
proof -
  have lay: "layout_ok (Rs @ R # Ss)" and m: "mseg h 0 (Rs @ R # Ss) 0" using ok by (simp_all add: heap_ok_def)
  have rok: "region_ok R" "pieces R = xs @ ys" using g by (auto simp: gap_def)
  note ch = placed_change [OF p]
  note out = gap_outside [OF g ch]
  have "layout_ok (Rs @ R' # Ss)"
    using lay gapD(8) [OF g] by (auto simp: layout_ok_def sorted_wrt_append R'_def regions_apart_def)
  moreover have "region_in h (rtail 0 Rs) (rhead Ss) R" using m by (cases Ss) (simp_all add: mseg_append)
  then have "mseg h' 0 (Rs @ R' # Ss) 0"
    using placed_region [OF g p] by (intro mseg_replace [OF lay m _ out]) (simp_all add: R'_def)
  ultimately show "heap_ok h' (Rs @ R' # Ss)"
    using ok p rok(2) by (auto simp: heap_ok_def placed_def R'_def add_ac)
  show "data_kept (set (live (Rs @ R # Ss))) h h'"
  proof (rule data_keptI [OF lay out])
    fix c x
    assume "c \<in> set (live (Rs @ R # Ss)) \<inter> set (pieces R)" "in_data c x"
    then show "la_mem h' x = la_mem h x"
      using rok(2) by (intro gap_frame [OF g ch, of c]) (auto simp: in_data_def inside_def)
  qed (assumption, rule subset_refl)
  show "set (live (Rs @ R' # Ss)) = insert b (set (live (Rs @ R # Ss)))" using rok(2) by (auto simp: R'_def)
  show "la_env h' = la_env h" using p by (simp add: placed_def)
  show "b \<notin> set (live (Rs @ R # Ss))" by (rule gap_not_live [OF lay g])
qed

section \<open>Searching one region\<close>

lemma unat_up: "k < 2 ^ 32 \<Longrightarrow> unat (ucast (of_nat k :: u32) :: u64) = k"
  by (simp add: unsigned_ucast_eq unat_of_nat_less take_bit_nat_eq_self)

lemma unat_gap:
  assumes "unat b + 40 + k \<le> unat x" "k < 2 ^ 32"
  shows "unat (x - b - 40 - ucast (of_nat k :: u32) :: u64) = unat x - (unat b + 40 + k)"
proof -
  have 1: "unat (x - b) = unat x - unat b" using assms(1) by (intro unat_sub) (simp add: word_le_nat_alt)
  have 2: "unat (x - b - 40) = unat x - unat b - 40" using assms(1) 1 by (subst unat_sub) (simp_all add: word_le_nat_alt)
  show ?thesis using assms 1 2 by (subst unat_sub) (simp_all add: word_le_nat_alt unat_up)
qed

lemma unat_next:
  assumes "unat b + 40 + k < 2 ^ 64" "k < 2 ^ 32"
  shows "unat (b + 40 + ucast (of_nat k :: u32) :: u64) = unat b + 40 + k"
proof -
  have "unat (b + 40) = unat b + 40" using assms(1) by (subst unat_add_less) simp_all
  then show ?thesis using assms by (subst unat_add_less) (simp_all add: unat_up)
qed

text \<open>A request: its padded size in the range the 32-bit headers can hold.\<close>

definition request :: "u64 \<Rightarrow> u64 \<Rightarrow> bool" where
  "request req n \<longleftrightarrow> unat n = unat req + 32 \<and> unat n < 2 ^ 24 - 8192"

lemma request_bounds: "request req n \<Longrightarrow> unat (n + 40) = unat n + 40"
  by (subst unat_add_less) (simp_all add: request_def)

definition found :: "u64 \<Rightarrow> u64 \<Rightarrow> region \<Rightarrow> 's heap \<Rightarrow> u64 \<Rightarrow> 's heap \<Rightarrow> bool" where
  "found req n R h p h' \<longleftrightarrow>
     (\<exists>xs a ys. gap R xs (new_piece a n req) ys \<and> p = data_ptr a \<and> placed h h' (rmaj R) xs (new_piece a n req) ys)"

lemma foundI: "gap R xs (new_piece a n req) ys \<Longrightarrow> placed h h' (rmaj R) xs (new_piece a n req) ys \<Longrightarrow>
    found req n R h (data_ptr a) h'"
  by (auto simp: found_def)

lemma piece_end_snoc [simp]: "piece_end lo (xs @ [u]) = unat (padr u) + 40 + psize u"
  by (induction xs arbitrary: lo) simp_all

abbreviation after :: "piece \<Rightarrow> u64" where
  "after u \<equiv> padr u + 40 + ucast (of_nat (psize u) :: u32)"

lemma piece_size: "region_ok R \<Longrightarrow> u \<in> set (pieces R) \<Longrightarrow> psize u < 2 ^ 32"
  using piece_hdr(1,2) [of R u] by (simp add: region_ok_def)

lemma room:
  assumes "region_ok R" "u \<in> set (pieces R)" "request req n" "unat (padr u) + 40 + psize u \<le> unat x"
  shows "n + 40 \<le> x - padr u - 40 - ucast (of_nat (psize u) :: u32) \<longleftrightarrow>
    unat (padr u) + 40 + psize u + (unat n + 40) \<le> unat x"
proof -
  have "n + 40 \<le> x - padr u - 40 - ucast (of_nat (psize u) :: u32) \<longleftrightarrow>
      unat (n + 40) \<le> unat (x - padr u - 40 - ucast (of_nat (psize u) :: u32))" by (rule word_le_nat_alt)
  also have "\<dots> \<longleftrightarrow> unat n + 40 \<le> unat x - (unat (padr u) + 40 + psize u)"
    by (simp only: unat_gap [OF assms(4) piece_size [OF assms(1,2)]] request_bounds [OF assms(3)])
  finally show ?thesis using assms(4) by (simp only: le_diff_conv2 add.commute [of "unat n + 40"])
qed

lemma gap_after:
  assumes ok: "region_ok R" and pcs: "pieces R = xs @ u # ys" and rq: "request req n"
    and "unat (padr u) + 40 + psize u + (unat n + 40) \<le> piece_start (unat (rmaj R) + rsize R) ys"
  shows "gap R (xs @ [u]) (new_piece (after u) n req) ys"
proof -
  have u: "u \<in> set (pieces R)" using pcs by simp
  have "unat (padr u) + 40 + psize u < 2 ^ 64" using piece_hdr(2) [OF ok u] ok by (simp add: region_ok_def)
  from unat_next [OF this piece_size [OF ok u]] assms show ?thesis
    by (simp add: gap_def piece_ok_def request_def)
qed

lemma case4_loop_spec:
  assumes ok: "region_ok R" and r: "region_in h p q R" and rq: "request req n" and pcs: "pieces R = xs @ zs"
  shows "\<exists>t. case4_loop req n (rmaj R) (head 0 zs) h = Some t \<and> (\<forall>p h'. t = Some (p, h') \<longrightarrow> found req n R h p h')"
  using pcs
proof (induction zs arbitrary: xs)
  case Nil
  then show ?case by (simp add: case4_loop.simps)
next
  case (Cons u ys)
  let ?M = "rmaj R" and ?u = "padr u"
  have u: "u \<in> set (pieces R)" using Cons.prems by simp
  note ph = piece_hdr [OF ok u] and unfold = case4_loop.simps [of req n ?M ?u h] sizeof_minor_def
  have mn: "min_next (minor h ?u) = head 0 ys" "min_size (minor h ?u) = of_nat (psize u)"
    and mj: "maj_size (major h ?M) = of_nat (rsize R)"
    using r Cons.prems by (simp_all add: region_in_def dseg_append piece_in_def)
  note gap = gap_after [OF ok Cons.prems rq] and IH = Cons.IH [of "xs @ [u]", simplified, OF Cons.prems]
  have n32: "unat n < 2 ^ 32" using rq by (simp add: request_def)
  show ?case
  proof (cases ys)
    case Nil
    have e: "unat (?M + ucast (of_nat (rsize R) :: u32)) = unat ?M + rsize R"
      using ok by (subst unat_add_less) (simp_all add: unat_up region_ok_def)
    note c = room [OF ok u rq, of "?M + ucast (of_nat (rsize R) :: u32)", unfolded e, OF ph(2)]
    show ?thesis
    proof (cases "unat ?u + 40 + psize u + (unat n + 40) \<le> unat ?M + rsize R")
      case True
      then have g: "gap R (xs @ [u]) (new_piece (after u) n req) []" using gap Nil by simp
      from case41_placed [OF _ this n32, of h] obtain h' where
        "case41 req n ?M ?u h = (data_ptr (after u), h')" "placed h h' ?M (xs @ [u]) (new_piece (after u) n req) []"
        by (auto simp: mn)
      with True c ph(6) mn mj Nil g show ?thesis by (auto simp: unfold intro: foundI)
    qed (use IH c ph(6) mn mj Nil in \<open>simp add: unfold\<close>)
  next
    case (Cons v ws)
    then have v: "v \<in> set (pieces R)" "before u v"
      using Cons.prems pieces_sorted [OF ok] by (auto simp: sorted_wrt_append)
    note c = room [OF ok u rq v(2)] and v0 = piece_hdr(6) [OF ok v(1)]
    show ?thesis
    proof (cases "unat ?u + 40 + psize u + (unat n + 40) \<le> unat (padr v)")
      case True
      then have g: "gap R (xs @ [u]) (new_piece (after u) n req) (v # ws)" using gap Cons by simp
      from case42_placed [OF _ _ this n32, of h] obtain h' where
        "case42 req n ?M ?u h = (data_ptr (after u), h')" "placed h h' ?M (xs @ [u]) (new_piece (after u) n req) (v # ws)"
        using mn Cons by auto
      with True c ph(6) v0 mn Cons g show ?thesis by (auto simp: unfold intro: foundI)
    qed (use IH c ph(6) v0 mn Cons in \<open>simp add: unfold\<close>)
  qed
qed

lemma free_space_eq:
  assumes "region_ok R" "region_in h p q R"
  shows "unat (free_space h (rmaj R)) = rsize R - (40 + used (pieces R))"
proof -
  note rh = region_hdr [OF assms(1)]
  have "unat (of_nat (rsize R) - of_nat (40 + used (pieces R)) :: u32) = rsize R - (40 + used (pieces R))"
    using rh(1) by (subst unat_sub) (simp_all only: word_le_nat_alt rh(4,5))
  moreover have "rsize R < 2 ^ 64" using assms(1) by (simp add: region_ok_def)
  then have "rsize R - (40 + used (pieces R)) < 2 ^ 64" by linarith
  ultimately show ?thesis
    using assms(2) by (simp add: free_space_def region_in_def unsigned_ucast_eq take_bit_nat_eq_self)
qed

lemma not_enough:
  assumes "region_ok R" "region_in h p q R" "request req n"
  shows "free_space h (rmaj R) < n + sizeof_minor \<longleftrightarrow> rsize R < 40 + used (pieces R) + (unat n + 40)"
  using region_hdr(1) [OF assms(1)]
  by (simp add: sizeof_minor_def word_less_nat_alt free_space_eq [OF assms(1,2)] request_bounds [OF assms(3)]) linarith

lemma try_block_spec:
  assumes ok: "region_ok R" and r: "region_in h p q R" and rq: "request req n"
    and sp: "40 + used (pieces R) + (unat n + 40) \<le> rsize R"
  shows "\<exists>t. try_block req n (rmaj R) h = Some t \<and> (\<forall>p h'. t = Some (p, h') \<longrightarrow> found req n R h p h') \<and>
    (pieces R = [] \<longrightarrow> t \<noteq> None)"
proof -
  let ?M = "rmaj R" and ?a = "rmaj R + 40"
  have bd: "unat ?M + rsize R < 2 ^ 64" using ok by (simp add: region_ok_def)
  have a: "unat ?a = unat ?M + 40" using bd sp by (subst unat_add_less) simp_all
  have first: "maj_first (major h ?M) = head 0 (pieces R)" using r by (simp add: region_in_def)
  have n32: "unat n < 2 ^ 32" using rq by (simp add: request_def)
  show ?thesis
  proof (cases "pieces R")
    case Nil
    have g: "gap R [] (new_piece ?a n req) []"
      using ok Nil a sp rq by (simp add: gap_def piece_ok_def request_def)
    with case2_placed [OF g n32, of h] Nil first show ?thesis
      by (auto simp: try_block_def intro: foundI)
  next
    case (Cons v vs)
    note ph = piece_hdr [OF ok, of v]
    have v: "unat ?M + 40 \<le> unat (padr v)" "padr v \<noteq> 0" using ph(1,6) Cons by simp_all
    have "unat (padr v - ?M) = unat (padr v) - unat ?M" using v(1) by (intro unat_sub) (simp add: word_le_nat_alt)
    then have d: "unat (padr v - ?M - 40) = unat (padr v) - unat ?M - 40"
      using v(1) by (subst unat_sub) (simp_all add: word_le_nat_alt)
    show ?thesis
    proof (cases "n + 40 \<le> padr v - ?M - 40")
      case True
      then have "unat n + 40 \<le> unat (padr v) - unat ?M - 40" by (simp only: word_le_nat_alt d request_bounds [OF rq])
      then have g: "gap R [] (new_piece ?a n req) (v # vs)"
        using ok Cons a rq v(1) by (simp add: gap_def piece_ok_def request_def)
      with case3_placed [OF g n32, of h] Cons first True v show ?thesis
        by (auto simp: try_block_def sizeof_major_def sizeof_minor_def intro: foundI)
    next
      case False
      with case4_loop_spec [OF ok r rq, of "[]" "pieces R"] Cons first v(2) show ?thesis
        by (simp add: try_block_def sizeof_major_def sizeof_minor_def)
    qed
  qed
qed

end
