(* ===== verification/Navy_Malloc.thy ===== *)
theory Navy_Malloc
  imports Navy_Heap
begin

text \<open>
  What \<^verbatim>\<open>liballoc_malloc\<close> promises to its callers, for any page source that keeps the contract
  \<open>page_hooks\<close>: the search ends, and a block it returns is aligned, large enough and disjoint from
  every other block, whose data it leaves alone.
\<close>

section \<open>Links between regions\<close>

lemma dseg_set_major:
  assumes "region_ok R" "hdr M" "\<And>x. inside M 40 x \<Longrightarrow> \<not> inside (rmaj R) (rsize R) x \<or> M = rmaj R"
  shows "dseg (set_major M f h) (rmaj R) p (pieces R) q = dseg h (rmaj R) p (pieces R) q"
proof (rule dseg_cong, rule piece_in_cong)
  fix b x
  assume b: "b \<in> set (pieces R)"
  note ph = piece_hdr [OF assms(1) b]
  show "unat (padr b) + 72 \<le> 2 ^ 64" by (fact ph)
  assume x: "inside (padr b) 56 x"
  have "\<not> inside M 40 x"
  proof
    assume "inside M 40 x"
    with assms(3) [OF this] x ph(1-3) show False by (auto simp: inside_def piece_ok_def)
  qed
  then show "la_mem (set_major M f h) x = la_mem h x" by (rule set_major_outside [OF assms(2)])
qed

lemma region_set_own:
  assumes "region_ok R" "region_in h p q R"
  shows "region_in (set_major (rmaj R) (\<lambda>r. r\<lparr>maj_next := a\<rparr>) h) p a R"
    "region_in (set_major (rmaj R) (\<lambda>r. r\<lparr>maj_prev := a\<rparr>) h) a q R"
  using assms by (simp_all add: region_in_def dseg_set_major [OF assms(1) region_hdr(2) [OF assms(1)]])

text \<open>A header outside the bytes of a region.\<close>

definition clear_of :: "u64 \<Rightarrow> region \<Rightarrow> bool" where
  "clear_of M R \<longleftrightarrow> hdr M \<and> (\<forall>x. inside M 40 x \<longrightarrow> \<not> inside (rmaj R) (rsize R) x)"

lemma region_set_other:
  assumes "region_ok R" "clear_of M R"
  shows "region_in (set_major M f h) p q R = region_in h p q R"
proof (rule region_in_cong [OF assms(1)])
  fix x
  assume "inside (rmaj R) (rsize R) x"
  then have "\<not> inside M 40 x" using assms(2) by (auto simp: clear_of_def)
  then show "la_mem (set_major M f h) x = la_mem h x" using assms(2) by (intro set_major_outside) (auto simp: clear_of_def)
qed

lemma apart_clear:
  assumes "region_ok R" "region_ok S" "regions_apart R S \<or> regions_apart S R"
  shows "clear_of (rmaj R) S" "clear_of (rmaj S) R"
  using assms(3) region_hdr(1,2) [OF assms(1)] region_hdr(1,2) [OF assms(2)]
  by (auto simp: clear_of_def regions_apart_def inside_def)

lemma clear_kept:
  assumes "clear_of M R" "b \<in> set (pieces R)" "region_ok R" "in_data b x"
  shows "la_mem (set_major M f h) x = la_mem h x"
proof (rule set_major_outside)
  show "hdr M" using assms(1) by (simp add: clear_of_def)
  show "\<not> inside M 40 x"
    using assms(1,4) piece_hdr(1,2) [OF assms(3,2)] by (auto simp: clear_of_def in_data_def inside_def)
qed

text \<open>Writing into the header of one of its regions leaves the data of a heap alone.\<close>

lemma data_kept_set_major:
  assumes lay: "layout_ok Rs" and M: "(\<exists>R\<in>set Rs. M = rmaj R) \<or> (\<forall>R\<in>set Rs. clear_of M R)"
  shows "data_kept (set (live Rs)) h (set_major M f h)"
  unfolding data_kept_def
proof (intro ballI allI impI)
  fix b x
  assume "b \<in> set (live Rs)" and x: "in_data b x"
  then obtain R where R: "R \<in> set Rs" "b \<in> set (pieces R)" "region_ok R"
    "unat (rmaj R) + 40 \<le> unat (padr b)" using lay by (blast elim: live_region)
  have "M = rmaj R \<or> clear_of M R"
  proof (cases "\<exists>S\<in>set Rs. M = rmaj S")
    case True
    then obtain S where S: "S \<in> set Rs" "M = rmaj S" by blast
    then have "S = R \<or> regions_apart R S \<or> regions_apart S R" "region_ok S"
      using sorted_wrt_cases [of regions_apart Rs R S] R(1) lay by (simp_all add: layout_ok_def)
    with apart_clear(2) [OF R(3)] S(2) show ?thesis by blast
  qed (use M R(1) in blast)
  then show "la_mem (set_major M f h) x = la_mem h x"
  proof
    assume "M = rmaj R"
    with R x region_hdr(2) [OF R(3)] show ?thesis by (intro set_major_outside) (auto simp: in_data_def inside_def)
  qed (use R x in \<open>blast intro: clear_kept\<close>)
qed

section \<open>New regions\<close>

lemma up_of_nat: "k < 2 ^ 32 \<Longrightarrow> (ucast (of_nat k :: u32) :: u64) = of_nat k"
  by (simp add: word_unat_eq_iff unat_up unat_of_nat_less)

lemma page_count_spec:
  assumes "request req n"
  obtains k where "page_count (ucast n) = of_nat k" "0 < k" "k < 2 ^ 12" "unat n + 80 \<le> 4096 * k"
proof -
  have n: "unat n < 2 ^ 24 - 8192" using assms by (simp add: request_def)
  define st where "st = (ucast (ucast (ucast (ucast (ucast n :: u32) + 40 :: u64) :: u32) + 40 :: u64) :: u32)"
  have "st = of_nat (unat n + 80)"
    unfolding st_def by (simp add: down_simps ucast_of_nat_unat)
  then have u: "unat st = unat n + 80" using n by (simp add: unat_of_nat_less del: of_nat_add)
  have dv: "unat (st div 4096) = (unat n + 80) div 4096" "st mod 4096 = 0 \<longleftrightarrow> (unat n + 80) mod 4096 = 0"
    using u by (simp_all add: unat_div unat_mod word_unat_eq_iff)
  have "unat (st div 4096 + 1) = (unat n + 80) div 4096 + 1" using dv(1) n by (subst unat_add_less) simp_all
  then have pc: "unat (page_count (ucast n)) =
      max 16 (if (unat n + 80) mod 4096 = 0 then (unat n + 80) div 4096 else (unat n + 80) div 4096 + 1)"
    using dv unfolding st_def
    by (auto simp: page_count_def sizeof_major_def sizeof_minor_def l_pageSize_def l_pageCount_def Let_def
        word_less_nat_alt max_def)
  show ?thesis
  proof
    show "page_count (ucast n) = of_nat (unat (page_count (ucast n)))" by simp
    show "0 < unat (page_count (ucast n))" "unat (page_count (ucast n)) < 2 ^ 12"
      "unat n + 80 \<le> 4096 * unat (page_count (ucast n))" unfolding pc using n by (auto simp: max_def split: if_splits)
  qed
qed

section \<open>The contract of the page source\<close>

text \<open>
  \<open>idle\<close> and \<open>held\<close>: the states of the environment outside and inside the lock. \<open>owns\<close>: the addresses
  the source has handed out. Pages come fresh, and a release gives to_h no more than its block.
\<close>

locale page_hooks =
  fixes hk :: "'s hooks" and idle held :: "'s \<Rightarrow> bool" and owns :: "'s \<Rightarrow> u64 \<Rightarrow> bool"
  assumes hook_lock: "idle s \<Longrightarrow> \<exists>s'. hk_lock hk s = Done s' \<and> held s' \<and> owns s' = owns s"
    and hook_unlock: "held s \<Longrightarrow> \<exists>s'. hk_unlock hk s = Done s' \<and> idle s' \<and> owns s' = owns s"
    and hook_alloc: "held s \<Longrightarrow> 0 < k \<Longrightarrow> k < 2 ^ 12 \<Longrightarrow> hk_alloc hk (of_nat k) s = Done (p, s') \<Longrightarrow>
      held s' \<and> (\<forall>x. owns s x \<longrightarrow> owns s' x) \<and>
      (p \<noteq> 0 \<longrightarrow> unat p + 4096 * k < 2 ^ 64 \<and> (\<forall>x. inside p (4096 * k) x \<longrightarrow> \<not> owns s x \<and> owns s' x))"
    and hook_free: "held s \<Longrightarrow> unat n < 2 ^ 12 \<Longrightarrow> \<exists>s'. hk_free hk p n s = Done s' \<and> held s' \<and>
      (\<forall>x. owns s x \<longrightarrow> inside p (4096 * unat n) x \<or> owns s' x)"

definition owned :: "('s \<Rightarrow> u64 \<Rightarrow> bool) \<Rightarrow> 's \<Rightarrow> region list \<Rightarrow> bool" where
  "owned owns s Rs \<longleftrightarrow> (\<forall>R\<in>set Rs. \<forall>x. inside (rmaj R) (rsize R) x \<longrightarrow> owns s x)"

lemma fresh_apart:
  assumes "\<And>x. inside p n x \<Longrightarrow> \<not> inside q k x" "0 < n" "0 < k"
  shows "unat p + n \<le> unat q \<or> unat q + k \<le> unat p"
  using assms(1) [of p] assms(1) [of q] assms(2,3) unfolding inside_def by linarith

text \<open>The whole state: a represented layout in pages the source has handed out.\<close>

definition good :: "('s \<Rightarrow> bool) \<Rightarrow> ('s \<Rightarrow> u64 \<Rightarrow> bool) \<Rightarrow> 's heap \<Rightarrow> region list \<Rightarrow> bool" where
  "good mode owns h Rs \<longleftrightarrow> heap_ok h Rs \<and> mode (la_env h) \<and> owned owns (la_env h) Rs"

lemma data_kept_refl [simp]: "la_mem h' = la_mem h \<Longrightarrow> data_kept P h h'"
  by (simp add: data_kept_def)

lemma data_kept_trans [trans]: "data_kept P h h1 \<Longrightarrow> data_kept P h1 h2 \<Longrightarrow> data_kept P h h2"
  by (simp add: data_kept_def)

lemma data_kept_mem: "data_kept P h h1 \<Longrightarrow> la_mem h2 = la_mem h1 \<Longrightarrow> data_kept P h h2"
  by (simp add: data_kept_def)

lemma owned_append [simp]: "owned owns s (Rs @ Ss) \<longleftrightarrow> owned owns s Rs \<and> owned owns s Ss" "owned owns s []"
    "owned owns s (R # S # Rs) \<longleftrightarrow> owned owns s [R] \<and> owned owns s (S # Rs)"
  by (auto simp: owned_def)

lemma set_major_last:
  assumes lay: "layout_ok (Rs @ [R])" and m: "mseg h 0 (Rs @ [R]) 0"
  shows "mseg (set_major (rmaj R) (\<lambda>r. r\<lparr>maj_next := a\<rparr>) h) 0 (Rs @ [R]) a"
proof -
  have "region_ok S \<and> clear_of (rmaj R) S" if "S \<in> set Rs" for S
    using lay that apart_clear(2) [of S R] by (auto simp: layout_ok_def sorted_wrt_append)
  then have "mseg (set_major (rmaj R) (\<lambda>r. r\<lparr>maj_next := a\<rparr>) h) p Rs q = mseg h p Rs q" for p q
    by (intro mseg_cong) (simp add: region_set_other)
  moreover have "region_ok R" using lay by (simp add: layout_ok_def)
  ultimately show ?thesis using m by (auto simp: mseg_append intro: region_set_own(1))
qed

lemma append_region:
  assumes lay: "layout_ok (Rs @ [R])" and m: "mseg h 0 (Rs @ [R]) 0"
    and n: "region_ok N" "region_in h 0 0 N" "\<forall>S\<in>set (Rs @ [R]). regions_apart S N"
  shows "layout_ok (Rs @ [R, N])"
    "mseg (set_major (rmaj N) (\<lambda>r. r\<lparr>maj_prev := rmaj R\<rparr>) (set_major (rmaj R) (\<lambda>r. r\<lparr>maj_next := rmaj N\<rparr>) h)) 0 (Rs @ [R, N]) 0"
proof -
  let ?h2 = "set_major (rmaj R) (\<lambda>r. r\<lparr>maj_next := rmaj N\<rparr>) h"
  let ?h3 = "set_major (rmaj N) (\<lambda>r. r\<lparr>maj_prev := rmaj R\<rparr>) ?h2"
  show "layout_ok (Rs @ [R, N])" using lay n by (auto simp: layout_ok_def sorted_wrt_append)
  have c: "region_ok S \<and> clear_of (rmaj N) S \<and> clear_of (rmaj S) N" if "S \<in> set (Rs @ [R])" for S
    using lay that n apart_clear [of S N] by (auto simp: layout_ok_def)
  then have "mseg ?h3 0 (Rs @ [R]) (rmaj N) = mseg ?h2 0 (Rs @ [R]) (rmaj N)"
    by (intro mseg_cong region_set_other) auto
  moreover have "region_in ?h2 0 0 N" using c n by (simp add: region_set_other)
  then have "region_in ?h3 (rmaj R) 0 N" by (rule region_set_own(2) [OF n(1)])
  ultimately show "mseg ?h3 0 (Rs @ [R, N]) 0"
    using set_major_last [OF lay m, of "rmaj N"] by (simp add: mseg_append)
qed

text \<open>The page source does not answer a request of size \<open>n\<close>: it stops the kernel or runs on.\<close>

definition no_pages :: "'s hooks \<Rightarrow> u64 \<Rightarrow> 's \<Rightarrow> bool" where
  "no_pages hk n s \<longleftrightarrow> (\<forall>r. hk_alloc hk (page_count (ucast n)) s \<noteq> Done r)"

text \<open>The page source can answer a request within the bounds with the null pointer.\<close>

definition null_source :: "'s hooks \<Rightarrow> ('s \<Rightarrow> bool) \<Rightarrow> bool" where
  "null_source hk held \<longleftrightarrow> (\<exists>k s s'. held s \<and> 0 < k \<and> k < 2 ^ 12 \<and> hk_alloc hk (of_nat k) s = Done (0, s'))"

text \<open>
  The result of a request: null with the same pieces, or a new piece and the pointer to its data;
  the data of all other pieces is as it was.
\<close>

definition alloc_post ::
  "bool \<Rightarrow> ('s \<Rightarrow> bool) \<Rightarrow> ('s \<Rightarrow> u64 \<Rightarrow> bool) \<Rightarrow> u64 \<Rightarrow> u64 \<Rightarrow> region list \<Rightarrow> 's heap \<Rightarrow> u64 \<Rightarrow> 's heap \<Rightarrow> bool" where
  "alloc_post nul mode owns req n Rs h p h' \<longleftrightarrow>
     (\<exists>Rs'. good mode owns h' Rs' \<and> data_kept (set (live Rs)) h h' \<and>
        (if p = 0 then nul \<and> set (live Rs') = set (live Rs)
         else \<exists>a. p = data_ptr a \<and> new_piece a n req \<notin> set (live Rs) \<and>
           set (live Rs') = insert (new_piece a n req) (set (live Rs))))"

lemma alloc_post_trans:
  assumes "alloc_post nul mode owns req n Rs1 h1 p h'" "set (live Rs1) = set (live Rs)" "data_kept (set (live Rs)) h h1"
  shows "alloc_post nul mode owns req n Rs h p h'"
  using assms data_kept_trans unfolding alloc_post_def by metis

lemma heap_ok_region:
  assumes "heap_ok h (As @ R # Bs)"
  shows "region_ok R" "region_in h (rtail 0 As) (rhead Bs) R" "rhead Bs = 0 \<longleftrightarrow> Bs = []"
proof -
  show "region_ok R" using assms by (simp add: heap_ok_def layout_ok_def)
  show "region_in h (rtail 0 As) (rhead Bs) R" using assms by (cases Bs) (simp_all add: heap_ok_def mseg_append)
  show "rhead Bs = 0 \<longleftrightarrow> Bs = []" using assms region_hdr(3) by (cases Bs) (auto simp: heap_ok_def layout_ok_def)
qed

lemma found_post:
  assumes g: "good mode owns h (As @ R # Bs)" and f: "found req n R h p h'"
  shows "p \<noteq> 0" "alloc_post nul mode owns req n (As @ R # Bs) h p h'"
proof -
  obtain xs a ys where gp: "gap R xs (new_piece a n req) ys" and p: "p = data_ptr a"
    and pl: "placed h h' (rmaj R) xs (new_piece a n req) ys" using f by (auto simp: found_def)
  let ?R = "Region (rmaj R) (rsize R) (xs @ new_piece a n req # ys)"
  have "heap_ok h (As @ R # Bs)" using g by (simp add: good_def)
  note po = place_ok [OF this gp pl]
  have "unat a + 56 \<le> unat p" using gapD(6) [OF gp] data_ptr_bounds(1) [of a] p by simp
  then show nz: "p \<noteq> 0" by auto
  have "good mode owns h' (As @ ?R # Bs)"
    using g po(1,4) by (auto simp: good_def owned_def)
  moreover have "\<exists>a. p = data_ptr a \<and> new_piece a n req \<notin> set (live (As @ R # Bs)) \<and>
      set (live (As @ ?R # Bs)) = insert (new_piece a n req) (set (live (As @ R # Bs)))"
    using po(3,5) p by blast
  ultimately show "alloc_post nul mode owns req n (As @ R # Bs) h p h'"
    unfolding alloc_post_def using nz po(2) by metis
qed

context page_hooks
begin

lemma new_page:
  assumes lay: "layout_ok Rs" and held: "held (la_env h)" and own: "owned owns (la_env h) Rs"
    and rq: "request req n" and al: "allocate_new_page hk (ucast n) h = Done (a, h')"
  shows "held (la_env h') \<and> owned owns (la_env h') Rs \<and>
    l_memRoot h' = l_memRoot h \<and> l_bestBet h' = l_bestBet h \<and> l_inuse h' = l_inuse h \<and>
    (if a = 0 then null_source hk held \<and> la_mem h' = la_mem h \<and> l_allocated h' = l_allocated h
     else \<exists>k. let R = Region a (4096 * k) [] in
       region_ok R \<and> unat n + 80 \<le> 4096 * k \<and> region_in h' 0 0 R \<and> owned owns (la_env h') [R] \<and>
       (\<forall>S\<in>set Rs. regions_apart S R) \<and> (\<forall>x. \<not> inside a 40 x \<longrightarrow> la_mem h' x = la_mem h x) \<and>
       l_allocated h' = l_allocated h + of_nat (4096 * k))"
proof -
  obtain k where k: "page_count (ucast n) = of_nat k" "0 < k" "k < 2 ^ 12" "unat n + 80 \<le> 4096 * k"
    using page_count_spec [OF rq] .
  have sz: "of_nat k * l_pageSize = of_nat (4096 * k)" by (simp add: l_pageSize_def mult.commute)
  define init :: "liballoc_major \<Rightarrow> liballoc_major" where "init = (\<lambda>r. r\<lparr>maj_prev := 0, maj_next := 0, maj_pages := of_nat k,
    maj_size := of_nat (4096 * k), maj_usage := 40, maj_first := 0\<rparr>)"
  obtain s where s: "hk_alloc hk (of_nat k) (la_env h) = Done (a, s)"
    and h': "h' = (if a = 0 then h\<lparr>la_env := s, l_warningCount := l_warningCount h + 1\<rparr>
      else (set_major a init (h\<lparr>la_env := s\<rparr>))\<lparr>l_allocated := l_allocated h + of_nat (4096 * k)\<rparr>)"
    using al k(3) up_of_nat [of "4096 * k"]
    by (auto simp: allocate_new_page_def k(1) sz Let_def init_def sizeof_major_def split: if_splits)
  note hook = hook_alloc [OF held k(2,3) s]
  have env: "la_env h' = s" by (simp add: h')
  have own': "owned owns (la_env h') Rs" using own hook by (auto simp: owned_def env)
  show ?thesis
  proof (cases "a = 0")
    case True
    have "null_source hk held" unfolding null_source_def using held k(2,3) s True by blast
    with True hook own' h' show ?thesis by simp
  next
    case False
    let ?R = "Region a (4096 * k) []"
    have ok: "region_ok ?R" using False hook k by (simp add: region_ok_def)
    have in': "region_in h' 0 0 ?R" using False by (simp add: region_in_def h' init_def)
    have out: "\<forall>x. \<not> inside a 40 x \<longrightarrow> la_mem h' x = la_mem h x"
      using region_hdr(2) [OF ok] False by (simp add: h' set_major_outside)
    have "\<forall>S\<in>set Rs. regions_apart S ?R"
    proof
      fix S
      assume S: "S \<in> set Rs"
      then have "40 \<le> rsize S" using lay region_hdr(1) by (force simp: layout_ok_def)
      moreover have "\<not> inside a (4096 * k) x" if "inside (rmaj S) (rsize S) x" for x
        using hook own False that S by (auto simp: owned_def)
      ultimately show "regions_apart S ?R"
        using fresh_apart [of "rmaj S" "rsize S" a "4096 * k"] k(2) by (simp add: regions_apart_def)
    qed
    moreover have "owned owns (la_env h') [?R]" using hook False by (simp add: owned_def env)
    ultimately have "\<exists>k. let R = Region a (4096 * k) [] in
       region_ok R \<and> unat n + 80 \<le> 4096 * k \<and> region_in h' 0 0 R \<and> owned owns (la_env h') [R] \<and>
       (\<forall>S\<in>set Rs. regions_apart S R) \<and> (\<forall>x. \<not> inside a 40 x \<longrightarrow> la_mem h' x = la_mem h x) \<and>
       l_allocated h' = l_allocated h + of_nat (4096 * k)"
      using ok in' out k(4) False by (intro exI [of _ k]) (simp add: h')
    then show ?thesis using False hook own' by (simp add: h')
  qed
qed

lemma append_major_spec:
  assumes g: "good held owns h (Rs @ [R])" and rq: "request req n" and e: "append_major hk n (rmaj R) h = Done t"
  shows "(\<exists>h'. null_source hk held \<and> t = Leave 0 h' \<and> good held owns h' (Rs @ [R]) \<and> data_kept (set (live (Rs @ [R]))) h h') \<or>
    (\<exists>h' N. t = Stay (rmaj N) h' \<and> good held owns h' (Rs @ [R, N]) \<and> pieces N = [] \<and> unat n + 80 \<le> rsize N \<and>
       data_kept (set (live (Rs @ [R]))) h h')"
proof -
  have ok: "heap_ok h (Rs @ [R])" and lay: "layout_ok (Rs @ [R])" and m: "mseg h 0 (Rs @ [R]) 0"
    and env: "held (la_env h)" "owned owns (la_env h) (Rs @ [R])" using g by (auto simp: good_def heap_ok_def)
  obtain a h1 where al: "allocate_new_page hk (ucast n) h = Done (a, h1)"
    and t: "t = (let h2 = set_major (rmaj R) (\<lambda>r. r\<lparr>maj_next := a\<rparr>) h1 in
      if a = 0 then Leave 0 h2 else Stay a (set_major a (\<lambda>r. r\<lparr>maj_prev := rmaj R\<rparr>) h2))"
    using e by (auto simp: append_major_def Let_def split: if_splits)
  note np = new_page [OF lay env rq al]
  let ?h2 = "set_major (rmaj R) (\<lambda>r. r\<lparr>maj_next := a\<rparr>) h1" and ?L = "set (live (Rs @ [R]))"
  have kept: "data_kept ?L h1 ?h2" using lay by (intro data_kept_set_major) auto
  show ?thesis
  proof (cases "a = 0")
    case True
    then have "la_mem h1 = la_mem h" using np by simp
    then have "mseg h1 0 (Rs @ [R]) 0" "data_kept ?L h ?h2" using m same_mem(4) data_kept_trans [OF _ kept] by (blast, simp)
    moreover from this(1) have "mseg ?h2 0 (Rs @ [R]) 0" using set_major_last [OF lay] True by blast
    ultimately have "good held owns ?h2 (Rs @ [R])" using ok np True by (auto simp: good_def heap_ok_def)
    with True \<open>data_kept ?L h ?h2\<close> t np show ?thesis by simp
  next
    case False
    then obtain k where N: "region_ok (Region a (4096 * k) [])" "unat n + 80 \<le> 4096 * k" "region_in h1 0 0 (Region a (4096 * k) [])"
      "owned owns (la_env h1) [Region a (4096 * k) []]" "\<forall>S\<in>set (Rs @ [R]). regions_apart S (Region a (4096 * k) [])"
      "\<forall>x. \<not> inside a 40 x \<longrightarrow> la_mem h1 x = la_mem h x" "l_allocated h1 = l_allocated h + of_nat (4096 * k)"
      using np by (auto simp: Let_def)
    let ?N = "Region a (4096 * k) []" and ?h3 = "set_major a (\<lambda>r. r\<lparr>maj_prev := rmaj R\<rparr>) ?h2"
    have c: "region_ok S \<and> clear_of a S" if "S \<in> set (Rs @ [R])" for S
      using lay that N(1,5) apart_clear(2) [of S ?N] by (auto simp: layout_ok_def)
    have same: "la_mem h1 x = la_mem h x" if "S \<in> set (Rs @ [R])" "inside (rmaj S) (rsize S) x" for S x
      using N(6) c [OF that(1)] that(2) by (auto simp: clear_of_def)
    have "mseg h1 0 (Rs @ [R]) 0 = mseg h 0 (Rs @ [R]) 0" using c same by (intro mseg_cong region_in_cong) auto
    with m have lk: "layout_ok (Rs @ [R, ?N])" "mseg ?h3 0 (Rs @ [R, ?N]) 0"
      using append_region [OF lay _ N(1,3,5)] by simp_all
    have "data_kept ?L h h1"
      unfolding data_kept_def
    proof (intro ballI allI impI)
      fix b x
      assume "b \<in> ?L" "in_data b x"
      with lay obtain S where "S \<in> set (Rs @ [R])" "inside (rmaj S) (rsize S) x"
        by (auto elim!: live_region simp: in_data_def inside_def)
      then show "la_mem h1 x = la_mem h x" by (rule same)
    qed
    also note kept
    also have "data_kept ?L ?h2 ?h3" using c lay by (intro data_kept_set_major) auto
    finally have "data_kept ?L h ?h3" .
    moreover have "good held owns ?h3 (Rs @ [R, ?N])"
      using ok np lk N(4,7) by (auto simp: good_def heap_ok_def)
    ultimately show ?thesis using t False N(2) by (auto intro!: exI [of _ ?N])
  qed
qed

lemma case1_eq:
  assumes "heap_ok h (As @ R # Bs)" "request req n"
  shows "case1 hk n (rmaj R) started h =
    (if rsize R < 40 + used (pieces R) + (unat n + 40)
     then if Bs \<noteq> [] then Done (Hop (rhead Bs) started h)
          else if started then Done (Hop (l_memRoot h) False h) else append_major hk n (rmaj R) h
     else Done (Stay (rmaj R) h))"
proof -
  note hr = heap_ok_region [OF assms(1)]
  have "maj_next (major h (rmaj R)) = rhead Bs" using hr(2) by (simp add: region_in_def)
  then show ?thesis unfolding case1_def not_enough [OF hr(1,2) assms(2)] using hr(3) by simp
qed

lemma fresh_block:
  assumes g: "good held owns h (As @ [N])" and N: "pieces N = []" "unat n + 80 \<le> rsize N" and rq: "request req n"
  shows "\<exists>p h'. try_block req n (rmaj N) h = Some (Some (p, h')) \<and> alloc_post (null_source hk held) held owns req n (As @ [N]) h p h'"
proof -
  have "heap_ok h (As @ N # [])" using g by (simp add: good_def)
  note hr = heap_ok_region [OF this]
  obtain p h' where "try_block req n (rmaj N) h = Some (Some (p, h'))" "found req n N h p h'"
    using try_block_spec [OF hr(1,2) rq] N by auto
  with found_post [of held owns h As N "[]"] g show ?thesis by simp
qed

lemma fresh_append:
  assumes "good held owns h' (As @ [R, N])" "pieces N = []" "unat n + 80 \<le> rsize N" "request req n"
    "data_kept (set (live (As @ [R]))) h h'"
  shows "\<exists>p h''. try_block req n (rmaj N) h' = Some (Some (p, h'')) \<and> alloc_post (null_source hk held) held owns req n (As @ [R]) h p h''"
proof -
  from fresh_block [of h' "As @ [R]" N n req] assms(1-4) obtain p h'' where
    t: "try_block req n (rmaj N) h' = Some (Some (p, h''))" "alloc_post (null_source hk held) held owns req n (As @ [R, N]) h' p h''" by auto
  have "set (live (As @ [R, N])) = set (live (As @ [R]))" using assms(2) by simp
  from alloc_post_trans [OF t(2) this assms(5)] t(1) show ?thesis by blast
qed

text \<open>One turn: the search leaves with the result, or goes on at the next region, at the root, or at a new region.\<close>

definition next_stop :: "u64 \<Rightarrow> region list \<Rightarrow> region \<Rightarrow> region list \<Rightarrow> bool \<Rightarrow> 's heap \<Rightarrow> u64 \<Rightarrow> bool \<Rightarrow> 's heap \<Rightarrow> bool" where
  "next_stop n As R Bs started h maj started' h' \<longleftrightarrow>
     Bs \<noteq> [] \<and> maj = rhead Bs \<and> started' = started \<and> h' = h \<or>
     Bs = [] \<and> started \<and> \<not> started' \<and> maj = rhead (As @ [R]) \<and> h' = h \<or>
     (\<exists>N. Bs = [] \<and> \<not> started' \<and> maj = rmaj N \<and> good held owns h' (As @ [R, N]) \<and> pieces N = [] \<and>
        unat n + 80 \<le> rsize N \<and> data_kept (set (live (As @ [R]))) h h')"

lemma append_major_fails:
  assumes "\<And>v. append_major hk n M h \<noteq> Done v"
  shows "no_pages hk n (la_env h)"
proof -
  have "\<exists>v. append_major hk n M h = Done v" if "hk_alloc hk (page_count (ucast n)) (la_env h) = Done r" for r
    using that by (cases r) (simp add: append_major_def allocate_new_page_def Let_def)
  with assms show ?thesis unfolding no_pages_def by metis
qed

lemma full_turn:
  assumes g: "good held owns h (As @ R # Bs)" and rq: "request req n"
    and sp: "rsize R < 40 + used (pieces R) + (unat n + 40)"
  shows "\<exists>t. malloc_turn hk req n (rmaj R) started h = Some t \<and>
    (\<forall>p h'. t = Done (Leave p h') \<longrightarrow> alloc_post (null_source hk held) held owns req n (As @ R # Bs) h p h') \<and>
    (\<forall>maj st h'. t = Done (Hop maj st h') \<longrightarrow> next_stop n As R Bs started h maj st h') \<and> (\<forall>a h'. t \<noteq> Done (Stay a h')) \<and>
    (no_pages hk n (la_env h) \<or> (\<exists>v. t = Done v))"
proof -
  have ok: "heap_ok h (As @ R # Bs)" using g by (simp add: good_def)
  then have root: "l_memRoot h = rhead (As @ R # Bs)" by (simp add: heap_ok_def)
  note c1 = case1_eq [OF ok rq, of started]
  show ?thesis
  proof (cases "Bs = [] \<and> \<not> started")
    case False
    with c1 sp root show ?thesis by (auto simp: malloc_turn_def next_stop_def)
  next
    case True
    then have c: "case1 hk n (rmaj R) started h = append_major hk n (rmaj R) h" using c1 sp by simp
    show ?thesis
    proof (cases "append_major hk n (rmaj R) h")
      case (Done v)
      have "good held owns h (As @ [R])" using g True by simp
      from append_major_spec [OF this rq Done] show ?thesis
      proof (elim disjE exE conjE)
        fix h' N
        assume v: "v = Stay (rmaj N) h'" and "good held owns h' (As @ [R, N])" "pieces N = []" "unat n + 80 \<le> rsize N"
          "data_kept (set (live (As @ [R]))) h h'"
        from fresh_append [OF this(2-4) rq this(5)] v Done c True show ?thesis by (auto simp: malloc_turn_def)
      next
        fix h'
        assume "null_source hk held" "v = Leave 0 h'" "good held owns h' (As @ [R])" "data_kept (set (live (As @ [R]))) h h'"
        with Done c True show ?thesis by (auto simp: malloc_turn_def alloc_post_def)
      qed
    qed (use c append_major_fails [of n "rmaj R" h] in \<open>simp_all add: malloc_turn_def\<close>)
  qed
qed

lemma case5_spec:
  assumes g: "good held owns h (As @ R # Bs)" and rq: "request req n" and t: "t = case5 hk n (rmaj R) started h"
  shows "(\<forall>p h'. t = Done (Leave p h') \<longrightarrow> alloc_post (null_source hk held) held owns req n (As @ R # Bs) h p h') \<and>
    (\<forall>maj st h'. t = Done (Hop maj st h') \<longrightarrow> next_stop n As R Bs started h maj st h') \<and> (\<forall>a h'. t \<noteq> Done (Stay a h')) \<and>
    (no_pages hk n (la_env h) \<or> (\<exists>v. t = Done v))"
proof -
  have ok: "heap_ok h (As @ R # Bs)" using g by (simp add: good_def)
  then have root: "l_memRoot h = rhead (As @ R # Bs)" by (simp add: heap_ok_def)
  note hr = heap_ok_region [OF ok]
  have nxt: "maj_next (major h (rmaj R)) = rhead Bs" using hr(2) by (simp add: region_in_def)
  show ?thesis
  proof (cases "Bs = [] \<and> \<not> started")
    case False
    with t nxt hr(3) root show ?thesis by (auto simp: case5_def next_stop_def)
  next
    case True
    then have c: "t = bind_o (append_major hk n (rmaj R) h) (\<lambda>t. case t of Stay a h \<Rightarrow> Done (Hop a False h) | _ \<Rightarrow> Done t)"
      using t nxt by (simp add: case5_def)
    show ?thesis
    proof (cases "append_major hk n (rmaj R) h")
      case (Done v)
      have "good held owns h (As @ [R])" using g True by simp
      from append_major_spec [OF this rq Done] show ?thesis
      proof (elim disjE exE conjE)
        fix h' N
        assume "v = Stay (rmaj N) h'" "good held owns h' (As @ [R, N])" "pieces N = []" "unat n + 80 \<le> rsize N"
          "data_kept (set (live (As @ [R]))) h h'"
        with Done c True show ?thesis by (auto simp: next_stop_def)
      next
        fix h'
        assume "null_source hk held" "v = Leave 0 h'" "good held owns h' (As @ [R])" "data_kept (set (live (As @ [R]))) h h'"
        with Done c True show ?thesis by (auto simp: alloc_post_def)
      qed
    qed (use c append_major_fails [of n "rmaj R" h] in simp_all)
  qed
qed

lemma malloc_turn_spec:
  assumes g: "good held owns h (As @ R # Bs)" and rq: "request req n"
  shows "\<exists>t. malloc_turn hk req n (rmaj R) started h = Some t \<and>
    (\<forall>p h'. t = Done (Leave p h') \<longrightarrow> alloc_post (null_source hk held) held owns req n (As @ R # Bs) h p h') \<and>
    (\<forall>maj st h'. t = Done (Hop maj st h') \<longrightarrow> next_stop n As R Bs started h maj st h') \<and> (\<forall>a h'. t \<noteq> Done (Stay a h')) \<and>
    (no_pages hk n (la_env h) \<or> (\<exists>v. t = Done v))"
proof (cases "rsize R < 40 + used (pieces R) + (unat n + 40)")
  case True
  with full_turn [OF g rq] show ?thesis by blast
next
  case False
  have ok: "heap_ok h (As @ R # Bs)" using g by (simp add: good_def)
  note hr = heap_ok_region [OF ok]
  have c: "case1 hk n (rmaj R) started h = Done (Stay (rmaj R) h)" using case1_eq [OF ok rq] False by simp
  obtain t where t: "try_block req n (rmaj R) h = Some t" "\<forall>p h'. t = Some (p, h') \<longrightarrow> found req n R h p h'"
    using try_block_spec [OF hr(1,2) rq] False by (auto simp: not_less)
  show ?thesis
  proof (cases t)
    case None
    with c t(1) case5_spec [OF g rq refl, of started] show ?thesis by (simp add: malloc_turn_def)
  next
    case (Some r)
    obtain p h' where r: "r = (p, h')" by (cases r)
    with found_post(2) [OF g, of req n p h'] t Some c show ?thesis by (simp add: malloc_turn_def)
  qed
qed

text \<open>The search ends: the flag is cleared at most once, and a new region is always large enough.\<close>

lemma good_bestBet:
  assumes "good held owns h (As @ R # Bs)"
  shows "good held owns (if b then h\<lparr>l_bestBet := rmaj R\<rparr> else h) (As @ R # Bs)"
  using assms heap_ok_bestBet [of h "As @ R # Bs" R] by (simp add: good_def)

lemma alloc_post_mem:
  assumes "alloc_post (null_source hk held) held owns req n Rs h1 p h'" "la_mem h1 = la_mem h"
  shows "alloc_post (null_source hk held) held owns req n Rs h p h'"
  using alloc_post_trans [OF assms(1) refl] assms(2) by simp

lemma fresh_loop:
  assumes "good held owns h (As @ [N])" "pieces N = []" "unat n + 80 \<le> rsize N" "request req n"
  shows "\<exists>p h'. malloc_loop hk req n (rmaj N) started best h = Some (Done (p, h')) \<and>
    alloc_post (null_source hk held) held owns req n (As @ [N]) h p h'"
proof -
  let ?h = "if best < free_space h (rmaj N) then h\<lparr>l_bestBet := rmaj N\<rparr> else h"
  have g: "good held owns ?h (As @ N # [])" using good_bestBet [of h As N "[]"] assms(1) by simp
  then have ok: "heap_ok ?h (As @ N # [])" by (simp add: good_def)
  note hr = heap_ok_region [OF ok]
  obtain p h' where t: "try_block req n (rmaj N) ?h = Some (Some (p, h'))" "alloc_post (null_source hk held) held owns req n (As @ [N]) ?h p h'"
    using fresh_block [OF g assms(2-4)] by blast
  have "case1 hk n (rmaj N) started ?h = Done (Stay (rmaj N) ?h)"
    unfolding case1_eq [OF ok assms(4)] using assms(2,3) by simp
  then have "malloc_turn hk req n (rmaj N) started ?h = Some (Done (Leave p h'))" using t(1) by (simp add: malloc_turn_def)
  moreover have "alloc_post (null_source hk held) held owns req n (As @ [N]) h p h'" using t(2) by (rule alloc_post_mem) simp
  ultimately show ?thesis using region_hdr(3) [OF hr(1)] by (auto simp: malloc_loop.simps Let_def)
qed

lemma malloc_loop_spec:
  assumes "good held owns h (As @ R # Bs)" "request req n"
  shows "\<exists>t. malloc_loop hk req n (rmaj R) started best h = Some t \<and>
    (\<forall>p h'. t = Done (p, h') \<longrightarrow> alloc_post (null_source hk held) held owns req n (As @ R # Bs) h p h') \<and> (no_pages hk n (la_env h) \<or> (\<exists>v. t = Done v))"
  using assms
proof (induction "(if started then length (As @ R # Bs) else 0) + length Bs" arbitrary: As R Bs started best h rule: less_induct)
  case less
  let ?Rs = "As @ R # Bs" and ?d = "free_space h (rmaj R)"
  define h1 where "h1 = (if best < ?d then h\<lparr>l_bestBet := rmaj R\<rparr> else h)"
  define best1 where "best1 = (if best < ?d then ?d else best)"
  have g: "good held owns h1 ?Rs" unfolding h1_def by (rule good_bestBet [OF less.prems(1)])
  have env: "la_env h1 = la_env h" by (simp add: h1_def)
  have to_h: "alloc_post (null_source hk held) held owns req n ?Rs h1 p h' \<Longrightarrow> alloc_post (null_source hk held) held owns req n ?Rs h p h'" for p h'
    by (erule alloc_post_mem) (simp add: h1_def)
  have R: "rmaj R \<noteq> 0" using region_hdr(3) heap_ok_region(1) less.prems(1) by (fastforce simp: good_def)
  obtain t where t: "malloc_turn hk req n (rmaj R) started h1 = Some t"
    and leave: "\<And>p h'. t = Done (Leave p h') \<Longrightarrow> alloc_post (null_source hk held) held owns req n ?Rs h p h'"
    and hop: "\<And>maj st h'. t = Done (Hop maj st h') \<Longrightarrow> next_stop n As R Bs started h1 maj st h'"
    and stay: "\<And>a h'. t \<noteq> Done (Stay a h')" and fails: "no_pages hk n (la_env h) \<or> (\<exists>v. t = Done v)"
    using malloc_turn_spec [OF g less.prems(2), of started] to_h by (auto simp: env)
  have unfold: "malloc_loop hk req n (rmaj R) started best h = (case t of
      Done (Hop maj st h') \<Rightarrow> malloc_loop hk req n maj st best1 h' | Done (Leave p h') \<Rightarrow> Some (Done (p, h'))
    | Done (Stay a h') \<Rightarrow> Some (Done (0, h')) | Fault e \<Rightarrow> Some (Fault e) | Hang \<Rightarrow> Some Hang)"
    unfolding best1_def using R t
    by (simp add: malloc_loop.simps [of hk req n "rmaj R" started best h] Let_def split del: if_split flip: h1_def)
  have goes: "\<exists>t. malloc_loop hk req n maj st best1 h' = Some t \<and>
      (\<forall>p h''. t = Done (p, h'') \<longrightarrow> alloc_post (null_source hk held) held owns req n ?Rs h p h'') \<and> (no_pages hk n (la_env h) \<or> (\<exists>v. t = Done v))"
    if "t = Done (Hop maj st h')" for maj st h'
    using hop [OF that] unfolding next_stop_def
  proof (elim disjE exE conjE)
    assume *: "Bs \<noteq> []" "maj = rhead Bs" "st = started" "h' = h1"
    then obtain S Ss where S: "Bs = S # Ss" by (cases Bs) auto
    then have "good held owns h1 ((As @ [R]) @ S # Ss)" using g by simp
    from less.hyps [OF _ this less.prems(2), of started best1] S * to_h show ?thesis by (auto simp: env)
  next
    assume *: "Bs = []" "started" "\<not> st" "maj = rhead (As @ [R])" "h' = h1"
    obtain S Ss where S: "As @ [R] = S # Ss" by (cases As) auto
    then have gd: "good held owns h1 ([] @ S # Ss)" using g * by simp
    have "rhead (As @ [R]) = rmaj S" unfolding S by simp
    moreover have "length Ss = length As" using arg_cong [OF S, of length] by simp
    ultimately show ?thesis
      using less.hyps [OF _ gd less.prems(2), of False best1] S * to_h by (auto simp: env simp del: rhead_append)
  next
    fix N
    assume *: "Bs = []" "\<not> st" "maj = rmaj N" "good held owns h' (As @ [R, N])" "pieces N = []"
      "unat n + 80 \<le> rsize N" "data_kept (set (live (As @ [R]))) h1 h'"
    from fresh_loop [of h' "As @ [R]" N n req st best1] * less.prems(2) obtain p h'' where
      "malloc_loop hk req n maj st best1 h' = Some (Done (p, h''))"
      and ap: "alloc_post (null_source hk held) held owns req n (As @ [R, N]) h' p h''" by auto
    moreover have "alloc_post (null_source hk held) held owns req n ?Rs h p h''"
      using alloc_post_trans [OF ap, of ?Rs h1] * by (intro to_h) auto
    ultimately show ?thesis by auto
  qed
  show ?case
    unfolding unfold using leave goes stay fails by (auto split: outcome.splits turn.splits)
qed

section \<open>Requests\<close>

lemma first_region:
  assumes g: "good held owns h Rs" and rq: "request req n" and i: "init_root hk n h = Done h'"
  shows "Rs \<noteq> [] \<and> h' = h \<and> l_memRoot h \<noteq> 0 \<or> Rs = [] \<and> l_memRoot h' = 0 \<and> null_source hk held \<and> good held owns h' [] \<or>
    (\<exists>N. Rs = [] \<and> l_memRoot h' = rmaj N \<and> rmaj N \<noteq> 0 \<and> l_bestBet h' = 0 \<and> good held owns h' [N] \<and> pieces N = [] \<and>
       unat n + 80 \<le> rsize N)"
proof (cases "Rs = []")
  case False
  then obtain R Ss where Rs: "Rs = [] @ R # Ss" by (cases Rs) auto
  then have "rmaj R \<noteq> 0" using g heap_ok_region(1) [of h "[]" R Ss] region_hdr(3) by (simp add: good_def)
  then have "l_memRoot h \<noteq> 0" using g Rs by (simp add: good_def heap_ok_def)
  with i False show ?thesis by (auto simp: init_root_def)
next
  case True
  then have root: "l_memRoot h = 0" and env: "layout_ok Rs" "held (la_env h)" "owned owns (la_env h) Rs"
    and h0: "l_inuse h = 0" "l_allocated h = 0" "l_bestBet h = 0"
    using g by (auto simp: good_def heap_ok_def)
  obtain a h1 where al: "allocate_new_page hk (ucast n) h = Done (a, h1)" and h': "h' = h1\<lparr>l_memRoot := a\<rparr>"
    using i root by (auto simp: init_root_def)
  note np = new_page [OF env rq al]
  show ?thesis
  proof (cases "a = 0")
    case True
    with np \<open>Rs = []\<close> h' h0 show ?thesis
      by (auto simp: good_def heap_ok_def layout_ok_def owned_def)
  next
    case False
    then obtain k where N: "region_ok (Region a (4096 * k) [])" "region_in h1 0 0 (Region a (4096 * k) [])"
      "owned owns (la_env h1) [Region a (4096 * k) []]" "l_allocated h1 = of_nat (4096 * k)" "unat n + 80 \<le> 4096 * k"
      using np h0 by (auto simp: Let_def)
    let ?N = "Region a (4096 * k) []"
    have "mseg h1 0 [?N] 0" using N(2) by simp
    then have "mseg h' 0 [?N] 0" by (subst same_mem(4) [of h' h1]) (simp_all add: h')
    with N np h0 False have "good held owns h' [?N]" by (auto simp: good_def heap_ok_def layout_ok_def h')
    with \<open>Rs = []\<close> N(5) False np h0 show ?thesis by (intro disjI2 exI [of _ ?N]) (simp add: h')
  qed
qed

lemma search_start:
  assumes "good held owns h Rs" "Rs \<noteq> []" "start_search n h = (maj, started, best)"
  obtains As R Bs where "Rs = As @ R # Bs" "maj = rmaj R"
proof -
  obtain S Ss where S: "Rs = S # Ss" using assms(2) by (cases Rs) auto
  then have "l_memRoot h = rmaj S" using assms(1) by (simp add: good_def heap_ok_def)
  moreover have "l_bestBet h = 0 \<or> l_bestBet h \<in> rmaj ` set Rs" using assms(1) by (simp add: good_def heap_ok_def)
  ultimately have "maj \<in> rmaj ` set Rs" using assms(3) S by (auto simp: start_search_def Let_def split: if_splits)
  then obtain R where "R \<in> set Rs" "maj = rmaj R" by blast
  with that split_list show thesis by metis
qed

lemma lock_good:
  assumes "good idle owns h Rs"
  obtains h' where "liballoc_lock hk h = Done h'" "good held owns h' Rs" "la_mem h' = la_mem h" "h' = h\<lparr>la_env := la_env h'\<rparr>"
proof -
  obtain s where s: "hk_lock hk (la_env h) = Done s" "held s" "owns s = owns (la_env h)"
    using hook_lock assms by (auto simp: good_def)
  let ?h = "h\<lparr>la_env := s\<rparr>"
  have "good held owns ?h Rs" using assms s same_mem(4) [of ?h h 0 Rs 0] by (simp add: good_def heap_ok_def owned_def)
  with that [of ?h] s(1) show thesis by (simp add: liballoc_lock_def)
qed

lemma unlock_good:
  assumes "good held owns h Rs"
  obtains h' where "liballoc_unlock hk h = Done h'" "good idle owns h' Rs" "la_mem h' = la_mem h" "h' = h\<lparr>la_env := la_env h'\<rparr>"
proof -
  obtain s where s: "hk_unlock hk (la_env h) = Done s" "idle s" "owns s = owns (la_env h)"
    using hook_unlock assms by (auto simp: good_def)
  let ?h = "h\<lparr>la_env := s\<rparr>"
  have "good idle owns ?h Rs" using assms s same_mem(4) [of ?h h 0 Rs 0] by (simp add: good_def heap_ok_def owned_def)
  with that [of ?h] s(1) show thesis by (simp add: liballoc_unlock_def)
qed

lemma init_root_fails:
  assumes "\<And>v. init_root hk n h \<noteq> Done v"
  shows "no_pages hk n (la_env h)"
proof -
  have "\<exists>v. init_root hk n h = Done v" if "hk_alloc hk (page_count (ucast n)) (la_env h) = Done r" for r
    using that by (cases r) (simp add: init_root_def allocate_new_page_def Let_def)
  with assms show ?thesis unfolding no_pages_def by metis
qed

text \<open>The body of \<^verbatim>\<open>liballoc_malloc\<close> between the lock and the unlock.\<close>

definition locked_malloc :: "u64 \<Rightarrow> u64 \<Rightarrow> 's heap \<Rightarrow> (u64 \<times> 's heap) outcome" where
  "locked_malloc req n h = bind_o (init_root hk n h) (\<lambda>h.
     if l_memRoot h = 0 then Done (0, h)
     else let (maj, started, best) = start_search n h in run_option (malloc_loop hk req n maj started best h))"

lemma locked_post:
  assumes g: "good held owns h Rs" and rq: "request req n"
  shows "(\<exists>p h'. locked_malloc req n h = Done (p, h') \<and> alloc_post (null_source hk held) held owns req n Rs h p h') \<or>
    no_pages hk n (la_env h) \<and> (\<forall>r. locked_malloc req n h \<noteq> Done r)"
proof (cases "init_root hk n h")
  case (Done h1)
  from first_region [OF g rq Done] show ?thesis
  proof (elim disjE exE conjE)
    assume *: "Rs \<noteq> []" "h1 = h" "l_memRoot h \<noteq> 0"
    obtain maj started best where st: "start_search n h = (maj, started, best)" by (cases "start_search n h")
    obtain As R Bs where Rs: "Rs = As @ R # Bs" "maj = rmaj R" using search_start [OF g *(1) st] .
    from malloc_loop_spec [of h As R Bs req n started best] g rq Rs obtain u where
      "malloc_loop hk req n maj started best h = Some u"
      "\<forall>p h'. u = Done (p, h') \<longrightarrow> alloc_post (null_source hk held) held owns req n Rs h p h'" "no_pages hk n (la_env h) \<or> (\<exists>v. u = Done v)" by auto
    moreover from this(1) * Done st have "locked_malloc req n h = u" by (simp add: locked_malloc_def run_option_def)
    ultimately show ?thesis by (cases u) auto
  next
    assume *: "Rs = []" "l_memRoot h1 = 0" "null_source hk held" "good held owns h1 []"
    then have "alloc_post (null_source hk held) held owns req n Rs h 0 h1" by (auto simp: alloc_post_def data_kept_def)
    with * Done show ?thesis by (simp add: locked_malloc_def)
  next
    fix N
    assume *: "Rs = []" "l_memRoot h1 = rmaj N" "rmaj N \<noteq> 0" "l_bestBet h1 = 0" "good held owns h1 [N]" "pieces N = []"
      "unat n + 80 \<le> rsize N"
    from fresh_loop [of h1 "[]" N n req False 0] * rq obtain p h' where
      l: "malloc_loop hk req n (rmaj N) False 0 h1 = Some (Done (p, h'))" "alloc_post (null_source hk held) held owns req n [N] h1 p h'" by auto
    have "alloc_post (null_source hk held) held owns req n Rs h p h'"
      using alloc_post_trans [OF l(2), of Rs h] * by (simp add: data_kept_def)
    with l(1) * Done show ?thesis by (simp add: locked_malloc_def start_search_def run_option_def)
  qed
qed (use init_root_fails [of n h] in \<open>simp_all add: locked_malloc_def\<close>)

lemma malloc_sized_spec:
  assumes g: "good idle owns h Rs" and rq: "request req n"
  shows "(\<exists>p h'. malloc_sized hk req n h = Done (p, h') \<and> alloc_post (null_source hk held) idle owns req n Rs h p h') \<or>
    (\<exists>s. hk_lock hk (la_env h) = Done s \<and> no_pages hk n s \<and> (\<forall>r. malloc_sized hk req n h \<noteq> Done r))"
proof -
  obtain h1 where h1: "liballoc_lock hk h = Done h1" "good held owns h1 Rs" "la_mem h1 = la_mem h"
    using lock_good [OF g] .
  have env: "hk_lock hk (la_env h) = Done (la_env h1)" using h1(1) by (cases "hk_lock hk (la_env h)") (auto simp: liballoc_lock_def)
  have m: "malloc_sized hk req n h = bind_o (locked_malloc req n h1) (\<lambda>(p, h). bind_o (liballoc_unlock hk h) (\<lambda>h. Done (p, h)))"
    using h1(1) by (cases "init_root hk n h1") (simp_all add: malloc_sized_def locked_malloc_def)
  from locked_post [OF h1(2) rq] show ?thesis
  proof (elim disjE exE conjE)
    fix p h3
    assume t: "locked_malloc req n h1 = Done (p, h3)" and post: "alloc_post (null_source hk held) held owns req n Rs h1 p h3"
    from alloc_post_trans [OF post refl, where h = h] h1(3) obtain Rs3 where R3: "good held owns h3 Rs3"
      "data_kept (set (live Rs)) h h3" "if p = 0 then null_source hk held \<and> set (live Rs3) = set (live Rs)
        else \<exists>a. p = data_ptr a \<and> new_piece a n req \<notin> set (live Rs) \<and>
          set (live Rs3) = insert (new_piece a n req) (set (live Rs))"
      by (auto simp: alloc_post_def data_kept_def)
    obtain h4 where h4: "liballoc_unlock hk h3 = Done h4" "good idle owns h4 Rs3" "la_mem h4 = la_mem h3"
      using unlock_good [OF R3(1)] .
    then have "alloc_post (null_source hk held) idle owns req n Rs h p h4"
      unfolding alloc_post_def using R3(2,3) data_kept_mem by blast
    moreover have "malloc_sized hk req n h = Done (p, h4)" using t h4(1) by (simp add: m)
    ultimately show ?thesis by blast
  next
    assume "no_pages hk n (la_env h1)" and *: "\<forall>r. locked_malloc req n h1 \<noteq> Done r"
    moreover have "malloc_sized hk req n h \<noteq> Done r" for r using * by (cases "locked_malloc req n h1") (auto simp: m)
    ultimately show ?thesis using env by blast
  qed
qed

lemma liballoc_malloc_spec:
  assumes g: "good idle owns h Rs" and rq: "unat req < 2 ^ 24 - 8224"
  shows "(\<exists>p h'. liballoc_malloc hk req h = Done (p, h') \<and> alloc_post (null_source hk held) idle owns req (req + 32) Rs h p h') \<or>
    (\<exists>s. hk_lock hk (la_env h) = Done s \<and> no_pages hk (req + 32) s \<and> (\<forall>r. liballoc_malloc hk req h \<noteq> Done r))"
proof -
  have n: "unat (req + 32) = unat req + 32" using rq by (subst unat_add_less) simp_all
  then have "request req (req + 32)" "req + 32 \<noteq> 0" using rq by (auto simp: request_def)
  with malloc_sized_spec [OF g this(1)] show ?thesis
    by (simp add: liballoc_malloc_def ALIGNMENT_def ALIGN_INFO_def Let_def)
qed

end

end
