(* ===== verification/Navy_Free.thy ===== *)
theory Navy_Free
  imports Navy_Malloc
begin

text \<open>
  What \<^verbatim>\<open>liballoc_free\<close> and \<^verbatim>\<open>liballoc_realloc\<close> promise: a released piece leaves the layout, the
  others keep their place and their data, an empty region goes back to the page source, and a
  second release is refused. The contract is then discharged for the hooks of the kernel.
\<close>

section \<open>Taking a piece out of a region\<close>

definition unlinked :: "'s heap \<Rightarrow> 's heap \<Rightarrow> u64 \<Rightarrow> piece list \<Rightarrow> piece \<Rightarrow> piece list \<Rightarrow> bool" where
  "unlinked h h' M xs b ys \<longleftrightarrow>
     (\<forall>x. \<not> inside M 40 x \<and> \<not> inside (padr b) 40 x \<and> (xs \<noteq> [] \<longrightarrow> \<not> inside (padr (last xs)) 40 x) \<and>
        (ys \<noteq> [] \<longrightarrow> \<not> inside (padr (hd ys)) 40 x) \<longrightarrow> la_mem h' x = la_mem h x) \<and>
     min_magic (minor h' (padr b)) = LIBALLOC_DEAD \<and>
     (xs \<noteq> [] \<longrightarrow> minor h' (padr (last xs)) = (minor h (padr (last xs)))\<lparr>min_next := head 0 ys\<rparr>) \<and>
     (ys \<noteq> [] \<longrightarrow> minor h' (padr (hd ys)) = (minor h (padr (hd ys)))\<lparr>min_prev := tail 0 xs\<rparr>) \<and>
     major h' M = (major h M)\<lparr>maj_first := (if xs = [] then head 0 ys else maj_first (major h M)),
       maj_usage := maj_usage (major h M) - of_nat (40 + psize b)\<rparr> \<and>
     l_memRoot h' = l_memRoot h \<and> l_bestBet h' = l_bestBet h \<and> l_allocated h' = l_allocated h \<and>
     l_inuse h' = l_inuse h - of_nat (psize b) \<and> la_env h' = la_env h"

lemma gap_removed:
  assumes ok: "region_ok R" and pcs: "pieces R = xs @ b # ys"
  shows "gap (Region (rmaj R) (rsize R) (xs @ ys)) xs b ys"
proof -
  let ?lo = "unat (rmaj R) + 40" and ?hi = "unat (rmaj R) + rsize R"
  have f: "fits ?lo (unat (padr b)) xs" "piece_end ?lo xs \<le> unat (padr b)" "fits (unat (padr b) + 40 + psize b) ?hi ys"
    using ok pcs by (simp_all add: region_ok_def fits_append)
  have st: "unat (padr b) + 40 + psize b \<le> piece_start ?hi ys" using piece_start_le [OF f(3)] by simp
  have widen: "fits lo hi zs \<Longrightarrow> hi \<le> k \<Longrightarrow> fits lo k zs" for lo hi k and zs by (induction zs arbitrary: lo) auto
  have "fits ?lo (piece_start ?hi ys) xs" using widen [OF f(1)] st by simp
  moreover have "fits (piece_end ?lo xs) ?hi ys" using f(2,3) st by (cases ys) auto
  ultimately show ?thesis using ok pcs f(2) st by (auto simp: gap_def region_ok_def fits_append)
qed

lemma unlink_minor_unlinked:
  assumes g: "gap R xs b ys" and m: "minor h (padr b) = \<lparr>min_prev = tail 0 xs, min_next = head 0 ys, min_block = rmaj R,
      min_magic = LIBALLOC_MAGIC, min_size = of_nat (psize b), min_req_size = of_nat (preq b)\<rparr>"
    and sz: "psize b < 2 ^ 32"
  shows "unlinked h (unlink_minor (rmaj R) (padr b) h) (rmaj R) xs b ys"
proof -
  let ?M = "rmaj R" and ?b = "padr b"
  note ap = gap_apart [OF g]
  have ok: "region_ok R" "pieces R = xs @ ys" using g by (auto simp: gap_def)
  have hd: "hdr ?M" "hdr ?b" "\<And>c. c \<in> set (xs @ ys) \<Longrightarrow> hdr (padr c)" "\<And>c. c \<in> set (xs @ ys) \<Longrightarrow> padr c \<noteq> 0"
    using ap(1) piece_hdr [OF ok(1), unfolded ok(2)] by (auto simp: apart_def)
  have us: "ucast (ucast u - ((of_nat (psize b) :: u64) + 40)) = u - (of_nat (40 + psize b) :: u32)" for u :: u32
    by (simp add: down_simps)
  have up: "(ucast (of_nat (psize b) :: u32) :: u64) = of_nat (psize b)" using sz by (rule up_of_nat)
  consider "xs = []" "ys = []" | v vs where "xs = []" "ys = v # vs" | us u where "xs = us @ [u]" "ys = []"
    | us u v vs where "xs = us @ [u]" "ys = v # vs"
    by (cases xs rule: rev_cases; cases ys) auto
  then show ?thesis
  proof cases
    case 1
    then show ?thesis using m ap(1,2) hd
      by (simp add: unlink_minor_def unlinked_def Let_def set_major_outside set_minor_outside us up sizeof_minor_def)
  next
    case 2
    then show ?thesis using m ap(1,2) ap(3-6) [of v] hd(1,2) hd(3,4) [of v]
      by (simp add: unlink_minor_def unlinked_def Let_def set_major_outside set_minor_outside us up sizeof_minor_def)
  next
    case 3
    then show ?thesis using m ap(1,2) ap(3-6) [of u] hd(1,2) hd(3,4) [of u]
      by (simp add: unlink_minor_def unlinked_def Let_def set_major_outside set_minor_outside us up sizeof_minor_def)
  next
    case 4
    then show ?thesis using m ap(1,2) ap(3-6) [of u] ap(3-6) [of v] ap(7,8) [of u v] hd(1,2) hd(3,4) [of u] hd(3,4) [of v]
      by (simp add: unlink_minor_def unlinked_def Let_def set_major_outside set_minor_outside us up sizeof_minor_def)
  qed
qed

lemma unlinked_change: "unlinked h h' M xs b ys \<Longrightarrow> gap_change h h' M xs b ys"
  by (auto simp: unlinked_def gap_change_def inside_def)

lemma unlinked_region:
  assumes ok: "region_ok R" and pcs: "pieces R = xs @ b # ys" and r: "region_in h p q R"
    and u: "unlinked h h' (rmaj R) xs b ys"
  shows "region_in h' p q (Region (rmaj R) (rsize R) (xs @ ys))"
proof -
  let ?R = "Region (rmaj R) (rsize R) (xs @ ys)"
  have g: "gap ?R xs b ys" using gap_removed [OF ok pcs] .
  have d: "dseg h (rmaj ?R) 0 xs (padr b)" "dseg h (rmaj ?R) (padr b) ys 0"
    using r pcs by (simp_all add: region_in_def dseg_append)
  have ch: "gap_change h h' (rmaj ?R) xs b ys" using unlinked_change [OF u] by simp
  from relink_pieces [OF g ch d, of "head 0 ys" "tail 0 xs"] u
  have "dseg h' (rmaj R) 0 (xs @ ys) 0" by (simp add: dseg_append unlinked_def)
  moreover have "(if xs = [] then head 0 ys else maj_first (major h (rmaj R))) = head 0 (xs @ ys)"
    using r pcs by (cases xs) (simp_all add: region_in_def)
  ultimately show ?thesis using u r pcs by (simp add: region_in_def unlinked_def)
qed

lemma unlink_ok:
  assumes ok: "heap_ok h (As @ R # Bs)" and pcs: "pieces R = xs @ b # ys"
  defines "h' \<equiv> unlink_minor (rmaj R) (padr b) h" and "R' \<equiv> Region (rmaj R) (rsize R) (xs @ ys)"
  shows "heap_ok h' (As @ R' # Bs)" "data_kept (set (live (As @ R' # Bs))) h h'"
    "set (live (As @ R' # Bs)) = set (live (As @ R # Bs)) - {b}" "la_env h' = la_env h"
    "min_magic (minor h' (padr b)) = LIBALLOC_DEAD" "la_mem h' (align_at (padr b)) = la_mem h (align_at (padr b))"
proof -
  have lay: "layout_ok (As @ R # Bs)" and m: "mseg h 0 (As @ R # Bs) 0" using ok by (simp_all add: heap_ok_def)
  note hr = heap_ok_region [OF ok]
  have g: "gap R' xs b ys" unfolding R'_def by (rule gap_removed [OF hr(1) pcs])
  have "piece_in h (rmaj R) (tail 0 xs) (head 0 ys) b" using hr(2) pcs by (simp add: region_in_def dseg_append)
  then have "unlinked h h' (rmaj R') xs b ys"
    unfolding h'_def using unlink_minor_unlinked [OF g, of h] piece_size [OF hr(1), of b] pcs
    by (simp add: piece_in_def R'_def)
  then have u: "unlinked h h' (rmaj R) xs b ys" and ch: "gap_change h h' (rmaj R') xs b ys"
    using unlinked_change by (auto simp: R'_def)
  have lay': "layout_ok (As @ R' # Bs)"
    using lay g by (auto simp: layout_ok_def sorted_wrt_append R'_def regions_apart_def gap_def)
  have "mseg h' 0 (As @ R' # Bs) 0"
    using gap_outside [OF g ch] unlinked_region [OF hr(1) pcs hr(2) u]
    by (intro mseg_replace [OF lay m]) (simp_all add: R'_def)
  with lay' ok u pcs show "heap_ok h' (As @ R' # Bs)"
    by (auto simp: heap_ok_def unlinked_def R'_def)
  show "data_kept (set (live (As @ R' # Bs))) h h'"
  proof (rule data_keptI [OF lay' gap_outside [OF g ch]])
    fix c x
    assume "c \<in> set (live (As @ R' # Bs)) \<inter> set (pieces R')" "in_data c x"
    then show "la_mem h' x = la_mem h x"
      by (intro gap_frame [OF g ch, of c]) (auto simp: in_data_def inside_def R'_def)
  qed (assumption, rule subset_refl)
  show "set (live (As @ R' # Bs)) = set (live (As @ R # Bs)) - {b}"
    using gap_not_live [OF lay' g] pcs by (auto simp: R'_def)
  show "la_env h' = la_env h" "min_magic (minor h' (padr b)) = LIBALLOC_DEAD" using u by (simp_all add: unlinked_def)
  let ?x = "align_at (padr b)"
  have a: "unat (padr b) + 40 \<le> unat ?x" "unat ?x < unat (padr b) + 56"
    using align_at_bounds [OF gapD(6) [OF g]] by simp_all
  have "32 \<le> psize b" using g by (auto simp: gap_def piece_ok_def)
  with a gapD(3) [OF g, of "last xs"] gapD(4) [OF g, of "hd ys"] gapD(1) [OF g]
  have "\<not> inside (rmaj R) 40 ?x" "\<not> inside (padr b) 40 ?x" "xs \<noteq> [] \<longrightarrow> \<not> inside (padr (last xs)) 40 ?x"
    "ys \<noteq> [] \<longrightarrow> \<not> inside (padr (hd ys)) 40 ?x"
    by (auto simp: inside_def R'_def)
  with u show "la_mem h' ?x = la_mem h ?x" unfolding unlinked_def by blast
qed

section \<open>Giving an empty region back\<close>

lemma mseg_set_other:
  assumes "\<And>S. S \<in> set Rs \<Longrightarrow> region_ok S \<and> clear_of M S"
  shows "mseg (set_major M f h) p Rs q = mseg h p Rs q"
  using assms by (intro mseg_cong region_set_other) blast+

lemma layout_clear:
  assumes "layout_ok (As @ Bs)" "R \<in> set As" "S \<in> set Bs"
  shows "region_ok R" "region_ok S" "clear_of (rmaj R) S" "clear_of (rmaj S) R"
proof -
  show r: "region_ok R" "region_ok S" using assms by (auto simp: layout_ok_def)
  have "regions_apart R S" using assms by (auto simp: layout_ok_def sorted_wrt_append)
  with apart_clear [OF r] show "clear_of (rmaj R) S" "clear_of (rmaj S) R" by blast+
qed

text \<open>The links of the neighbours of a region that leaves the list.\<close>

definition link_before :: "region list \<Rightarrow> u64 \<Rightarrow> 's heap \<Rightarrow> 's heap" where
  "link_before As a h = (if As = [] then h else set_major (rmaj (last As)) (\<lambda>r. r\<lparr>maj_next := a\<rparr>) h)"

definition link_after :: "region list \<Rightarrow> u64 \<Rightarrow> 's heap \<Rightarrow> 's heap" where
  "link_after Bs a h = (if Bs = [] then h else set_major (rmaj (hd Bs)) (\<lambda>r. r\<lparr>maj_prev := a\<rparr>) h)"

lemma link_before_mseg:
  assumes lay: "layout_ok (As @ Bs)" and m: "mseg h 0 As q" "mseg h p Bs 0"
  shows "mseg (link_before As a h) 0 As a" "mseg (link_before As a h) p Bs 0"
proof -
  show "mseg (link_before As a h) p Bs 0"
    using m(2) layout_clear [OF lay, of "last As"] by (auto simp: link_before_def mseg_set_other)
  show "mseg (link_before As a h) 0 As a"
  proof (cases As rule: rev_cases)
    case (snoc Cs R)
    then have "layout_ok (Cs @ [R])" using lay by (auto simp: layout_ok_def sorted_wrt_append)
    from layout_clear [OF this] m(1) snoc show ?thesis
      by (auto simp: link_before_def mseg_append mseg_set_other intro: region_set_own(1))
        (use lay in \<open>auto simp: layout_ok_def intro!: region_set_own(1)\<close>)
  qed simp
qed

lemma link_after_mseg:
  assumes lay: "layout_ok (As @ Bs)" and m: "mseg h 0 As q" "mseg h p Bs 0"
  shows "mseg (link_after Bs a h) 0 As q" "mseg (link_after Bs a h) a Bs 0"
proof -
  show "mseg (link_after Bs a h) 0 As q"
    using m(1) layout_clear [OF lay, of _ "hd Bs"] by (cases "Bs = []") (simp_all add: link_after_def mseg_set_other)
  show "mseg (link_after Bs a h) a Bs 0"
  proof (cases Bs)
    case (Cons R Cs)
    then have "layout_ok ([R] @ Cs)" "region_ok R" using lay by (auto simp: layout_ok_def sorted_wrt_append)
    from layout_clear [OF this(1)] m(2) Cons region_set_own(2) [OF this(2)] show ?thesis
      by (auto simp: link_after_def mseg_set_other)
  qed simp
qed

lemma link_kept:
  assumes "layout_ok Rs" "set As \<subseteq> set Rs"
  shows "data_kept (set (live Rs)) h (link_before As a h)" "data_kept (set (live Rs)) h (link_after As a h)"
proof -
  have "As = [] \<or> last As \<in> set Rs" "As = [] \<or> hd As \<in> set Rs"
    using assms(2) last_in_set [of As] hd_in_set [of As] by blast+
  then show "data_kept (set (live Rs)) h (link_before As a h)" "data_kept (set (live Rs)) h (link_after As a h)"
    using data_kept_set_major [OF assms(1)] by (auto simp: link_before_def link_after_def)
qed

lemma link_fields [simp]:
  "l_memRoot (link_before As a h) = l_memRoot h" "l_memRoot (link_after As a h) = l_memRoot h"
  "l_bestBet (link_before As a h) = l_bestBet h" "l_bestBet (link_after As a h) = l_bestBet h"
  "l_allocated (link_before As a h) = l_allocated h" "l_allocated (link_after As a h) = l_allocated h"
  "l_inuse (link_before As a h) = l_inuse h" "l_inuse (link_after As a h) = l_inuse h"
  "l_errorCount (link_before As a h) = l_errorCount h" "l_errorCount (link_after As a h) = l_errorCount h"
  "la_env (link_before As a h) = la_env h" "la_env (link_after As a h) = la_env h"
  by (simp_all add: link_before_def link_after_def)

lemma layout_apart:
  assumes "layout_ok (As @ Bs)" "R \<in> set As" "S \<in> set Bs"
  shows "apart (rmaj R) (rmaj S)" "rmaj R \<noteq> rmaj S"
proof -
  have "regions_apart R S" using assms by (auto simp: layout_ok_def sorted_wrt_append)
  with region_hdr(1,2) [OF layout_clear(1) [OF assms]] region_hdr(1,2) [OF layout_clear(2) [OF assms]]
  show "apart (rmaj R) (rmaj S)" by (auto simp: apart_def regions_apart_def)
  then show "rmaj R \<noteq> rmaj S" by (auto simp: apart_def)
qed

lemma link_other:
  assumes "layout_ok (As @ R # Bs)"
  shows "major (link_before As a h) (rmaj R) = major h (rmaj R)" "major (link_after Bs b h) (rmaj R) = major h (rmaj R)"
proof -
  have l: "layout_ok ((As @ [R]) @ Bs)" using assms by simp
  have "As = [] \<or> apart (rmaj (last As)) (rmaj R)" using layout_apart(1) [OF assms, of "last As" R] by (cases "As = []") simp_all
  moreover have "Bs = [] \<or> apart (rmaj (hd Bs)) (rmaj R)"
    using layout_apart(1) [OF l, of R "hd Bs"] by (auto intro: apart_sym)
  ultimately show "major (link_before As a h) (rmaj R) = major h (rmaj R)" "major (link_after Bs b h) (rmaj R) = major h (rmaj R)"
    by (auto simp: link_before_def link_after_def)
qed

text \<open>The state of the heap when the pages of a region are given back.\<close>

definition dropped :: "region list \<Rightarrow> region \<Rightarrow> region list \<Rightarrow> 's heap \<Rightarrow> 's heap" where
  "dropped As R Bs h = (link_after Bs (rtail 0 As) (link_before As (rhead Bs) h))\<lparr>
     l_memRoot := rhead (As @ Bs), l_bestBet := (if l_bestBet h = rmaj R then 0 else l_bestBet h),
     l_allocated := l_allocated h - of_nat (rsize R)\<rparr>"

lemma release_major_eq:
  assumes ok: "heap_ok h (As @ R # Bs)"
  shows "release_major hk (rmaj R) h = bind_o (hk_free hk (rmaj R) (of_nat (rsize R div 4096)) (la_env h))
    (\<lambda>s. Done ((dropped As R Bs h)\<lparr>la_env := s\<rparr>))"
proof -
  have lay: "layout_ok (As @ R # Bs)" and root: "l_memRoot h = rhead (As @ R # Bs)" using ok by (simp_all add: heap_ok_def)
  note hr = heap_ok_region [OF ok]
  have mj: "maj_prev (major h (rmaj R)) = rtail 0 As" "maj_next (major h (rmaj R)) = rhead Bs"
    "maj_pages (major h (rmaj R)) = of_nat (rsize R div 4096)" "maj_size (major h (rmaj R)) = of_nat (rsize R)"
    using hr(2) by (simp_all add: region_in_def)
  have sz: "(ucast (of_nat (rsize R) :: u32) :: u64) = of_nat (rsize R)"
    using hr(1) by (intro up_of_nat) (simp add: region_ok_def)
  have nz: "rtail 0 As = 0 \<longleftrightarrow> As = []" "As \<noteq> [] \<Longrightarrow> rtail 0 As = rmaj (last As)" "Bs \<noteq> [] \<Longrightarrow> rhead Bs = rmaj (hd Bs)"
    using region_hdr(3) lay by (auto simp: rtail_def rhead_def layout_ok_def split: list.splits)
  have first: "rhead As \<noteq> rmaj R" if "As \<noteq> []"
    using that layout_apart(2) [OF lay, of "hd As" R] by (auto simp: neq_Nil_conv)
  have mv: "set_major p f (k\<lparr>l_memRoot := a\<rparr>) = (set_major p f k)\<lparr>l_memRoot := a\<rparr>"
    "set_major p f (k\<lparr>l_bestBet := a\<rparr>) = (set_major p f k)\<lparr>l_bestBet := a\<rparr>" for p f a and k :: "'a heap"
    by (simp_all add: set_major_def)
  let ?M = "rmaj R"
  let ?root = "if l_memRoot h = ?M then rhead Bs else l_memRoot h" and ?best = "if l_bestBet h = ?M then 0 else l_bestBet h"
  define h1 where "h1 = h\<lparr>l_memRoot := ?root, l_bestBet := ?best\<rparr>"
  define s1 s2 s3 s4 :: "'a heap \<Rightarrow> 'a heap"
    where "s1 = (\<lambda>h. if l_memRoot h = ?M then h\<lparr>l_memRoot := maj_next (major h ?M)\<rparr> else h)"
      and "s2 = (\<lambda>h. if l_bestBet h = ?M then h\<lparr>l_bestBet := 0\<rparr> else h)"
      and "s3 = (\<lambda>h. if maj_prev (major h ?M) \<noteq> 0
        then set_major (maj_prev (major h ?M)) (\<lambda>r. r\<lparr>maj_next := maj_next (major h ?M)\<rparr>) h else h)"
      and "s4 = (\<lambda>h. if maj_next (major h ?M) \<noteq> 0
        then set_major (maj_next (major h ?M)) (\<lambda>r. r\<lparr>maj_prev := maj_prev (major h ?M)\<rparr>) h else h)"
  have "s2 (s1 h) = h1" by (simp add: s1_def s2_def h1_def mj)
  moreover have b: "s3 h1 = link_before As (rhead Bs) h1"
    using nz mj by (auto simp: s3_def link_before_def h1_def)
  have mb: "major (link_before As (rhead Bs) h1) ?M = major h ?M" by (simp add: link_other [OF lay]) (simp add: h1_def)
  have "s4 (link_before As (rhead Bs) h1) = link_after Bs (rtail 0 As) (link_before As (rhead Bs) h1)"
    unfolding s4_def mb mj using nz hr(3) by (auto simp: link_after_def)
  ultimately have st: "s4 (s3 (s2 (s1 h))) = link_after Bs (rtail 0 As) (link_before As (rhead Bs) h1)" using b by simp
  have "release_major hk ?M h = (let h = s4 (s3 (s2 (s1 h))); h = h\<lparr>l_allocated := l_allocated h - ucast (maj_size (major h ?M))\<rparr>
      in bind_o (hk_free hk ?M (maj_pages (major h ?M)) (la_env h)) (\<lambda>s. Done (h\<lparr>la_env := s\<rparr>)))"
    by (simp only: release_major_def Let_def s1_def s2_def s3_def s4_def)
  then have "release_major hk (rmaj R) h = bind_o (hk_free hk (rmaj R) (of_nat (rsize R div 4096)) (la_env h))
      (\<lambda>s. Done ((link_after Bs (rtail 0 As) (link_before As (rhead Bs) h1))\<lparr>l_allocated := l_allocated h - of_nat (rsize R), la_env := s\<rparr>))"
    unfolding st by (simp add: Let_def link_other(2) [OF lay] mb mj sz) (simp add: h1_def)
  moreover have "link_after Bs (rtail 0 As) (link_before As (rhead Bs) h1) =
      (link_after Bs (rtail 0 As) (link_before As (rhead Bs) h))\<lparr>l_memRoot := ?root, l_bestBet := ?best\<rparr>"
    by (simp add: h1_def link_after_def link_before_def mv)
  moreover have "?root = rhead (As @ Bs)" using root first by (cases As) auto
  ultimately show ?thesis by (simp add: dropped_def)
qed

text \<open>A heap without one of its empty regions is a heap again, whatever happens to the pages given back.\<close>

lemma dropped_ok:
  assumes ok: "heap_ok h (As @ R # Bs)" and e: "pieces R = []"
  shows "heap_ok (dropped As R Bs h) (As @ Bs)" "data_kept (set (live (As @ Bs))) h (dropped As R Bs h)"
    "la_env (dropped As R Bs h) = la_env h"
proof -
  have lay: "layout_ok (As @ R # Bs)" and m: "mseg h 0 (As @ R # Bs) 0" using ok by (simp_all add: heap_ok_def)
  then have lay': "layout_ok (As @ Bs)" by (auto simp: layout_ok_def sorted_wrt_append)
  let ?h1 = "link_before As (rhead Bs) h" and ?h = "dropped As R Bs h"
  let ?h2 = "link_after Bs (rtail 0 As) ?h1"
  have "mseg h 0 As (rmaj R)" "mseg h (rmaj R) Bs 0" using m by (cases Bs; simp add: mseg_append)+
  from link_after_mseg [OF lay' link_before_mseg [OF lay' this]]
  have "mseg ?h2 0 As (rhead Bs)" "mseg ?h2 (rtail 0 As) Bs 0" .
  then have "mseg ?h2 0 (As @ Bs) 0" by (cases Bs) (simp_all add: mseg_append)
  then have m': "mseg ?h 0 (As @ Bs) 0" by (subst same_mem(4) [of ?h ?h2]) (simp_all add: dropped_def)
  have "l_memRoot ?h = rhead (As @ Bs)" "l_bestBet ?h = 0 \<or> l_bestBet ?h \<in> rmaj ` set (As @ Bs)"
    "l_inuse ?h = of_nat (sum_list (map psize (live (As @ Bs))))" "l_allocated ?h = of_nat (sum_list (map rsize (As @ Bs)))"
    using ok e by (auto simp: heap_ok_def dropped_def)
  with lay' m' show "heap_ok ?h (As @ Bs)" by (simp add: heap_ok_def)
  have "data_kept (set (live (As @ Bs))) h ?h1" "data_kept (set (live (As @ Bs))) ?h1 ?h2"
    using link_kept [OF lay', of As] link_kept [OF lay', of Bs] by auto
  then have "data_kept (set (live (As @ Bs))) h ?h2" by (rule data_kept_trans)
  then show "data_kept (set (live (As @ Bs))) h ?h" by (rule data_kept_mem) (simp add: dropped_def)
  show "la_env ?h = la_env h" by (simp add: dropped_def)
qed

lemma update_best_ok:
  assumes "heap_ok h Rs" "R \<in> set Rs"
  shows "heap_ok (update_best (rmaj R) h) Rs" "la_mem (update_best (rmaj R) h) = la_mem h"
    "la_env (update_best (rmaj R) h) = la_env h"
  using assms heap_ok_bestBet [OF assms] by (simp_all add: update_best_def Let_def)

lemma same_errors [simp]: "l_errorCount (update_best M h) = l_errorCount h" "l_errorCount (unlink_minor M a h) = l_errorCount h"
  "l_allocated (unlink_minor M a h) = l_allocated h"
  by (simp_all add: update_best_def unlink_minor_def Let_def)

text \<open>A header that has been released, with its alignment byte in place.\<close>

definition dead :: "'s heap \<Rightarrow> u64 \<Rightarrow> bool" where
  "dead h a \<longleftrightarrow> min_magic (minor h a) = LIBALLOC_DEAD \<and> la_mem h (align_at a) = align_byte a"

lemma dead_cong: "la_mem h' = la_mem h \<Longrightarrow> dead h' a = dead h a"
  by (simp add: dead_def minor_def)

context page_hooks
begin

lemma release_good:
  assumes g: "good held owns h (As @ R # Bs)" and e: "pieces R = []"
  shows "\<exists>h'. release_major hk (rmaj R) h = Done h' \<and> good held owns h' (As @ Bs) \<and>
    data_kept (set (live (As @ Bs))) h h' \<and> l_errorCount h' = l_errorCount h \<and> l_allocated h' \<noteq> l_allocated h"
proof -
  have ok: "heap_ok h (As @ R # Bs)" and held: "held (la_env h)" and own: "owned owns (la_env h) (As @ R # Bs)"
    using g by (simp_all add: good_def)
  then have lay: "layout_ok (As @ R # Bs)" by (simp add: heap_ok_def)
  have "4096 dvd rsize R" "rsize R < 2 ^ 24" "0 < rsize R"
    using layout_split(1) [OF lay] region_hdr(1) [OF layout_split(1) [OF lay]] by (auto simp: region_ok_def)
  then have sz: "4096 * unat (of_nat (rsize R div 4096) :: u32) = rsize R"
    and lt: "unat (of_nat (rsize R div 4096) :: u32) < 2 ^ 12" by (simp_all add: unat_of_nat_less)
  have "unat (of_nat (rsize R) :: u64) = rsize R" using \<open>rsize R < 2 ^ 24\<close> by (simp add: unat_of_nat_less)
  then have nz: "(of_nat (rsize R) :: u64) \<noteq> 0" using \<open>0 < rsize R\<close> by auto
  obtain s where s: "hk_free hk (rmaj R) (of_nat (rsize R div 4096)) (la_env h) = Done s" "held s"
    "\<forall>x. owns (la_env h) x \<longrightarrow> inside (rmaj R) (rsize R) x \<or> owns s x"
    using hook_free [OF held lt, of "rmaj R"] unfolding sz by blast
  have "owns s x" if "S \<in> set (As @ Bs)" "inside (rmaj S) (rsize S) x" for S x
  proof -
    have "owns (la_env h) x" using own that by (auto simp: owned_def)
    with s(3) layout_split(3) [OF lay that] show ?thesis by blast
  qed
  then have own': "owned owns s (As @ Bs)" by (simp add: owned_def)
  let ?d = "dropped As R Bs h"
  let ?h = "?d\<lparr>la_env := s\<rparr>"
  note d = dropped_ok [OF ok e]
  have "heap_ok ?h (As @ Bs)" using d(1) by (simp add: heap_ok_def same_mem(4) [of ?h ?d])
  with own' s(2) have "good held owns ?h (As @ Bs)" by (simp add: good_def)
  moreover have "data_kept (set (live (As @ Bs))) h ?h" using d(2) by (rule data_kept_mem) simp
  moreover have "l_allocated ?h \<noteq> l_allocated h" using nz by (simp add: dropped_def)
  ultimately show ?thesis using s(1) by (simp add: release_major_eq [OF ok]) (simp add: dropped_def)
qed

text \<open>
  Releasing a live piece: it is gone, the others and their data are as they were, no error is counted,
  and its header says that it is dead unless its region has been given back.
\<close>

lemma free_spec:
  assumes g: "good idle owns h Rs" and b: "b \<in> set (live Rs)"
  shows "\<exists>h' Rs'. liballoc_free hk (data_ptr (padr b)) h = Done h' \<and> good idle owns h' Rs' \<and>
    set (live Rs') = set (live Rs) - {b} \<and> data_kept (set (live Rs')) h h' \<and> l_errorCount h' = l_errorCount h \<and>
    (l_allocated h' = l_allocated h \<longrightarrow> dead h' (padr b))"
proof -
  obtain R where R: "R \<in> set Rs" "b \<in> set (pieces R)" using b by (auto simp: live_def)
  from split_list [OF R(1)] split_list [OF R(2)] obtain As Bs xs ys
    where Rs: "Rs = As @ R # Bs" and pcs: "pieces R = xs @ b # ys" by blast
  let ?a = "padr b" and ?M = "rmaj R" and ?R = "Region (rmaj R) (rsize R) (xs @ ys)"
  obtain h1 where h1: "liballoc_lock hk h = Done h1" "good held owns h1 Rs" "la_mem h1 = la_mem h"
    and same: "h1 = h\<lparr>la_env := la_env h1\<rparr>" using lock_good [OF g] .
  have err1: "l_errorCount h1 = l_errorCount h" "l_allocated h1 = l_allocated h" by (subst same, simp)+
  have ok: "heap_ok h1 (As @ R # Bs)" using h1(2) Rs by (simp add: good_def)
  note hr = heap_ok_region [OF ok] and ph = piece_hdr [OF heap_ok_region(1) [OF ok] R(2)]
  have pin: "piece_in h1 ?M (tail 0 xs) (head 0 ys) b" using hr(2) pcs by (simp add: region_in_def dseg_append)
  then have mn: "min_magic (minor h1 ?a) = LIBALLOC_MAGIC" "min_block (minor h1 ?a) = ?M"
    and un: "UNALIGN (la_mem h) (data_ptr ?a) = ?a + 40"
    using UNALIGN_eq [OF ph(5)] h1(3) by (simp_all add: piece_in_def)
  have "0 < unat (data_ptr ?a)" using data_ptr_bounds(1) [OF ph(5)] by linarith
  then have nz: "data_ptr ?a \<noteq> 0" by auto
  let ?h2 = "unlink_minor ?M ?a h1"
  note ul = unlink_ok [OF ok pcs]
  have g2: "good held owns ?h2 (As @ ?R # Bs)" using h1(2) ul(1,4) Rs by (simp add: good_def owned_def)
  have lv: "set (live (As @ ?R # Bs)) = set (live Rs) - {b}" using ul(3) Rs by simp
  have dd: "dead ?h2 ?a" using ul(5,6) pin by (simp add: dead_def piece_in_def)
  have mf: "maj_first (major ?h2 ?M) = head 0 (xs @ ys)"
    using heap_ok_region(2) [OF ul(1)] by (simp add: region_in_def)
  have hz: "head 0 (xs @ ys) = 0 \<longleftrightarrow> xs @ ys = []"
    using piece_hdr(6) [OF heap_ok_region(1) [OF ul(1)]] by (cases "xs @ ys") auto
  define k where "k = (if maj_first (major ?h2 ?M) = 0 then release_major hk ?M ?h2 else Done (update_best ?M ?h2))"
  have "\<exists>h3 Rs'. k = Done h3 \<and> good held owns h3 Rs' \<and> set (live Rs') = set (live Rs) - {b} \<and>
      data_kept (set (live Rs')) ?h2 h3 \<and> l_errorCount h3 = l_errorCount h \<and> (l_allocated h3 = l_allocated h \<longrightarrow> dead h3 ?a)"
  proof (cases "xs @ ys = []")
    case True
    then have "pieces ?R = []" by simp
    from release_good [OF g2 this] obtain h3 where r: "release_major hk ?M ?h2 = Done h3" "good held owns h3 (As @ Bs)"
      "data_kept (set (live (As @ Bs))) ?h2 h3" "l_errorCount h3 = l_errorCount ?h2" "l_allocated h3 \<noteq> l_allocated ?h2" by auto
    have "k = Done h3" using r(1) True by (simp add: k_def mf hz)
    moreover have "set (live (As @ Bs)) = set (live Rs) - {b}" using lv True by auto
    ultimately show ?thesis using r(2-5) err1 by auto
  next
    case False
    from update_best_ok [OF ul(1), of ?R] g2 have "good held owns (update_best ?M ?h2) (As @ ?R # Bs)"
      by (simp add: good_def)
    moreover have "k = Done (update_best ?M ?h2)" using False by (simp only: k_def mf hz if_False)
    moreover have "data_kept (set (live (As @ ?R # Bs))) ?h2 (update_best ?M ?h2)"
      using update_best_ok(2) [OF ul(1), of ?R] by (intro data_kept_refl) simp
    moreover have "dead (update_best ?M ?h2) ?a" using dd update_best_ok(2) [OF ul(1), of ?R] dead_cong by fastforce
    ultimately show ?thesis using lv err1 by (intro exI [of _ "update_best ?M ?h2"] exI [of _ "As @ ?R # Bs"]) simp
  qed
  then obtain h3 Rs' where h3: "k = Done h3" "good held owns h3 Rs'" "set (live Rs') = set (live Rs) - {b}"
    "data_kept (set (live Rs')) ?h2 h3" "l_errorCount h3 = l_errorCount h" "l_allocated h3 = l_allocated h \<longrightarrow> dead h3 ?a" by blast
  obtain h4 where h4: "liballoc_unlock hk h3 = Done h4" "good idle owns h4 Rs'" "la_mem h4 = la_mem h3"
    "h4 = h3\<lparr>la_env := la_env h4\<rparr>" using unlock_good [OF h3(2)] .
  have "liballoc_free hk (data_ptr ?a) h = Done h4"
    using nz un h1(1) mn h3(1) h4(1) by (simp add: liballoc_free_def Let_def sizeof_minor_def k_def)
  moreover have "data_kept (set (live Rs')) h ?h2"
    using ul(2) lv h3(3) h1(3) by (simp add: data_kept_def)
  then have "data_kept (set (live Rs')) h h4" using data_kept_trans [OF _ h3(4)] data_kept_mem h4(3) by blast
  moreover have "l_errorCount h4 = l_errorCount h" using h3(5) by (subst h4(4)) simp
  moreover have "l_allocated h4 = l_allocated h \<longrightarrow> dead h4 ?a"
    using h3(6) dead_cong [OF h4(3)] arg_cong [OF h4(4), of l_allocated] by simp
  ultimately show ?thesis using h4(2) h3(3) by blast
qed

text \<open>A pointer to anything but a live header is refused, with one more error on the count.\<close>

lemma bad_magic_good:
  assumes "good mode owns h Rs"
  shows "good mode owns (bad_magic c h) Rs" "la_mem (bad_magic c h) = la_mem h" "l_errorCount (bad_magic c h) = l_errorCount h + 1"
proof -
  show m: "la_mem (bad_magic c h) = la_mem h" "l_errorCount (bad_magic c h) = l_errorCount h + 1" by (simp_all add: bad_magic_def Let_def)
  show "good mode owns (bad_magic c h) Rs"
    using assms same_mem(4) [OF m(1)] by (simp add: good_def heap_ok_def bad_magic_def Let_def)
qed

lemma refused_locked:
  assumes g: "good idle owns h Rs" and h1: "liballoc_lock hk h = Done h1"
    and bad: "min_magic (minor h a) \<noteq> LIBALLOC_MAGIC"
  shows "\<exists>h'. liballoc_unlock hk (bad_magic (min_magic (minor h1 a)) h1) = Done h' \<and> good idle owns h' Rs \<and>
    la_mem h' = la_mem h \<and> l_errorCount h' = l_errorCount h + 1 \<and> min_magic (minor h1 a) \<noteq> LIBALLOC_MAGIC"
proof -
  obtain k where k: "liballoc_lock hk h = Done k" "good held owns k Rs" "la_mem k = la_mem h" "k = h\<lparr>la_env := la_env k\<rparr>"
    using lock_good [OF g] .
  then have *: "h1 = k" using h1 by simp
  let ?b = "bad_magic (min_magic (minor k a)) k"
  note bm = bad_magic_good [OF k(2), of "min_magic (minor k a)"]
  obtain h' where h': "liballoc_unlock hk ?b = Done h'" "good idle owns h' Rs" "la_mem h' = la_mem ?b" "h' = ?b\<lparr>la_env := la_env h'\<rparr>"
    using unlock_good [OF bm(1)] .
  have "l_errorCount h' = l_errorCount ?b" "l_errorCount k = l_errorCount h" by (subst h'(4), simp) (subst k(4), simp)
  with h'(1-3) bm(2,3) k(3) bad same_mem(2) [OF k(3)] show ?thesis unfolding * by simp
qed

lemma free_refused:
  assumes g: "good idle owns h Rs" and p: "p \<noteq> 0"
    and bad: "min_magic (minor h (UNALIGN (la_mem h) p - 40)) \<noteq> LIBALLOC_MAGIC"
  shows "\<exists>h'. liballoc_free hk p h = Done h' \<and> good idle owns h' Rs \<and> la_mem h' = la_mem h \<and>
    l_errorCount h' = l_errorCount h + 1"
proof -
  obtain h1 where h1: "liballoc_lock hk h = Done h1" using lock_good [OF g] by blast
  from refused_locked [OF g h1 bad] p h1 show ?thesis by (auto simp: liballoc_free_def Let_def sizeof_minor_def)
qed

lemma free_dead:
  assumes g: "good idle owns h Rs" and a: "unat a + 72 \<le> 2 ^ 64" and d: "dead h a"
  shows "\<exists>h'. liballoc_free hk (data_ptr a) h = Done h' \<and> good idle owns h' Rs \<and> la_mem h' = la_mem h \<and>
    l_errorCount h' = l_errorCount h + 1"
proof (rule free_refused [OF g])
  have "0 < unat (data_ptr a)" using data_ptr_bounds(1) [OF a] by linarith
  then show "data_ptr a \<noteq> 0" by auto
  have "UNALIGN (la_mem h) (data_ptr a) = a + 40" using UNALIGN_eq [OF a] d by (simp add: dead_def)
  then show "min_magic (minor h (UNALIGN (la_mem h) (data_ptr a) - 40)) \<noteq> LIBALLOC_MAGIC"
    using d by (simp add: dead_def LIBALLOC_DEAD_def LIBALLOC_MAGIC_def)
qed

end

end
