(* ===== verification/Navy_Blocks.thy ===== *)
theory Navy_Blocks
  imports Navy_Free
begin

text \<open>
  The heap as its callers see it: a finite map from pointers to the sizes asked for. Every
  operation of \<^verbatim>\<open>liballoc.c\<close> refines an operation on this map and keeps the bytes of the blocks it
  does not release; writing inside a block is harmless. The copy and fill loops come first.
\<close>

section \<open>Copying and filling\<close>

lemma byte_of_load32: "i < 4 \<Longrightarrow> ucast (drop_bit (8 * i) (load32 m p)) = m (p + of_nat i)"
  by (rule bit_word_eqI) (simp add: bit_simps bit_load32)

lemma word_copy:
  "i < 4 \<Longrightarrow> store32 m d (load32 m s) (d + of_nat i) = m (s + of_nat i)"
  "(\<forall>i<4. x \<noteq> d + of_nat i) \<Longrightarrow> store32 m d (load32 m s) x = m x"
proof -
  show "store32 m d (load32 m s) x = m x" if "\<forall>i<4. x \<noteq> d + of_nat i"
  proof (rule store_outside(1), rule ccontr)
    assume "\<not> 4 \<le> x - d"
    then have "unat (x - d) < 4" by (simp add: word_le_nat_alt)
    with that have "x \<noteq> d + of_nat (unat (x - d))" by blast
    then show False by simp
  qed
qed (simp add: store_inside byte_of_load32)

lemma copy_bytes_loop: "copy_bytes (d + i) (s + i) n m = copy_loop (unat n) m d s i"
proof (induction "unat n" arbitrary: n i m)
  case 0
  then have "n = 0" by (simp add: unat_eq_0)
  then show ?case by (simp add: copy_bytes.simps)
next
  case (Suc k)
  then have n: "n \<noteq> 0" "unat (n - 1) = k" "unat n = Suc k" by (auto simp: unat_sub word_le_nat_alt)
  from Suc.hyps(1) [of "n - 1" "i + 1"] n show ?case
    by (simp add: copy_bytes.simps [of "d + i"] word_gt_0 add.assoc)
qed

text \<open>No byte is written before it is read as a later byte of the source.\<close>

definition forward :: "u64 \<Rightarrow> u64 \<Rightarrow> nat \<Rightarrow> bool" where
  "forward d s n \<longleftrightarrow> (\<forall>l<n. \<forall>j<l. d + of_nat j \<noteq> s + of_nat l)"

lemma forward_four:
  assumes "forward d s n" "4 \<le> n"
  shows "forward (d + 4) (s + 4) (n - 4)" "k < n - 4 \<Longrightarrow> i < 4 \<Longrightarrow> s + 4 + of_nat k \<noteq> d + of_nat i"
proof -
  have "d + of_nat (4 + j) \<noteq> s + of_nat (4 + l)" if "l < n - 4" "j < l" for j l
    using assms that unfolding forward_def by (metis add_less_cancel_left less_diff_conv add.commute)
  then show "forward (d + 4) (s + 4) (n - 4)" by (simp add: forward_def add.assoc)
  assume "k < n - 4" "i < 4"
  then have "4 + k < n" "i < 4 + k" using assms(2) by simp_all
  then have "d + of_nat i \<noteq> s + of_nat (4 + k)" using assms(1) unfolding forward_def by blast
  then show "s + 4 + of_nat k \<noteq> d + of_nat i" by (metis add.assoc of_nat_add of_nat_numeral)
qed

lemma liballoc_memcpy_spec:
  assumes "forward d s (unat n)"
  shows "\<forall>k<unat n. liballoc_memcpy d s n m (d + of_nat k) = m (s + of_nat k)"
    "(\<forall>k<unat n. x \<noteq> d + of_nat k) \<Longrightarrow> liballoc_memcpy d s n m x = m x"
proof -
  have "(\<forall>k<unat n. liballoc_memcpy d s n m (d + of_nat k) = m (s + of_nat k)) \<and>
      (\<forall>x. (\<forall>k<unat n. x \<noteq> d + of_nat k) \<longrightarrow> liballoc_memcpy d s n m x = m x)"
    using assms
  proof (induction d s n m rule: liballoc_memcpy.induct)
    case (1 d s n m)
    show ?case
    proof (cases "4 \<le> n")
      case False
      have c: "liballoc_memcpy d s n m = copy_loop (unat n) m d s 0"
        using False copy_bytes_loop [of d 0 s n m] by (simp add: liballoc_memcpy.simps [of d])
      have "copy_loop (unat n) m d s 0 (d + of_nat k) = m (s + of_nat k)" if "k < unat n" for k
        using copy_loop_copies [of k "unat n" d 0 s m] that "1.prems" unat_less_bound [of n] by (simp add: forward_def)
      then show ?thesis using copy_loop_other [of "unat n" _ d 0 m s] by (simp add: c)
    next
      case True
      let ?m = "store32 m d (load32 m s)"
      have n: "unat (n - 4) = unat n - 4" "4 \<le> unat n" "unat n < 2 ^ 64"
        using True unat_less_bound [of n] by (simp_all add: unat_sub word_le_nat_alt)
      note fw = forward_four [OF "1.prems" n(2)]
      have rec: "liballoc_memcpy d s n m = liballoc_memcpy (d + 4) (s + 4) (n - 4) ?m"
        using True by (simp add: liballoc_memcpy.simps [of d])
      from "1.IH" [OF True] fw(1) n(1) have
        copy: "liballoc_memcpy d s n m (d + 4 + of_nat k) = ?m (s + 4 + of_nat k)" if "k < unat n - 4" for k
        using that by (simp add: rec)
      from "1.IH" [OF True] fw(1) n(1) have
        rest: "liballoc_memcpy d s n m x = ?m x" if "\<forall>k<unat n - 4. x \<noteq> d + 4 + of_nat k" for x
        using that by (simp add: rec)
      have "liballoc_memcpy d s n m (d + of_nat k) = m (s + of_nat k)" if "k < unat n" for k
      proof (cases "k < 4")
        case True
        have "d + of_nat k \<noteq> d + of_nat (4 + j)" if "j < unat n - 4" for j
          using u64_offset_inj [of k "4 + j" d] True that n(3) by simp
        then show ?thesis using rest [of "d + of_nat k"] word_copy(1) [OF True] by (simp add: add.assoc)
      next
        case False
        then obtain j where j: "k = 4 + j" using le_Suc_ex not_less by blast
        then have "j < unat n - 4" using that by simp
        from copy [OF this] word_copy(2) [of "s + 4 + of_nat j" d m s] fw(2) [OF this] show ?thesis
          by (simp add: j add.assoc)
      qed
      moreover have "liballoc_memcpy d s n m x = m x" if x: "\<forall>k<unat n. x \<noteq> d + of_nat k" for x
      proof -
        have "x \<noteq> d + of_nat (4 + k)" if "k < unat n - 4" for k
          using spec [OF x, of "4 + k"] that by linarith
        with rest [of x] have "liballoc_memcpy d s n m x = ?m x" by (simp add: add.assoc)
        with word_copy(2) [of x d m s] x n(2) show ?thesis by simp
      qed
      ultimately show ?thesis by blast
    qed
  qed
  then show "\<forall>k<unat n. liballoc_memcpy d s n m (d + of_nat k) = m (s + of_nat k)"
    "(\<forall>k<unat n. x \<noteq> d + of_nat k) \<Longrightarrow> liballoc_memcpy d s n m x = m x" by blast+
qed

lemma copy_loop_forward:
  assumes "forward d s (unat n)"
  shows "copy_loop (unat n) m d s 0 = liballoc_memcpy d s n m"
proof
  fix x
  show "copy_loop (unat n) m d s 0 x = liballoc_memcpy d s n m x"
  proof (cases "\<exists>k<unat n. x = d + of_nat k")
    case True
    then obtain k where k: "k < unat n" "x = d + of_nat k" by blast
    with copy_loop_copies [of k "unat n" d 0 s m] assms unat_less_bound [of n] liballoc_memcpy_spec(1) [OF assms, of m]
    show ?thesis by (simp add: forward_def)
  next
    case False
    then show ?thesis using copy_loop_other [of "unat n" x d 0 m s] liballoc_memcpy_spec(2) [OF assms, of x m] by auto
  qed
qed

text \<open>Filling with a 32-bit index is the byte loop of \<^verbatim>\<open>memset\<close> for every size below 4 GiB.\<close>

lemma unat_up_u32: "unat (ucast (i :: u32) :: u64) = unat i"
  using unat_up [of "unat i"] unat_less_bound [of i] by simp

lemma scast_ucast_small:
  assumes "unat (x :: u64) < 2 ^ 31"
  shows "scast (ucast x :: u32) = x"
proof (rule bit_word_eqI)
  fix n
  assume "n < LENGTH(64)"
  have "take_bit 31 x = x" using assms by (simp add: take_bit_eq_mod word_unat_eq_iff unat_mod)
  then have hi: "\<not> bit x k" if "31 \<le> k" for k using that by (metis bit_take_bit_iff leD)
  show "bit (scast (ucast x :: u32) :: u64) n = bit x n"
    using \<open>n < LENGTH(64)\<close> hi [of 31] hi [of n] by (cases "n < 31") (simp_all add: bit_simps min_def)
qed

lemma memset_from_loop:
  assumes "unat n < 2 ^ 32" "unat i \<le> unat n"
  shows "memset_from s c n i m = Some (memset_loop c (unat n - unat i) m (s + ucast i))"
  using assms(2)
proof (induction "unat n - unat i" arbitrary: i m)
  case 0
  then have "\<not> (ucast i :: u64) < n" by (simp add: word_less_nat_alt unat_up_u32)
  with 0 show ?case by (simp add: memset_from.simps)
next
  case (Suc k)
  then have lt: "(ucast i :: u64) < n" and i: "unat (i + 1) = unat i + 1"
    using assms(1) by (simp_all add: word_less_nat_alt unat_up_u32 unat_add_less)
  have "(ucast (i + 1) :: u64) = ucast i + 1"
    using i assms(1) Suc by (intro word_unat_eq_iff [THEN iffD2]) (simp add: unat_up_u32 unat_add_less)
  moreover have "unat n - unat i = Suc (unat n - unat (i + 1))" using Suc i by simp
  ultimately show ?case
    using Suc.hyps(1) [of "i + 1" "m(s + ucast i := c)"] Suc.hyps(2) Suc.prems i lt
    by (subst memset_from.simps) (simp add: add.assoc)
qed

lemma liballoc_memset_loop: "unat n < 2 ^ 32 \<Longrightarrow> liballoc_memset s c n m = Some (memset_loop c (unat n) m s)"
  using memset_from_loop [of n 0 s c m] by (simp add: liballoc_memset_def)

section \<open>Blocks\<close>

text \<open>The sizes the callers asked for, by the pointers they got.\<close>

definition blocks :: "region list \<Rightarrow> u64 \<Rightarrow> nat option" where
  "blocks Rs = map_of (map (\<lambda>b. (data_ptr (padr b), preq b)) (live Rs))"

lemma live_bounds:
  assumes "layout_ok Rs" "b \<in> set (live Rs)"
  shows "unat (padr b) + 56 \<le> unat (data_ptr (padr b))" "unat (data_ptr (padr b)) + preq b \<le> unat (padr b) + 40 + psize b"
    "unat (padr b) + 40 + psize b < 2 ^ 64" "unat (padr b) + 72 \<le> 2 ^ 64" "unat (data_ptr (padr b)) mod 16 = 0"
    "unat (data_ptr (padr b)) < unat (padr b) + 40 + psize b" "preq b + 32 \<le> psize b" "psize b < 2 ^ 24"
proof -
  obtain R where R: "b \<in> set (pieces R)" "region_ok R" using assms by (rule live_region)
  note ph = piece_hdr [OF R(2,1)]
  have sz: "unat (rmaj R) + rsize R < 2 ^ 64" "rsize R < 2 ^ 24" using R(2) by (simp_all add: region_ok_def)
  show po: "preq b + 32 \<le> psize b" using ph(3) by (simp add: piece_ok_def)
  show lt: "unat (padr b) + 40 + psize b < 2 ^ 64" "psize b < 2 ^ 24" using ph(1,2) sz by linarith+
  show "unat (padr b) + 72 \<le> 2 ^ 64" by (rule ph(5))
  from data_ptr_bounds [OF ph(5)] po
  show "unat (padr b) + 56 \<le> unat (data_ptr (padr b))" "unat (data_ptr (padr b)) + preq b \<le> unat (padr b) + 40 + psize b"
    "unat (data_ptr (padr b)) mod 16 = 0" "unat (data_ptr (padr b)) < unat (padr b) + 40 + psize b" by linarith+
qed

lemma live_inj:
  assumes "layout_ok Rs" "b \<in> set (live Rs)" "c \<in> set (live Rs)" "data_ptr (padr b) = data_ptr (padr c)"
  shows "b = c"
proof (rule ccontr)
  assume "b \<noteq> c"
  with live_disjoint [OF assms(1-3)] live_bounds [OF assms(1,2)] live_bounds [OF assms(1,3)] assms(4)
  show False by auto
qed

lemma blocks_iff:
  assumes "layout_ok Rs"
  shows "blocks Rs p = Some n \<longleftrightarrow> (\<exists>b\<in>set (live Rs). data_ptr (padr b) = p \<and> preq b = n)"
proof
  assume "blocks Rs p = Some n"
  then show "\<exists>b\<in>set (live Rs). data_ptr (padr b) = p \<and> preq b = n" by (auto simp: blocks_def dest!: map_of_SomeD)
next
  assume "\<exists>b\<in>set (live Rs). data_ptr (padr b) = p \<and> preq b = n"
  then obtain b where b: "b \<in> set (live Rs)" "data_ptr (padr b) = p" "preq b = n" by blast
  then have "blocks Rs p \<noteq> None" by (auto simp: blocks_def map_of_eq_None_iff image_image)
  then obtain m where m: "map_of (map (\<lambda>b. (data_ptr (padr b), preq b)) (live Rs)) p = Some m" by (auto simp: blocks_def)
  from map_of_SomeD [OF this] obtain c where "c \<in> set (live Rs)" "data_ptr (padr c) = p" "preq c = m" by auto
  with live_inj [OF assms b(1), of c] b m show "blocks Rs p = Some n" by (simp add: blocks_def)
qed

lemma map_eqI: "(\<And>p n. f p = Some n \<longleftrightarrow> g p = Some n) \<Longrightarrow> f = g"
  by (rule ext) (metis not_Some_eq)

lemma blocks_insert:
  assumes "layout_ok Rs" "layout_ok Rs'" "set (live Rs') = insert b (set (live Rs))" "b \<notin> set (live Rs)"
  shows "blocks Rs' = (blocks Rs)(data_ptr (padr b) \<mapsto> preq b)" "blocks Rs (data_ptr (padr b)) = None"
proof -
  have b: "b \<in> set (live Rs')" using assms(3) by simp
  have new: "data_ptr (padr c) \<noteq> data_ptr (padr b)" if "c \<in> set (live Rs)" for c
    using live_inj [OF assms(2) b, of c] that assms(3,4) by auto
  have "data_ptr (padr b) \<notin> (\<lambda>c. data_ptr (padr c)) ` set (live Rs)" using new by (metis image_iff)
  then show "blocks Rs (data_ptr (padr b)) = None" by (simp add: blocks_def map_of_eq_None_iff image_image)
  show "blocks Rs' = (blocks Rs)(data_ptr (padr b) \<mapsto> preq b)"
  proof (rule map_eqI)
    fix p n
    show "blocks Rs' p = Some n \<longleftrightarrow> ((blocks Rs)(data_ptr (padr b) \<mapsto> preq b)) p = Some n"
      using assms(3) new by (cases "p = data_ptr (padr b)") (auto simp: blocks_iff [OF assms(1)] blocks_iff [OF assms(2)])
  qed
qed

lemma blocks_remove:
  assumes "layout_ok Rs" "layout_ok Rs'" "set (live Rs') = set (live Rs) - {b}" "b \<in> set (live Rs)"
  shows "blocks Rs' = (blocks Rs)(data_ptr (padr b) := None)"
  using assms(3,4) live_inj [OF assms(1)]
  by (intro map_eqI) (auto simp: blocks_iff [OF assms(1)] blocks_iff [OF assms(2)])

lemma blocks_same:
  assumes "layout_ok Rs" "layout_ok Rs'" "set (live Rs') = set (live Rs)"
  shows "blocks Rs' = blocks Rs"
  using assms(3) by (intro map_eqI) (simp add: blocks_iff [OF assms(1)] blocks_iff [OF assms(2)])

text \<open>A heap whose callers own the blocks \<open>B\<close>, and the bytes of these blocks.\<close>

definition heap_rep :: "('s \<Rightarrow> bool) \<Rightarrow> ('s \<Rightarrow> u64 \<Rightarrow> bool) \<Rightarrow> 's heap \<Rightarrow> (u64 \<Rightarrow> nat option) \<Rightarrow> bool" where
  "heap_rep mode owns h B \<longleftrightarrow> (\<exists>Rs. good mode owns h Rs \<and> blocks Rs = B)"

definition bytes_kept :: "(u64 \<Rightarrow> nat option) \<Rightarrow> 's heap \<Rightarrow> 's heap \<Rightarrow> bool" where
  "bytes_kept B h h' \<longleftrightarrow> (\<forall>p n i. B p = Some n \<and> i < n \<longrightarrow> la_mem h' (p + of_nat i) = la_mem h (p + of_nat i))"

lemma good_layout: "good mode owns h Rs \<Longrightarrow> layout_ok Rs"
  by (simp add: good_def heap_ok_def)

lemma unat_data:
  assumes "layout_ok Rs" "b \<in> set (live Rs)" "i < preq b"
  shows "unat (data_ptr (padr b) + of_nat i) = unat (data_ptr (padr b)) + i"
  using live_bounds [OF assms(1,2)] assms(3) by (subst unat_add_less) (simp_all add: unat_of_nat_less)

lemma bytes_keptI:
  assumes "layout_ok Rs" "data_kept (set (live Rs)) h h'"
  shows "bytes_kept (blocks Rs) h h'"
  unfolding bytes_kept_def
proof (intro allI impI, elim conjE)
  fix p n i
  assume "blocks Rs p = Some n" "i < n"
  then obtain b where b: "b \<in> set (live Rs)" "data_ptr (padr b) = p" "preq b = n" by (auto simp: blocks_iff [OF assms(1)])
  have "in_data b (p + of_nat i)"
    using unat_data [OF assms(1) b(1), of i] live_bounds [OF assms(1) b(1)] b(2,3) \<open>i < n\<close> by (simp add: in_data_def)
  with assms(2) b(1) show "la_mem h' (p + of_nat i) = la_mem h (p + of_nat i)" by (simp add: data_kept_def)
qed

lemma bytes_kept_refl [simp]: "la_mem h' = la_mem h \<Longrightarrow> bytes_kept B h h'"
  by (simp add: bytes_kept_def)

lemma bytes_kept_trans [trans]: "bytes_kept B h h1 \<Longrightarrow> bytes_kept B h1 h2 \<Longrightarrow> bytes_kept B h h2"
  unfolding bytes_kept_def by metis

lemma bytes_kept_mono: "bytes_kept B h h' \<Longrightarrow> C \<subseteq>\<^sub>m B \<Longrightarrow> bytes_kept C h h'"
  unfolding bytes_kept_def map_le_def by (metis domI)

text \<open>Blocks do not meet, are aligned, and lie in pages of the page source.\<close>

lemma rep_apart:
  assumes "heap_rep mode owns h B" "B p = Some n" "B q = Some m" "p \<noteq> q"
  shows "unat p + n \<le> unat q \<or> unat q + m \<le> unat p"
proof -
  obtain Rs where Rs: "layout_ok Rs" "blocks Rs = B"
    using assms(1) unfolding heap_rep_def by (blast dest: good_layout)
  from assms(2,3) Rs(2) obtain b c where b: "b \<in> set (live Rs)" "data_ptr (padr b) = p" "preq b = n"
    and c: "c \<in> set (live Rs)" "data_ptr (padr c) = q" "preq c = m" by (auto simp: blocks_iff [OF Rs(1)])
  then have "b \<noteq> c" using assms(4) by auto
  with live_disjoint [OF Rs(1) b(1) c(1)] live_bounds [OF Rs(1) b(1)] live_bounds [OF Rs(1) c(1)] b c
  show ?thesis by auto
qed

lemma rep_block:
  assumes "heap_rep mode owns h B" "B p = Some n"
  shows "p \<noteq> 0" "unat p mod 16 = 0" "unat p + n < 2 ^ 64" "n < 2 ^ 24" "i < n \<Longrightarrow> owns (la_env h) (p + of_nat i)"
proof -
  obtain Rs where g: "good mode owns h Rs" "blocks Rs = B" using assms(1) by (auto simp: heap_rep_def)
  note lay = good_layout [OF g(1)]
  from assms(2) g(2) obtain b where b: "b \<in> set (live Rs)" "data_ptr (padr b) = p" "preq b = n" by (auto simp: blocks_iff [OF lay])
  note lb = live_bounds [OF lay b(1), unfolded b(2,3)]
  have "0 < unat p" using lb(1) by linarith
  then show "p \<noteq> 0" by auto
  show "unat p mod 16 = 0" "unat p + n < 2 ^ 64" "n < 2 ^ 24" using lb by linarith+
  assume i: "i < n"
  obtain R where R: "R \<in> set Rs" "unat (rmaj R) + 40 \<le> unat (padr b)" "unat (padr b) + 40 + psize b \<le> unat (rmaj R) + rsize R"
    using lay b(1) by (rule live_region)
  then have "inside (rmaj R) (rsize R) (p + of_nat i)"
    using unat_data [OF lay b(1), of i] i b lb(1,2) by (simp add: inside_def)
  then show "owns (la_env h) (p + of_nat i)" using g(1) R(1) by (auto simp: good_def owned_def)
qed

section \<open>Writing inside a block\<close>

lemma mseg_write:
  assumes lay: "layout_ok Rs" and b: "b \<in> set (live Rs)"
    and out: "\<And>x. \<not> inside (data_ptr (padr b)) (preq b) x \<Longrightarrow> la_mem h' x = la_mem h x"
  shows "mseg h' p Rs q = mseg h p Rs q"
proof (rule mseg_cong)
  fix R p q
  assume R: "R \<in> set Rs"
  then have ok: "region_ok R" using lay by (simp add: layout_ok_def)
  note lb = live_bounds [OF lay b]
  obtain S where S: "S \<in> set Rs" "unat (rmaj S) + 40 \<le> unat (padr b)" "unat (padr b) + 40 + psize b \<le> unat (rmaj S) + rsize S"
    using lay b by (rule live_region)
  have "S = R \<or> regions_apart R S \<or> regions_apart S R"
    using sorted_wrt_cases [of regions_apart Rs R S] R S(1) lay by (simp add: layout_ok_def)
  then have "\<not> inside (data_ptr (padr b)) (preq b) x" if "inside (rmaj R) 40 x" for x
    using that S(2,3) lb(1,2) region_hdr(1) [OF ok] by (auto simp: inside_def regions_apart_def)
  then have "major h' (rmaj R) = major h (rmaj R)" using region_hdr(2) [OF ok] out by (intro header_cong) auto
  moreover have "dseg h' (rmaj R) 0 (pieces R) 0 = dseg h (rmaj R) 0 (pieces R) 0"
  proof (rule dseg_cong, rule piece_in_cong)
    fix c x
    assume c: "c \<in> set (pieces R)" and x: "inside (padr c) 56 x"
    then have lc: "c \<in> set (live Rs)" using R by (auto simp: live_def)
    show "la_mem h' x = la_mem h x"
    proof (rule out, cases "c = b")
      case False
      then show "\<not> inside (data_ptr (padr b)) (preq b) x"
        using live_disjoint [OF lay lc b] x lb(1,2) live_bounds(7) [OF lay lc] by (auto simp: inside_def)
    qed (use x lb(1) in \<open>auto simp: inside_def\<close>)
  qed (use piece_hdr(5) [OF ok] in blast)
  ultimately show "region_in h' p q R = region_in h p q R" by (simp add: region_in_def)
qed

lemma rep_write:
  assumes "heap_rep mode owns h B" "B p = Some n" "\<And>x. \<not> inside p n x \<Longrightarrow> m x = la_mem h x"
  shows "heap_rep mode owns (h\<lparr>la_mem := m\<rparr>) B"
proof -
  obtain Rs where g: "good mode owns h Rs" "blocks Rs = B" using assms(1) by (auto simp: heap_rep_def)
  note lay = good_layout [OF g(1)]
  from assms(2) g(2) obtain b where b: "b \<in> set (live Rs)" "data_ptr (padr b) = p" "preq b = n" by (auto simp: blocks_iff [OF lay])
  have "mseg (h\<lparr>la_mem := m\<rparr>) 0 Rs 0 = mseg h 0 Rs 0"
    using assms(3) b by (intro mseg_write [OF lay b(1)]) simp
  then have "good mode owns (h\<lparr>la_mem := m\<rparr>) Rs" using g(1) by (simp add: good_def heap_ok_def)
  with g(2) show ?thesis by (auto simp: heap_rep_def)
qed

lemma rep_offset:
  "heap_rep mode owns h B \<Longrightarrow> B p = Some n \<Longrightarrow> i < n \<Longrightarrow> unat (p + of_nat i) = unat p + i"
  using rep_block(3) [of mode owns h B p n] by (subst unat_add_less) (simp_all add: unat_of_nat_less)

text \<open>A write inside one block keeps the bytes of all others.\<close>

lemma bytes_kept_write:
  assumes r: "heap_rep mode owns h B" and p: "B p = Some n" and m: "\<And>x. \<not> inside p n x \<Longrightarrow> m x = la_mem h x"
  shows "bytes_kept (B(p := None)) h (h\<lparr>la_mem := m\<rparr>)"
  unfolding bytes_kept_def
proof (intro allI impI, elim conjE)
  fix q k i
  assume "(B(p := None)) q = Some k" "i < k"
  then have q: "B q = Some k" "q \<noteq> p" by (auto split: if_splits)
  have "\<not> inside p n (q + of_nat i)"
    using rep_apart [OF r q(1) p q(2)] rep_offset [OF r q(1) \<open>i < k\<close>] \<open>i < k\<close> by (auto simp: inside_def)
  from m [OF this] show "la_mem (h\<lparr>la_mem := m\<rparr>) (q + of_nat i) = la_mem h (q + of_nat i)" by simp
qed

lemma rep_fill:
  fixes c :: u8
  assumes r: "heap_rep mode owns h B" and p: "B p = Some n"
  defines "h' \<equiv> h\<lparr>la_mem := memset_loop c n (la_mem h) p\<rparr>"
  shows "heap_rep mode owns h' B" "bytes_kept (B(p := None)) h h'" "\<forall>i<n. la_mem h' (p + of_nat i) = c"
proof -
  have n: "n \<le> 2 ^ 64" using rep_block(4) [OF r p] by simp
  have out: "memset_loop c n (la_mem h) p x = la_mem h x" if "\<not> inside p n x" for x
    using that rep_offset [OF r p] by (intro memset_loop_other) (auto simp: inside_def)
  show "heap_rep mode owns h' B" unfolding h'_def by (rule rep_write [OF r p out])
  show "bytes_kept (B(p := None)) h h'" unfolding h'_def by (rule bytes_kept_write [OF r p out])
  show "\<forall>i<n. la_mem h' (p + of_nat i) = c" using memset_loop_in [of _ n c "la_mem h" p] n by (simp add: h'_def)
qed

section \<open>Shrinking a block\<close>

lemma live_minor:
  assumes g: "good mode owns h Rs" and b: "b \<in> set (live Rs)"
  shows "UNALIGN (la_mem h) (data_ptr (padr b)) - sizeof_minor = padr b" "min_magic (minor h (padr b)) = LIBALLOC_MAGIC"
    "unat (ucast (min_req_size (minor h (padr b))) :: u64) = preq b"
proof -
  obtain R where R: "R \<in> set Rs" "b \<in> set (pieces R)" using b by (auto simp: live_def)
  from split_list [OF R(1)] split_list [OF R(2)] obtain As Bs xs ys
    where Rs: "Rs = As @ R # Bs" and pcs: "pieces R = xs @ b # ys" by blast
  then have "heap_ok h (As @ R # Bs)" using g by (simp add: good_def)
  from heap_ok_region(2) [OF this] pcs have pin: "piece_in h (rmaj R) (tail 0 xs) (head 0 ys) b"
    by (simp add: region_in_def dseg_append)
  note lb = live_bounds [OF good_layout [OF g] b]
  have "preq b < 2 ^ 32" using lb(7,8) by simp
  with pin lb(4) UNALIGN_eq show "UNALIGN (la_mem h) (data_ptr (padr b)) - sizeof_minor = padr b"
    "min_magic (minor h (padr b)) = LIBALLOC_MAGIC" "unat (ucast (min_req_size (minor h (padr b))) :: u64) = preq b"
    by (auto simp: piece_in_def sizeof_minor_def unat_up)
qed

lemma set_req_ok:
  assumes ok: "heap_ok h (As @ R # Bs)" and pcs: "pieces R = xs @ b # ys" and k: "k \<le> preq b"
  defines "h' \<equiv> set_minor (padr b) (\<lambda>r. r\<lparr>min_req_size := of_nat k\<rparr>) h" and "b' \<equiv> Piece (padr b) (psize b) k"
  defines "R' \<equiv> Region (rmaj R) (rsize R) (xs @ b' # ys)"
  shows "heap_ok h' (As @ R' # Bs)"
proof -
  have lay: "layout_ok (As @ R # Bs)" and m: "mseg h 0 (As @ R # Bs) 0" using ok by (simp_all add: heap_ok_def)
  note hr = heap_ok_region [OF ok]
  have b: "b \<in> set (pieces R)" using pcs by simp
  note ph = piece_hdr [OF hr(1) b]
  have out: "la_mem h' x = la_mem h x" if "\<not> inside (padr b) 40 x" for x
    unfolding h'_def by (rule set_minor_outside [OF ph(4) that])
  have g: "gap (Region (rmaj R) (rsize R) (xs @ ys)) xs b ys" using gap_removed [OF hr(1) pcs] .
  note gd = gapD [OF g] and ap = gap_apart [OF g]
  have po: "32 \<le> psize b" using ph(3) by (simp add: piece_ok_def)
  have other: "piece_in h' M p q c = piece_in h M p q c" if "c \<in> set (xs @ ys)" for M p q c
  proof (rule piece_in_cong)
    have c: "c \<in> set (pieces R)" using that pcs by auto
    show "unat (padr c) + 72 \<le> 2 ^ 64" using piece_hdr(5) [OF hr(1) c] .
    have "32 \<le> psize c" using piece_hdr(3) [OF hr(1) c] by (simp add: piece_ok_def)
    then show "la_mem h' x = la_mem h x" if "inside (padr c) 56 x" for x
      using that gd(3,4) [of c] \<open>c \<in> set (xs @ ys)\<close> po by (intro out) (auto simp: inside_def)
  qed
  have pin: "piece_in h (rmaj R) (tail 0 xs) (head 0 ys) b" using hr(2) pcs by (simp add: region_in_def dseg_append)
  have "la_mem h' (align_at (padr b)) = la_mem h (align_at (padr b))"
    using align_at_bounds [OF ph(5)] by (intro out) (simp add: inside_def)
  with pin have own: "piece_in h' (rmaj R) (tail 0 xs) (head 0 ys) b'" by (simp add: piece_in_def h'_def b'_def)
  have "dseg h' M p zs q = dseg h M p zs q" if "set zs \<subseteq> set (xs @ ys)" for M p zs q
    using that by (intro dseg_cong other) auto
  with hr(2) own pcs have "dseg h' (rmaj R) 0 (xs @ b' # ys) 0" by (simp add: region_in_def dseg_append b'_def)
  moreover have "major h' (rmaj R) = major h (rmaj R)" using ap(2) by (simp add: h'_def)
  moreover have "head 0 (xs @ b' # ys) = head 0 (xs @ b # ys)" by (simp add: b'_def)
  ultimately have "region_in h' (rtail 0 As) (rhead Bs) R'" using hr(2) pcs by (simp add: region_in_def R'_def b'_def)
  moreover have "la_mem h' x = la_mem h x" if "\<not> inside (rmaj R) (rsize R) x" for x
    using that ph(1,2) by (intro out) (auto simp: inside_def)
  ultimately have ms: "mseg h' 0 (As @ R' # Bs) 0" by (intro mseg_replace [OF lay m]) (simp_all add: R'_def)
  have "region_ok R'"
    using hr(1) pcs k by (auto simp: region_ok_def R'_def b'_def fits_append piece_ok_def)
  then have "layout_ok (As @ R' # Bs)"
    using lay by (auto simp: layout_ok_def sorted_wrt_append R'_def regions_apart_def)
  with ms ok pcs show ?thesis by (auto simp: heap_ok_def R'_def b'_def h'_def)
qed

lemma rep_shrink:
  assumes g: "good mode owns h Rs" and b: "b \<in> set (live Rs)" and k: "k \<le> preq b"
  defines "h' \<equiv> set_minor (padr b) (\<lambda>r. r\<lparr>min_req_size := of_nat k\<rparr>) h"
  shows "heap_rep mode owns h' ((blocks Rs)(data_ptr (padr b) \<mapsto> k))" "bytes_kept (blocks Rs) h h'"
proof -
  note lay = good_layout [OF g]
  obtain R where R: "R \<in> set Rs" "b \<in> set (pieces R)" using b by (auto simp: live_def)
  from split_list [OF R(1)] split_list [OF R(2)] obtain As Bs xs ys
    where Rs: "Rs = As @ R # Bs" and pcs: "pieces R = xs @ b # ys" by blast
  let ?b = "Piece (padr b) (psize b) k"
  let ?Rs = "As @ Region (rmaj R) (rsize R) (xs @ ?b # ys) # Bs"
  have "heap_ok h' ?Rs" unfolding h'_def using g Rs pcs k by (intro set_req_ok) (simp_all add: good_def)
  then have g': "good mode owns h' ?Rs" using g Rs by (auto simp: good_def owned_def h'_def)
  let ?S = "Region (rmaj R) (rsize R) (xs @ ys)"
  have ok: "region_ok R" using lay Rs by (simp add: layout_ok_def)
  have g0: "gap ?S xs b ys" using gap_removed [OF ok pcs] .
  have "layout_ok (As @ ?S # Bs)" using lay g0 Rs by (auto simp: layout_ok_def sorted_wrt_append regions_apart_def gap_def)
  from gap_not_live [OF this g0] have L: "set (live ?Rs) = insert ?b (set (live Rs) - {b})" using pcs Rs by auto
  note lay' = good_layout [OF g']
  have "blocks ?Rs = (blocks Rs)(data_ptr (padr b) \<mapsto> k)"
  proof (rule map_eqI)
    fix q n
    have "q = data_ptr (padr c) \<Longrightarrow> q = data_ptr (padr b) \<Longrightarrow> c \<in> set (live Rs) \<Longrightarrow> c = b" for c
      using live_inj [OF lay _ b] by simp
    then show "blocks ?Rs q = Some n \<longleftrightarrow> ((blocks Rs)(data_ptr (padr b) \<mapsto> k)) q = Some n"
      unfolding blocks_iff [OF lay'] L by (cases "q = data_ptr (padr b)") (auto simp: blocks_iff [OF lay])
  qed
  with g' show "heap_rep mode owns h' ((blocks Rs)(data_ptr (padr b) \<mapsto> k))" by (auto simp: heap_rep_def)
  have "data_kept (set (live Rs)) h h'"
    unfolding data_kept_def
  proof (intro ballI allI impI)
    fix c x
    assume c: "c \<in> set (live Rs)" and x: "in_data c x"
    have "\<not> inside (padr b) 40 x"
      using live_disjoint [OF lay c b] x live_bounds(7) [OF lay b]
      by (cases "c = b") (auto simp: in_data_def inside_def)
    then show "la_mem h' x = la_mem h x"
      using live_bounds(4) [OF lay b] unfolding h'_def by (intro set_minor_outside) (simp_all add: hdr_def)
  qed
  then show "bytes_kept (blocks Rs) h h'" by (rule bytes_keptI [OF lay])
qed

section \<open>The operations on blocks\<close>

context page_hooks
begin

lemma malloc_rep:
  assumes r: "heap_rep idle owns h B" and n: "unat n < 2 ^ 24 - 8224"
  shows "(\<exists>p h'. liballoc_malloc hk n h = Done (p, h') \<and> bytes_kept B h h' \<and>
      (if p = 0 then null_source hk held \<and> heap_rep idle owns h' B
       else B p = None \<and> heap_rep idle owns h' (B(p \<mapsto> unat n)))) \<or>
    (\<exists>s. hk_lock hk (la_env h) = Done s \<and> no_pages hk (n + 32) s \<and> (\<forall>r. liballoc_malloc hk n h \<noteq> Done r))"
proof -
  obtain Rs where g: "good idle owns h Rs" and B: "blocks Rs = B" using r by (auto simp: heap_rep_def)
  note lay = good_layout [OF g]
  from liballoc_malloc_spec [OF g n] show ?thesis
  proof (elim disjE exE conjE)
    fix p h'
    assume m: "liballoc_malloc hk n h = Done (p, h')" and "alloc_post (null_source hk held) idle owns n (n + 32) Rs h p h'"
    then obtain Rs' where g': "good idle owns h' Rs'" and k: "data_kept (set (live Rs)) h h'"
      and c: "if p = 0 then null_source hk held \<and> set (live Rs') = set (live Rs)
        else \<exists>a. p = data_ptr a \<and> new_piece a (n + 32) n \<notin> set (live Rs) \<and>
          set (live Rs') = insert (new_piece a (n + 32) n) (set (live Rs))" by (auto simp: alloc_post_def)
    note lay' = good_layout [OF g'] and bk = bytes_keptI [OF lay k, unfolded B]
    have "if p = 0 then null_source hk held \<and> heap_rep idle owns h' B else B p = None \<and> heap_rep idle owns h' (B(p \<mapsto> unat n))"
    proof (cases "p = 0")
      case True
      with c g' blocks_same [OF lay lay'] B show ?thesis by (auto simp: heap_rep_def)
    next
      case False
      with c obtain a where a: "p = data_ptr a" "new_piece a (n + 32) n \<notin> set (live Rs)"
        "set (live Rs') = insert (new_piece a (n + 32) n) (set (live Rs))" by auto
      from blocks_insert [OF lay lay' a(3,2)] a(1) False g' B show ?thesis by (auto simp: heap_rep_def)
    qed
    with m bk show ?thesis by blast
  qed blast
qed

lemma free_rep:
  assumes r: "heap_rep idle owns h B" and p: "B p = Some n"
  shows "\<exists>h'. liballoc_free hk p h = Done h' \<and> heap_rep idle owns h' (B(p := None)) \<and> bytes_kept (B(p := None)) h h' \<and>
    l_errorCount h' = l_errorCount h \<and>
    (l_allocated h' = l_allocated h \<longrightarrow> (\<exists>h''. liballoc_free hk p h' = Done h'' \<and> heap_rep idle owns h'' (B(p := None)) \<and>
       la_mem h'' = la_mem h' \<and> l_errorCount h'' = l_errorCount h' + 1))"
proof -
  obtain Rs where g: "good idle owns h Rs" and B: "blocks Rs = B" using r by (auto simp: heap_rep_def)
  note lay = good_layout [OF g]
  from p B obtain b where b: "b \<in> set (live Rs)" "data_ptr (padr b) = p" by (auto simp: blocks_iff [OF lay])
  from free_spec [OF g b(1)] obtain h' Rs' where f: "liballoc_free hk p h = Done h'" "good idle owns h' Rs'"
    "set (live Rs') = set (live Rs) - {b}" "data_kept (set (live Rs')) h h'" "l_errorCount h' = l_errorCount h"
    "l_allocated h' = l_allocated h \<longrightarrow> dead h' (padr b)" unfolding b(2) by blast
  note lay' = good_layout [OF f(2)]
  have B': "blocks Rs' = B(p := None)" using blocks_remove [OF lay lay' f(3) b(1)] B b(2) by simp
  have "\<exists>h''. liballoc_free hk p h' = Done h'' \<and> heap_rep idle owns h'' (B(p := None)) \<and>
       la_mem h'' = la_mem h' \<and> l_errorCount h'' = l_errorCount h' + 1" if "dead h' (padr b)"
    using free_dead [OF f(2) live_bounds(4) [OF lay b(1)] that] B' unfolding b(2) heap_rep_def by blast
  moreover have "heap_rep idle owns h' (B(p := None))" using f(2) B' by (auto simp: heap_rep_def)
  ultimately show ?thesis using f bytes_keptI [OF lay' f(4)] B' by auto
qed

text \<open>A pointer without a live header is refused by the release and by the resize.\<close>

lemma refused_rep:
  assumes r: "heap_rep idle owns h B" and p: "p \<noteq> 0" "n \<noteq> 0"
    and bad: "min_magic (minor h (UNALIGN (la_mem h) p - sizeof_minor)) \<noteq> LIBALLOC_MAGIC"
  shows "\<exists>h'. liballoc_free hk p h = Done h' \<and> liballoc_realloc hk p n h = Done (0, h') \<and> heap_rep idle owns h' B \<and>
    la_mem h' = la_mem h \<and> l_errorCount h' = l_errorCount h + 1"
proof -
  obtain Rs where g: "good idle owns h Rs" "blocks Rs = B" using r by (auto simp: heap_rep_def)
  obtain h1 where h1: "liballoc_lock hk h = Done h1" using lock_good [OF g(1)] by blast
  from refused_locked [OF g(1) h1 bad] obtain h' where u:
    "liballoc_unlock hk (bad_magic (min_magic (minor h1 (UNALIGN (la_mem h) p - sizeof_minor))) h1) = Done h'"
    "good idle owns h' Rs" "la_mem h' = la_mem h" "l_errorCount h' = l_errorCount h + 1"
    "min_magic (minor h1 (UNALIGN (la_mem h) p - sizeof_minor)) \<noteq> LIBALLOC_MAGIC" by blast
  then have "liballoc_free hk p h = Done h'" "liballoc_realloc hk p n h = Done (0, h')"
    using p h1 by (simp_all add: liballoc_free_def liballoc_realloc_def Let_def)
  with u(2-4) g(2) show ?thesis by (auto simp: heap_rep_def)
qed

lemma lock_rep:
  assumes "heap_rep idle owns h B"
  obtains h1 h2 where "liballoc_lock hk h = Done h1" "liballoc_unlock hk h1 = Done h2" "heap_rep idle owns h2 B"
    "la_mem h1 = la_mem h" "la_mem h2 = la_mem h" "hk_lock hk (la_env h) = Done (la_env h1)"
    "hk_unlock hk (la_env h1) = Done (la_env h2)"
proof -
  obtain Rs where g: "good idle owns h Rs" "blocks Rs = B" using assms by (auto simp: heap_rep_def)
  obtain h1 where h1: "liballoc_lock hk h = Done h1" "good held owns h1 Rs" "la_mem h1 = la_mem h" using lock_good [OF g(1)] .
  obtain h2 where h2: "liballoc_unlock hk h1 = Done h2" "good idle owns h2 Rs" "la_mem h2 = la_mem h1" using unlock_good [OF h1(2)] .
  have "hk_lock hk (la_env h) = Done (la_env h1)" using h1(1) by (cases "hk_lock hk (la_env h)") (auto simp: liballoc_lock_def)
  moreover have "hk_unlock hk (la_env h1) = Done (la_env h2)"
    using h2(1) by (cases "hk_unlock hk (la_env h1)") (auto simp: liballoc_unlock_def)
  ultimately show thesis using that h1 h2 g(2) by (auto simp: heap_rep_def)
qed

text \<open>A smaller request keeps the block where it is, with all of its bytes.\<close>

lemma realloc_shrink:
  assumes r: "heap_rep idle owns h B" and p: "B p = Some k" and n: "n \<noteq> 0" "unat n \<le> k"
  shows "\<exists>h'. liballoc_realloc hk p n h = Done (p, h') \<and> heap_rep idle owns h' (B(p \<mapsto> unat n)) \<and> bytes_kept B h h'"
proof -
  obtain Rs where g: "good idle owns h Rs" and B: "blocks Rs = B" using r by (auto simp: heap_rep_def)
  from p B obtain b where b: "b \<in> set (live Rs)" "data_ptr (padr b) = p" "preq b = k"
    by (auto simp: blocks_iff [OF good_layout [OF g]])
  obtain h1 where h1: "liballoc_lock hk h = Done h1" "good held owns h1 Rs" "la_mem h1 = la_mem h" using lock_good [OF g] .
  let ?h2 = "set_minor (padr b) (\<lambda>r. r\<lparr>min_req_size := of_nat (unat n)\<rparr>) h1"
  note lm = live_minor [OF h1(2) b(1), unfolded b(2)]
  have "unat n \<le> preq b" using n(2) b(3) by simp
  note sh = rep_shrink [OF h1(2) b(1) this]
  obtain Rs2 where g2: "good held owns ?h2 Rs2" "blocks Rs2 = B(p \<mapsto> unat n)" using sh(1) B b(2) by (auto simp: heap_rep_def)
  obtain h3 where h3: "liballoc_unlock hk ?h2 = Done h3" "good idle owns h3 Rs2" "la_mem h3 = la_mem ?h2" using unlock_good [OF g2(1)] .
  have "ucast (min_req_size (minor h1 (padr b))) \<ge> n" using lm(3) n(2) b(3) by (simp add: word_le_nat_alt)
  moreover have "p \<noteq> 0" using rep_block(1) [OF r p] .
  moreover have "(ucast n :: u32) = of_nat (unat n)" by (simp add: ucast_of_nat_unat)
  ultimately have "liballoc_realloc hk p n h = Done (p, h3)"
    using h1(1,3) h3(1) lm(1,2) n(1) by (simp add: liballoc_realloc_def Let_def)
  moreover have "bytes_kept B h h3" using sh(2) B h1(3) h3(3) by (simp add: bytes_kept_def)
  moreover have "heap_rep idle owns h3 (B(p \<mapsto> unat n))" using h3(2) g2(2) by (auto simp: heap_rep_def)
  ultimately show ?thesis by blast
qed

text \<open>
  A larger request moves the block and copies its bytes; without memory the copy goes through the
  null pointer, unless there is nothing to copy.
\<close>

lemma realloc_grow:
  assumes r: "heap_rep idle owns h B" and p: "B p = Some k" and n: "k < unat n" "unat n < 2 ^ 24 - 8224"
  shows "(\<exists>q h'. liballoc_realloc hk p n h = Done (q, h') \<and> q \<noteq> 0 \<and> B q = None \<and>
      heap_rep idle owns h' ((B(p := None))(q \<mapsto> unat n)) \<and> bytes_kept (B(p := None)) h h' \<and>
      (\<forall>i<k. la_mem h' (q + of_nat i) = la_mem h (p + of_nat i))) \<or>
    null_source hk held \<and> (if k = 0 then \<exists>h'. liballoc_realloc hk p n h = Done (0, h') \<and>
      heap_rep idle owns h' (B(p := None)) \<and> bytes_kept (B(p := None)) h h' else liballoc_realloc hk p n h = Fault Null_deref) \<or>
    (\<exists>s1 s2 s3. hk_lock hk (la_env h) = Done s1 \<and> hk_unlock hk s1 = Done s2 \<and> hk_lock hk s2 = Done s3 \<and> no_pages hk (n + 32) s3 \<and>
      (\<forall>r. liballoc_realloc hk p n h \<noteq> Done r))"
proof -
  obtain h1 h2 where h1: "liballoc_lock hk h = Done h1" "liballoc_unlock hk h1 = Done h2" "heap_rep idle owns h2 B"
    "la_mem h1 = la_mem h" "la_mem h2 = la_mem h" "hk_lock hk (la_env h) = Done (la_env h1)"
    "hk_unlock hk (la_env h1) = Done (la_env h2)" using lock_rep [OF r] .
  obtain Rs where g: "good idle owns h2 Rs" and B: "blocks Rs = B" using h1(3) by (auto simp: heap_rep_def)
  from p B obtain b where b: "b \<in> set (live Rs)" "data_ptr (padr b) = p" "preq b = k"
    by (auto simp: blocks_iff [OF good_layout [OF g]])
  note lm = live_minor [OF g b(1), unfolded b(2,3)]
  define w where "w = (ucast (min_req_size (minor h1 (padr b))) :: u64)"
  have mn: "minor h1 (padr b) = minor h2 (padr b)" using same_mem(2) [of h1 h2] h1(4,5) by simp
  have w: "unat w = k" using lm(3) by (simp add: w_def mn)
  have nz: "p \<noteq> 0" "n \<noteq> 0" using rep_block(1) [OF r p] n(1) by auto
  have "\<not> n \<le> w" using n(1) w by (simp add: word_le_nat_alt)
  then have re: "liballoc_realloc hk p n h = bind_o (liballoc_malloc hk n h2) (\<lambda>(q, h).
      write_ptr q w (bind_o (liballoc_free hk p (h\<lparr>la_mem := liballoc_memcpy q p w (la_mem h)\<rparr>)) (\<lambda>h. Done (q, h))))"
    using h1(1,2,4,5) lm(1,2) nz by (simp add: liballoc_realloc_def Let_def w_def mn)
  from malloc_rep [OF h1(3) n(2)] show ?thesis
  proof (elim disjE exE conjE)
    fix q h3
    assume m: "liballoc_malloc hk n h2 = Done (q, h3)" and k3: "bytes_kept B h2 h3"
      and c: "if q = 0 then null_source hk held \<and> heap_rep idle owns h3 B else B q = None \<and> heap_rep idle owns h3 (B(q \<mapsto> unat n))"
    let ?h4 = "h3\<lparr>la_mem := liballoc_memcpy q p w (la_mem h3)\<rparr>"
    have k23: "bytes_kept B h h3" using k3 h1(5) by (simp add: bytes_kept_def)
    show ?thesis
    proof (cases "q = 0")
      case True
      show ?thesis
      proof (cases "k = 0")
        case True
        then have "w = 0" using w by (simp add: unat_eq_0)
        then have "?h4 = h3" by (simp add: liballoc_memcpy.simps [of q] copy_bytes.simps [of q])
        moreover have "heap_rep idle owns h3 B" "null_source hk held" using c \<open>q = 0\<close> by simp_all
        moreover from free_rep [OF this(1) p] obtain h5 where "liballoc_free hk p h3 = Done h5"
          "heap_rep idle owns h5 (B(p := None))" "bytes_kept (B(p := None)) h3 h5" by blast
        moreover have "bytes_kept (B(p := None)) h h3" by (rule bytes_kept_mono [OF k23]) (simp add: map_le_def)
        ultimately show ?thesis
          using True \<open>q = 0\<close> \<open>w = 0\<close> bytes_kept_trans by (auto simp: re m write_ptr_def)
      next
        case False
        then have "w \<noteq> 0" using w by auto
        with False \<open>q = 0\<close> c show ?thesis by (simp add: re m write_ptr_def)
      qed
    next
      case False
      let ?B = "B(q \<mapsto> unat n)"
      have q: "B q = None" "heap_rep idle owns h3 ?B" using c False by simp_all
      then have pq: "p \<noteq> q" using p by auto
      have ap: "unat p + k \<le> unat q \<or> unat q + unat n \<le> unat p" using rep_apart [OF q(2), of p k q "unat n"] p pq by simp
      have bd: "unat p + k < 2 ^ 64" "unat q + unat n < 2 ^ 64"
        using rep_block(3) [OF q(2), of p k] rep_block(3) [OF q(2), of q "unat n"] p pq by simp_all
      have off: "unat (p + of_nat i) = unat p + i" "unat (q + of_nat i) = unat q + i" if "i < k" for i
        using bd n(1) that by (subst unat_add_less; simp add: unat_of_nat_less)+
      have fw: "forward q p (unat w)"
        unfolding forward_def w
      proof (intro allI impI)
        fix l j
        assume "l < k" "j < l"
        then show "q + of_nat j \<noteq> p + of_nat l" using off(1) [of l] off(2) [of j] ap n(1) by auto
      qed
      note cp = liballoc_memcpy_spec [OF fw, unfolded w]
      have r4: "heap_rep idle owns ?h4 ?B"
      proof (rule rep_write [OF q(2)])
        show "?B q = Some (unat n)" by simp
        fix x
        assume "\<not> inside q (unat n) x"
        then have "\<forall>i<k. x \<noteq> q + of_nat i" using off(2) n(1) by (auto simp: inside_def)
        then show "liballoc_memcpy q p w (la_mem h3) x = la_mem h3 x" by (rule cp(2))
      qed
      have "?B p = Some k" using p pq by simp
      from free_rep [OF r4 this] obtain h5 where h5: "liballoc_free hk p ?h4 = Done h5"
        "heap_rep idle owns h5 (?B(p := None))" "bytes_kept (?B(p := None)) ?h4 h5" by blast
      have eq: "?B(p := None) = (B(p := None))(q \<mapsto> unat n)" using pq by auto
      have keep4: "bytes_kept (B(p := None)) h ?h4"
        unfolding bytes_kept_def
      proof (intro allI impI, elim conjE)
        fix r m i
        assume r: "(B(p := None)) r = Some m" "i < m"
        then have Br: "B r = Some m" "r \<noteq> q" using q(1) by (auto split: if_splits)
        have "unat (r + of_nat i) = unat r + i"
          using rep_block(3) [OF q(2), of r m] Br r(2) by (subst unat_add_less) (simp_all add: unat_of_nat_less)
        with rep_apart [OF q(2), of r m q "unat n"] Br r(2) off(2) n(1) have "\<forall>j<k. r + of_nat i \<noteq> q + of_nat j" by fastforce
        then have "la_mem ?h4 (r + of_nat i) = la_mem h3 (r + of_nat i)" using cp(2) by simp
        then show "la_mem ?h4 (r + of_nat i) = la_mem h (r + of_nat i)" using k23 Br(1) r(2) by (simp add: bytes_kept_def)
      qed
      moreover have "bytes_kept (B(p := None)) ?h4 h5"
        by (rule bytes_kept_mono [OF h5(3)]) (use q(1) in \<open>auto simp: map_le_def\<close>)
      ultimately have kept: "bytes_kept (B(p := None)) h h5" by (rule bytes_kept_trans)
      have "la_mem h5 (q + of_nat i) = la_mem h (p + of_nat i)" if i: "i < k" for i
      proof -
        have "la_mem h5 (q + of_nat i) = la_mem ?h4 (q + of_nat i)" 
          using h5(3) [unfolded bytes_kept_def, rule_format, of q "unat n" i] pq n(1) i by simp
        also have "\<dots> = la_mem h3 (p + of_nat i)" using cp(1) i by simp
        also have "\<dots> = la_mem h (p + of_nat i)" using k23 p i by (simp add: bytes_kept_def)
        finally show ?thesis .
      qed
      moreover have "liballoc_realloc hk p n h = Done (q, h5)" using False h5(1) by (simp add: re m write_ptr_def)
      ultimately show ?thesis using False q(1) h5(2) kept unfolding eq by blast
    qed
  next
    fix s
    assume s: "hk_lock hk (la_env h2) = Done s" "no_pages hk (n + 32) s" and f: "\<forall>r. liballoc_malloc hk n h2 \<noteq> Done r"
    have "liballoc_realloc hk p n h \<noteq> Done r" for r using f by (cases "liballoc_malloc hk n h2") (auto simp: re)
    with s h1(6,7) show ?thesis by blast
  qed
qed

lemma calloc_rep:
  assumes r: "heap_rep idle owns h B" and n: "unat a * unat b < 2 ^ 24 - 8224"
  shows "(\<exists>p h'. liballoc_calloc hk a b h = Done (p, h') \<and> bytes_kept B h h' \<and>
      (if p = 0 then null_source hk held \<and> unat a * unat b = 0 \<and> heap_rep idle owns h' B
       else B p = None \<and> heap_rep idle owns h' (B(p \<mapsto> unat a * unat b)) \<and>
         (\<forall>i<unat a * unat b. la_mem h' (p + of_nat i) = 0))) \<or>
    null_source hk held \<and> liballoc_calloc hk a b h = Fault Null_deref \<or>
    (\<exists>s. hk_lock hk (la_env h) = Done s \<and> no_pages hk (a * b + 32) s \<and> (\<forall>r. liballoc_calloc hk a b h \<noteq> Done r))"
proof -
  have ab: "unat (a * b) = unat a * unat b" using n by (subst unat_mult_lem [THEN iffD1]) simp_all
  define w where "w = (scast (ucast (a * b) :: u32) :: u64)"
  have w: "w = a * b"
    unfolding w_def by (rule scast_ucast_small) (use n ab in simp)
  have ca: "liballoc_calloc hk a b h = bind_o (liballoc_malloc hk w h) (\<lambda>(p, h). write_ptr p w
      (Done (p, h\<lparr>la_mem := memset_loop 0 (unat w) (la_mem h) p\<rparr>)))"
    using n ab w liballoc_memset_loop [of w _ 0] by (simp add: liballoc_calloc_def Let_def flip: w_def)
  have n': "unat w < 2 ^ 24 - 8224" using n by (simp add: w ab)
  from malloc_rep [OF r n'] show ?thesis
  proof (elim disjE exE conjE)
    fix p h'
    assume m: "liballoc_malloc hk w h = Done (p, h')" and k: "bytes_kept B h h'"
      and c: "if p = 0 then null_source hk held \<and> heap_rep idle owns h' B else B p = None \<and> heap_rep idle owns h' (B(p \<mapsto> unat w))"
    show ?thesis
    proof (cases "p = 0")
      case True
      then show ?thesis
      proof (cases "w = 0")
        case True
        then have "liballoc_calloc hk a b h = Done (0, h')" using \<open>p = 0\<close> m ca by (simp add: write_ptr_def)
        moreover have "unat a * unat b = 0" using True w ab by simp
        ultimately show ?thesis using \<open>p = 0\<close> c k by auto
      qed (use c in \<open>simp add: ca m write_ptr_def\<close>)
    next
      case False
      then have q: "B p = None" "heap_rep idle owns h' (B(p \<mapsto> unat w))" using c by simp_all
      note f = rep_fill [OF q(2), of p "unat w" 0, simplified]
      have "bytes_kept B h' (h'\<lparr>la_mem := memset_loop 0 (unat w) (la_mem h') p\<rparr>)"
        by (rule bytes_kept_mono [OF f(2)]) (use q(1) in \<open>auto simp: map_le_def\<close>)
      with k have "bytes_kept B h (h'\<lparr>la_mem := memset_loop 0 (unat w) (la_mem h') p\<rparr>)" by (rule bytes_kept_trans)
      moreover have "liballoc_calloc hk a b h = Done (p, h'\<lparr>la_mem := memset_loop 0 (unat w) (la_mem h') p\<rparr>)"
        using False by (simp add: ca m write_ptr_def)
      moreover have "unat w = unat a * unat b" by (simp add: w ab)
      ultimately show ?thesis using False q(1) f(1,3)
        by (intro disjI1 exI [of _ p] exI [of _ "h'\<lparr>la_mem := memset_loop 0 (unat w) (la_mem h') p\<rparr>"]) simp
    qed
  next
    fix s
    assume s: "hk_lock hk (la_env h) = Done s" "no_pages hk (w + 32) s" and f: "\<forall>r. liballoc_malloc hk w h \<noteq> Done r"
    have "liballoc_calloc hk a b h \<noteq> Done r" for r using f by (cases "liballoc_malloc hk w h") (auto simp: ca)
    with s show ?thesis by (simp add: w)
  qed
qed

end

section \<open>A source that never answers null\<close>

locale page_supply = page_hooks +
  assumes hook_nonnull: "held s \<Longrightarrow> 0 < k \<Longrightarrow> k < 2 ^ 12 \<Longrightarrow> hk_alloc hk (of_nat k) s = Done (p, s') \<Longrightarrow> p \<noteq> 0"
begin

lemma no_null: "\<not> null_source hk held"
  using hook_nonnull by (auto simp: null_source_def)

lemma supply_malloc:
  assumes "heap_rep idle owns h B" "unat n < 2 ^ 24 - 8224"
  shows "(\<exists>p h'. liballoc_malloc hk n h = Done (p, h') \<and> p \<noteq> 0 \<and> B p = None \<and> heap_rep idle owns h' (B(p \<mapsto> unat n)) \<and>
      bytes_kept B h h') \<or>
    (\<exists>s. hk_lock hk (la_env h) = Done s \<and> no_pages hk (n + 32) s \<and> (\<forall>r. liballoc_malloc hk n h \<noteq> Done r))"
  using malloc_rep [OF assms] no_null by (auto split: if_splits)

lemmas supply_grow = realloc_grow [simplified no_null, simplified]

end

end
