(* ===== verification/Navy_Pages.thy ===== *)
theory Navy_Pages
  imports Navy_Vmm
begin

text \<open>
  The bytes of allocated pages as the kernel sees them through its window on physical memory:
  a block the page allocator returns is fresh, and neither further allocations nor the mapping of
  pages ever frees a used byte. The program loader and the kernel heap rest on these lemmas.
\<close>

section \<open>Bytes of an allocated block\<close>

text \<open>The page behind a window address is marked used in the bitmap.\<close>

definition byte_used :: "pmm \<Rightarrow> u64 \<Rightarrow> bool" where
  "byte_used pm a \<longleftrightarrow> is_set_pmm pm (mmap_io_to_phys a div PAGE_SIZE)"

lemma alloc_block:
  assumes "pmm_ok s" "n \<noteq> 0" "pmm_alloc n s = Done (r, s')" "rlength r \<noteq> 0"
  obtains p where "r = pages_range p (need_pages n)" "p + need_pages n < 2 ^ 52"
  using assms(1-3)
proof (cases rule: pmm_alloc_DoneE)
  case failed
  with assms(4) show ?thesis by (simp add: empty_range_def)
next
  case (found p)
  with assms(1) that show ?thesis by (auto simp: pmm_ok_def)
qed

lemma unat_page_bytes:
  assumes "p + k < 2 ^ 52" "j < 4096 * k"
  shows "unat (rbase (pages_range p k) + of_nat j) = 4096 * p + j"
proof -
  have "rbase (pages_range p k) + of_nat j = (of_nat (4096 * p + j) :: u64)"
    by (simp add: pages_range_def)
  moreover have "4096 * p + j < 2 ^ LENGTH(64)" using assms by simp
  ultimately show ?thesis by (simp only: unat_of_nat_less)
qed

lemma page_of_byte:
  assumes "p + k < 2 ^ 52" "j < 4096 * k"
  shows "in_pages (pages_range p k) ((rbase (pages_range p k) + of_nat j) div PAGE_SIZE)"
proof -
  have "unat ((rbase (pages_range p k) + of_nat j) div PAGE_SIZE) = (4096 * p + j) div 4096"
    using unat_page_bytes [OF assms] by (simp add: PAGE_SIZE_def unat_div_page)
  also have "\<dots> = p + j div 4096" by simp
  finally show ?thesis using assms by (simp add: in_pages_range less_mult_imp_div_less mult.commute)
qed

abbreviation block_byte :: "range_t \<Rightarrow> nat \<Rightarrow> u64" where
  "block_byte r j \<equiv> mmap_phys_to_io (rbase r) + of_nat j"

lemma io_to_phys_block: "mmap_io_to_phys (block_byte r j) = rbase r + of_nat j"
  by (simp add: mmap_io_to_phys_def mmap_phys_to_io_def)

lemma block_fresh:
  assumes "pmm_ok s" "n \<noteq> 0" "pmm_alloc n s = Done (r, s')" "rlength r \<noteq> 0" "j < 4096 * need_pages n"
  shows "\<not> byte_used s (block_byte r j)" "byte_used s' (block_byte r j)"
proof -
  obtain p where r: "r = pages_range p (need_pages n)" "p + need_pages n < 2 ^ 52"
    using assms(1-4) by (rule alloc_block)
  have "in_pages r ((rbase r + of_nat j) div PAGE_SIZE)"
    using page_of_byte [OF r(2) assms(5)] by (simp add: r(1))
  with pmm_pages.alloc_fresh [OF assms(1-3)] pmm_pages.alloc_used [OF assms(1-3)]
  show "\<not> byte_used s (block_byte r j)" "byte_used s' (block_byte r j)"
    by (auto simp: byte_used_def io_to_phys_block)
qed

lemma alloc_keeps_used:
  "pmm_ok s \<Longrightarrow> n \<noteq> 0 \<Longrightarrow> pmm_alloc n s = Done (r, s') \<Longrightarrow> byte_used s a \<Longrightarrow> byte_used s' a"
  using pmm_pages.alloc_used by (auto simp: byte_used_def)

lemma alloc_bitmap_size:
  assumes "pmm_ok s" "n \<noteq> 0" "pmm_alloc n s = Done (r, s')"
  shows "bitmap_size s' = bitmap_size s"
  by (rule pmm_alloc_DoneE [OF assms]) simp_all

section \<open>Used pages stay used\<close>

lemma get_pml_alloc_used:
  assumes "pmm_ok (vm_pmm s)" "vmm_get_pml_alloc t i u s = Done (r, s')"
  shows "pmm_ok (vm_pmm s')" "byte_used (vm_pmm s) a \<Longrightarrow> byte_used (vm_pmm s') a"
    "bitmap_size (vm_pmm s') = bitmap_size (vm_pmm s)" "kernel_pml4 s' = kernel_pml4 s"
proof -
  have p: "PAGE_SIZE \<noteq> 0" by (simp add: PAGE_SIZE_def)
  show "pmm_ok (vm_pmm s')" "byte_used (vm_pmm s) a \<Longrightarrow> byte_used (vm_pmm s') a"
    "bitmap_size (vm_pmm s') = bitmap_size (vm_pmm s)" "kernel_pml4 s' = kernel_pml4 s"
    using assms pmm_pages.alloc_ok [OF assms(1) p] alloc_keeps_used [OF assms(1) p] alloc_bitmap_size [OF assms(1) p]
    by (auto simp: vmm_get_pml_alloc_def call_pmm_alloc_def clear_table_def set_entry_def Let_def
        split: if_splits)
qed

lemma map_page_used:
  assumes "pmm_ok (vm_pmm s)" "vmm_map_page t v p u s = Done s'"
  shows "pmm_ok (vm_pmm s')" "byte_used (vm_pmm s) a \<Longrightarrow> byte_used (vm_pmm s') a"
    "bitmap_size (vm_pmm s') = bitmap_size (vm_pmm s)" "kernel_pml4 s' = kernel_pml4 s"
proof -
  obtain r1 s1 r2 s2 r3 s3 where
    a: "vmm_get_pml_alloc t (PML4_GET_INDEX v) True s = Done (r1, s1)"
      "vmm_get_pml_alloc (rbase r1) (PML3_GET_INDEX v) True s1 = Done (r2, s2)"
      "vmm_get_pml_alloc (rbase r2) (PML2_GET_INDEX v) True s2 = Done (r3, s3)"
    and s': "s' = set_entry (rbase r3) (PML1_GET_INDEX v) (pml_make_entry p u) s3"
    using assms(2) by (auto simp: vmm_map_page_def)
  note u1 = get_pml_alloc_used [OF assms(1) a(1)]
  note u2 = get_pml_alloc_used [OF u1(1) a(2)]
  note u3 = get_pml_alloc_used [OF u2(1) a(3)]
  show "pmm_ok (vm_pmm s')" "byte_used (vm_pmm s) a \<Longrightarrow> byte_used (vm_pmm s') a"
    "bitmap_size (vm_pmm s') = bitmap_size (vm_pmm s)" "kernel_pml4 s' = kernel_pml4 s"
    using u1(2-4) u2(2-4) u3 by (auto simp: s' set_entry_def)
qed

lemma map_loop_used:
  assumes "pmm_ok (vm_pmm s)" "map_loop t vb pb u i n s = Done s'"
  shows "pmm_ok (vm_pmm s') \<and> (byte_used (vm_pmm s) a \<longrightarrow> byte_used (vm_pmm s') a) \<and>
    bitmap_size (vm_pmm s') = bitmap_size (vm_pmm s) \<and> kernel_pml4 s' = kernel_pml4 s"
  using assms
proof (induction t vb pb u i n s rule: map_loop.induct)
  case (1 t vb pb u i n s)
  show ?case
  proof (cases "i < n")
    case True
    then obtain s1 where "vmm_map_page t (i * PAGE_SIZE + ALIGN_DOWN vb PAGE_SIZE)
        (i * PAGE_SIZE + ALIGN_DOWN pb PAGE_SIZE) u s = Done s1" "map_loop t vb pb u (i + 1) n s1 = Done s'"
      using "1.prems"(2) by (auto simp: map_loop.simps [of t vb pb u i])
    with 1 True map_page_used show ?thesis by metis
  next
    case False
    with 1 show ?thesis by (simp add: map_loop.simps [of t vb pb u i])
  qed
qed

lemma map_range_used:
  assumes "pmm_ok (vm_pmm s)" "vmm_map_range t virt phys u s = Done s'"
  shows "byte_used (vm_pmm s) a \<Longrightarrow> byte_used (vm_pmm s') a" "pmm_ok (vm_pmm s')"
    "bitmap_size (vm_pmm s') = bitmap_size (vm_pmm s)" "kernel_pml4 s' = kernel_pml4 s"
proof -
  obtain l s1 where
    loop: "map_loop t (rbase virt) (rbase phys) u 0 (rlength virt div PAGE_SIZE) (s\<lparr>vmm_lock := l\<rparr>) = Done s1"
    and s': "s' = vmm_flush virt (s1\<lparr>vmm_lock := 0\<rparr>)" using assms(2) by (rule map_range_DoneE)
  show "byte_used (vm_pmm s) a \<Longrightarrow> byte_used (vm_pmm s') a" "pmm_ok (vm_pmm s')"
    "bitmap_size (vm_pmm s') = bitmap_size (vm_pmm s)" "kernel_pml4 s' = kernel_pml4 s"
    using map_loop_used [OF _ loop, of a] assms(1) by (simp_all add: s')
qed

section \<open>Room for blocks\<close>

text \<open>
  \<open>room n pm\<close>: from the search position on, the bitmap has a run of \<open>n\<close> free pages, which the
  counter covers. First fit never takes more of the run than it is asked for, so a sequence of
  requests with \<open>n\<close> pages in total succeeds, whatever their sizes and order.
\<close>

definition room :: "nat \<Rightarrow> pmm \<Rightarrow> bool" where
  "room n pm \<longleftrightarrow> pmm_ok pm \<and> n \<le> unat (usable_pages pm) \<and>
     (\<exists>p\<ge>unat (last_page pm). p + n \<le> unat (bitmap_size pm) \<and> free_run pm p n)"

lemma room_alloc:
  assumes "room (a + n) pm" "need_pages amount = a" "amount \<noteq> 0"
  shows "\<exists>r pm'. pmm_alloc amount pm = Done (r, pm') \<and> unat (rlength r) = 4096 * a \<and> 0 < a \<and> room n pm'"
proof -
  let ?B = "unat (bitmap_size pm)"
  have a: "0 < a" using assms(2,3) by (auto simp: need_pages_def unat_eq_0 [symmetric])
  from assms(1) obtain P where ok: "pmm_ok pm" and u: "a + n \<le> unat (usable_pages pm)"
    and P: "unat (last_page pm) \<le> P" "P + (a + n) \<le> ?B" "free_run pm P (a + n)"
    by (auto simp: room_def)
  have B: "?B < 2 ^ 52" "pmm_lock pm = 0" using ok by (simp_all add: pmm_ok_def)
  have runP: "free_run pm P a" using P(3) by (auto simp: free_run_iff)
  then have "P \<in> set [unat (last_page pm)..<Suc ?B - a]" using P by auto
  then have "first_fit pm (unat (last_page pm)) a \<noteq> None"
    unfolding first_fit_def find_None_iff using runP by blast
  then obtain p where p: "first_fit pm (unat (last_page pm)) a = Some p" by blast
  have "p \<le> P"
  proof (rule ccontr)
    assume "\<not> p \<le> P"
    from p obtain i where i: "i < length [unat (last_page pm)..<Suc ?B - a]" "p = unat (last_page pm) + i"
      "\<forall>j<i. \<not> free_run pm (unat (last_page pm) + j) a"
      by (auto simp: first_fit_def find_Some_iff)
    with \<open>\<not> p \<le> P\<close> P(1) have "P - unat (last_page pm) < i" by simp
    with i(3) have "\<not> free_run pm (unat (last_page pm) + (P - unat (last_page pm))) a" by blast
    with P(1) runP show False by simp
  qed
  let ?r = "pages_range p a"
  let ?pm' = "pmm_range_used ?r (pm\<lparr>last_page := of_nat (p + a)\<rparr>)"
  have pa: "p + a < 2 ^ 52" using first_fit_SomeD [OF p] B by simp
  have "usable_pages pm \<noteq> 0" using a u by auto
  with pmm_alloc_eq [OF B(1) assms(3) B(2)] p assms(2) have alloc: "pmm_alloc amount pm = Done (?r, ?pm')" by simp
  have "unat (of_nat (p + a) :: u64) = p + a" using pa by (intro unat_of_nat_less) simp
  then have "unat (last_page ?pm') \<le> P + a" using \<open>p \<le> P\<close> by simp
  moreover have "free_run ?pm' (P + a) n"
    unfolding free_run_iff
  proof (intro allI impI)
    fix q
    assume q: "P + a \<le> q \<and> q < P + a + n"
    then have "unat (of_nat q :: u64) = q" using P(2) B(1) by (intro unat_of_nat_less) simp
    then have "\<not> in_pages ?r (of_nat q)" using q \<open>p \<le> P\<close> by (simp add: in_pages_range [OF pa])
    moreover have "\<not> is_set_pmm pm (of_nat q)" using P(3) q by (simp add: free_run_iff)
    ultimately show "\<not> is_set_pmm ?pm' (of_nat q)" by simp
  qed
  moreover have "n \<le> unat (usable_pages ?pm')"
    using pages_range_fields(2) [OF pa] u pa by (simp add: unat_sub word_le_nat_alt unat_of_nat_less)
  moreover have "pmm_ok ?pm'" using ok by (simp add: pmm_ok_def)
  ultimately have "room n ?pm'" using P(2) unfolding room_def by (auto simp: add.assoc)
  with alloc a pages_range_length [OF pa] show ?thesis by blast
qed

lemma room_le: "room n pm \<Longrightarrow> k \<le> n \<Longrightarrow> room k pm"
proof -
  assume "room n pm" "k \<le> n"
  then obtain p where "pmm_ok pm" "k \<le> unat (usable_pages pm)" "unat (last_page pm) \<le> p"
    "p + k \<le> unat (bitmap_size pm)" "free_run pm p k"
    by (auto simp: room_def free_run_iff)
  then show "room k pm" by (auto simp: room_def)
qed

lemma room_lt: "room n pm \<Longrightarrow> n < 2 ^ 52"
  by (auto simp: room_def pmm_ok_def)

interpretation roomy: page_budget room
proof
  show "\<exists>r pm'. pmm_alloc PAGE_SIZE pm = Done (r, pm') \<and> rlength r > 0 \<and> room k pm'" if "room (Suc k) pm" for k pm
  proof -
    have "room (1 + k) pm" "PAGE_SIZE \<noteq> 0" using that by (simp_all add: PAGE_SIZE_def)
    from room_alloc [OF this(1) need_one this(2)] obtain r pm' where
      "pmm_alloc PAGE_SIZE pm = Done (r, pm')" "unat (rlength r) = 4096" "room k pm'" by auto
    then show ?thesis by (auto simp: word_gt_0)
  qed
  show "room k pm" if "room (Suc k) pm" for k pm using room_le [OF that] by simp
qed

text \<open>A machine of 128 pages of which the first 16 are used, for the examples of the loader and of the boot.\<close>

definition wide_pmm :: pmm where
  "wide_pmm = \<lparr>bitmap = 0xffff800000001000, bm = (\<lambda>i. if i < 2 then 0xff else 0), bitmap_size = 128,
     usable_pages = 112, last_page = 0, pmm_lock = 0\<rparr>"

definition wide_vmm :: vmm where
  "wide_vmm = small_vmm\<lparr>vm_pmm := wide_pmm\<rparr>"

lemma wide_fields [simp]:
  "vm_pmm wide_vmm = wide_pmm" "tables wide_vmm = (\<lambda>_ _. 0)" "kernel_pml4 wide_vmm = 0xffff800000000000"
  "vmm_lock wide_vmm = 0" "pmm_ok wide_pmm"
  by (simp_all add: wide_vmm_def small_vmm_def wide_pmm_def pmm_ok_def)

lemma wide_room: "room 112 wide_pmm"
proof -
  have "free_run wide_pmm 16 112" by code_simp
  then show ?thesis unfolding room_def by (auto simp: wide_pmm_def pmm_ok_def intro!: exI [of _ 16])
qed

lemma wide_set: "is_set_pmm wide_pmm j \<longleftrightarrow> j < 16" if "j < 128"
proof -
  have "list_all (\<lambda>i. is_set_pmm wide_pmm (of_nat i) = (i < 16)) [0..<128]" by code_simp
  moreover have "unat j \<in> set [0..<128]" using that by (simp add: word_less_nat_alt)
  ultimately have "is_set_pmm wide_pmm (of_nat (unat j)) = (unat j < 16)" unfolding list_all_iff by (rule bspec)
  then show ?thesis by (simp add: word_less_nat_alt)
qed

lemma wide_ok: "vm_ok wide_vmm 0xffff800000000000"
proof -
  have "is_set_pmm wide_pmm 0" using wide_set [of 0] by simp
  then show ?thesis
    by (simp add: vm_ok_def vm_tree_def tables_used_def path_table_zero mmap_io_to_phys_def MMAP_IO_BASE_def PAGE_SIZE_def)
qed

end
