(* ===== verification/Navy_Kheap.thy ===== *)
theory Navy_Kheap
  imports Navy_Blocks Navy_Pages
begin

text \<open>
  The hooks of \<^verbatim>\<open>libs/liballoc/compat.c\<close> keep the contract of the page source, so that the wrappers of
  \<^verbatim>\<open>kernel/kmalloc.c\<close> allocate blocks of the kernel's window on physical memory. The properties of
  the kernel heap are stated here.
\<close>

section \<open>The page source of the kernel\<close>

abbreviation ke_pmm :: "kernel_env \<Rightarrow> pmm" where
  "ke_pmm s \<equiv> vm_pmm (vm (ke_sched s))"

definition ke_ok :: "bool \<Rightarrow> kernel_env \<Rightarrow> bool" where
  "ke_ok locked s \<longleftrightarrow> ke_lock s = (if locked then 1 else 0) \<and> pmm_ok (ke_pmm s) \<and> unat (bitmap_size (ke_pmm s)) < 2 ^ 35"

definition ke_owns :: "kernel_env \<Rightarrow> u64 \<Rightarrow> bool" where
  "ke_owns s x \<longleftrightarrow> MMAP_IO_BASE \<le> x \<and> byte_used (ke_pmm s) x"

lemma compat_lock_ok: "ke_ok False s \<Longrightarrow> compat_lock s = Done (s\<lparr>ke_lock := 1\<rparr>)"
  by (simp add: compat_lock_def ke_ok_def)

lemma compat_unlock_ok: "compat_unlock s = Done (s\<lparr>ke_lock := 0\<rparr>)"
  by (simp add: compat_unlock_def arch_release_def)

lemma page_bytes:
  assumes "k < 2 ^ 12"
  shows "unat (scast (of_nat k * 4096 :: u32) :: u64) = 4096 * k" "need_pages (scast (of_nat k * 4096 :: u32)) = k"
proof -
  have "(of_nat k * 4096 :: u32) = ucast (of_nat (4096 * k) :: u64)" by (simp add: down_simps mult.commute del: of_nat_mult) simp
  moreover have u: "unat (of_nat (4096 * k) :: u64) = 4096 * k" using assms by (simp add: unat_of_nat_less del: of_nat_mult)
  moreover from this have "scast (ucast (of_nat (4096 * k) :: u64) :: u32) = (of_nat (4096 * k) :: u64)"
    using assms by (intro scast_ucast_small) simp
  ultimately show *: "unat (scast (of_nat k * 4096 :: u32) :: u64) = 4096 * k" by simp
  show "need_pages (scast (of_nat k * 4096 :: u32)) = k" by (simp add: need_pages_def *)
qed

lemma unat_window:
  assumes "unat a < 2 ^ 47"
  shows "unat (mmap_phys_to_io a) = unat a + unat MMAP_IO_BASE"
  using assms by (simp add: mmap_phys_to_io_def) (subst unat_add_less; simp add: MMAP_IO_BASE_def)

lemma liballoc_alloc_DoneE:
  assumes "liballoc_alloc c s = Done (p, s')"
  obtains t r pm v where "pmm_alloc (scast (c * 4096)) (ke_pmm s) = Done (r, pm)" "rlength r \<noteq> 0"
    "vmm_map_range t \<lparr>rbase = mmap_phys_to_io (rbase r), rlength = rlength r\<rparr> r True
      ((vm (ke_sched s))\<lparr>vm_pmm := pm\<rparr>) = Done v"
    "p = mmap_phys_to_io (rbase r)" "s' = s\<lparr>ke_sched := (ke_sched s)\<lparr>vm := v\<rparr>\<rparr>"
proof -
  define rest where "rest = (\<lambda>t. bind_o (arch_pmm_alloc (scast (c * 4096)) (ke_sched s)) (\<lambda>(phys, k). kassert (rlength phys > 0) (
      bind_o (arch_vmm_map t \<lparr>rbase = mmap_phys_to_io (rbase phys), rlength = rlength phys\<rparr> phys True k) (\<lambda>k.
      Done (mmap_phys_to_io (rbase phys), s\<lparr>ke_sched := k\<rparr>)))))"
  define space where "space = (if is_sched_init (ke_sched s) then bind_o (sched_current_process (ke_sched s)) (\<lambda>p.
      bind_o (get_proc p (ke_sched s)) (\<lambda>x. Done (pml x))) else Done (get_kernel_space (vm (ke_sched s))))"
  have "bind_o space rest = Done (p, s')" using assms unfolding liballoc_alloc_def rest_def space_def .
  then obtain t where "rest t = Done (p, s')" by (cases space) simp_all
  then have b: "bind_o (arch_pmm_alloc (scast (c * 4096)) (ke_sched s)) (\<lambda>(phys, k). kassert (rlength phys > 0) (
      bind_o (arch_vmm_map t \<lparr>rbase = mmap_phys_to_io (rbase phys), rlength = rlength phys\<rparr> phys True k) (\<lambda>k.
      Done (mmap_phys_to_io (rbase phys), s\<lparr>ke_sched := k\<rparr>)))) = Done (p, s')" unfolding rest_def .
  obtain r k where al: "arch_pmm_alloc (scast (c * 4096)) (ke_sched s) = Done (r, k)"
    using b by (cases "arch_pmm_alloc (scast (c * 4096)) (ke_sched s)") auto
  have rest: "kassert (rlength r > 0)
      (bind_o (arch_vmm_map t \<lparr>rbase = mmap_phys_to_io (rbase r), rlength = rlength r\<rparr> r True k) (\<lambda>k.
      Done (mmap_phys_to_io (rbase r), s\<lparr>ke_sched := k\<rparr>))) = Done (p, s')"
    using b unfolding al by (simp only: bind_o.simps prod.case)
  obtain pm where pm: "pmm_alloc (scast (c * 4096)) (ke_pmm s) = Done (r, pm)"
    "k = (ke_sched s)\<lparr>vm := (vm (ke_sched s))\<lparr>vm_pmm := pm\<rparr>\<rparr>"
    using al by (cases "pmm_alloc (scast (c * 4096)) (ke_pmm s)") (auto simp: arch_pmm_alloc_def call_pmm_alloc_def)
  obtain v where "vmm_map_range t \<lparr>rbase = mmap_phys_to_io (rbase r), rlength = rlength r\<rparr> r True (vm k) = Done v"
    "p = mmap_phys_to_io (rbase r)" "s' = s\<lparr>ke_sched := k\<lparr>vm := v\<rparr>\<rparr>"
    using rest by (auto simp: arch_vmm_map_def)
  moreover have "rlength r \<noteq> 0" using rest by (auto simp: word_gt_0)
  ultimately show thesis by (intro that [OF pm(1)]) (simp_all add: pm(2))
qed

lemma liballoc_alloc_ok:
  assumes ok: "ke_ok True s" and k: "0 < k" "k < 2 ^ 12" and a: "liballoc_alloc (of_nat k) s = Done (p, s')"
  shows "ke_ok True s'" "ke_owns s x \<Longrightarrow> ke_owns s' x" "p \<noteq> 0" "unat p + 4096 * k < 2 ^ 64"
    "inside p (4096 * k) y \<Longrightarrow> \<not> ke_owns s y \<and> ke_owns s' y"
proof -
  let ?n = "scast (of_nat k * 4096 :: u32) :: u64"
  note pb = page_bytes [OF k(2)]
  have n: "?n \<noteq> 0" using pb(1) k(1) by (auto simp del: unat_eq_0)
  have pok: "pmm_ok (ke_pmm s)" and bs: "unat (bitmap_size (ke_pmm s)) < 2 ^ 35" using ok by (simp_all add: ke_ok_def)
  obtain t r pm v where al: "pmm_alloc ?n (ke_pmm s) = Done (r, pm)" "rlength r \<noteq> 0"
    and m: "vmm_map_range t \<lparr>rbase = mmap_phys_to_io (rbase r), rlength = rlength r\<rparr> r True
      ((vm (ke_sched s))\<lparr>vm_pmm := pm\<rparr>) = Done v"
    and p: "p = mmap_phys_to_io (rbase r)" and s': "s' = s\<lparr>ke_sched := (ke_sched s)\<lparr>vm := v\<rparr>\<rparr>"
    using a by (rule liballoc_alloc_DoneE)
  have pok': "pmm_ok pm" using pmm_pages.alloc_ok [OF pok n al(1)] .
  note mr = map_range_used [OF _ m, simplified, OF pok']
  have bsz: "bitmap_size (vm_pmm v) = bitmap_size (ke_pmm s)" using mr(3) alloc_bitmap_size [OF pok n al(1)] by simp
  show "ke_ok True s'" using ok mr(2) bsz by (simp add: ke_ok_def s')
  show "ke_owns s x \<Longrightarrow> ke_owns s' x" using alloc_keeps_used [OF pok n al(1)] mr(1) by (simp add: ke_owns_def s')
  obtain q where q: "r = pages_range q k" "q + k \<le> unat (bitmap_size (ke_pmm s))"
  proof (cases rule: pmm_alloc_DoneE [OF pok n al(1)])
    case 1
    then show ?thesis using al(2) by (simp add: empty_range_def)
  next
    case (2 q)
    then show ?thesis using that pb(2) by simp
  qed
  then have q35: "q + k < 2 ^ 35" using bs by linarith
  have ub: "unat (rbase r + of_nat j) = 4096 * q + j" if "j < 4096 * k" for j
    using unat_page_bytes [of q k j] q35 that by (simp add: q(1))
  have base: "unat (rbase r) = 4096 * q" using ub [of 0] k(1) by simp
  have up: "unat p = 4096 * q + unat MMAP_IO_BASE" using unat_window [of "rbase r"] base q35 k(1) by (simp add: p)
  have io: "unat MMAP_IO_BASE = 0xffff800000000000" by (simp add: MMAP_IO_BASE_def)
  show bd: "unat p + 4096 * k < 2 ^ 64" using up q35 unfolding io by simp
  have "0 < unat p" using up unfolding io by simp
  then show "p \<noteq> 0" by auto
  assume y: "inside p (4096 * k) y"
  define j where "j = unat y - unat p"
  have j: "j < 4096 * k" "unat y = unat p + j" using y by (auto simp: inside_def j_def)
  have "unat (p + of_nat j) = unat p + j" using bd j(1) by (subst unat_add_less) (simp_all add: unat_of_nat_less)
  then have yj: "y = block_byte r j" using j(2) by (simp add: word_unat_eq_iff p)
  have "MMAP_IO_BASE \<le> y" using j(2) up by (simp add: word_le_nat_alt)
  moreover have "j < 4096 * need_pages ?n" using j(1) pb(2) by simp
  note block_fresh [OF pok n al this]
  ultimately show "\<not> ke_owns s y \<and> ke_owns s' y" using mr(1) by (simp add: ke_owns_def yj s')
qed

lemma liballoc_free_ok:
  assumes ok: "ke_ok True s" and n: "unat n < 2 ^ 12"
  shows "\<exists>s'. liballoc_free_pages p n s = Done s' \<and> ke_ok True s' \<and> (\<forall>x. ke_owns s' x = ke_owns s x)"
proof -
  have pok: "pmm_ok (ke_pmm s)" using ok by (simp add: ke_ok_def)
  have "scast n = (ucast n :: u64)"
    using scast_ucast_small [of "ucast n"] n by (simp add: down_simps unat_up_u32)
  then have "unat (scast n :: u64) = unat n" by (simp add: unat_up_u32)
  then have z: "(scast n :: u64) div PAGE_SIZE = 0"
    using n by (intro word_unat_eq_iff [THEN iffD2]) (simp add: unat_div PAGE_SIZE_def)
  obtain pm where f: "pmm_free \<lparr>rbase = p, rlength = scast n\<rparr> (ke_pmm s) = Done pm" "pmm_ok pm"
    using pmm_pages.free_ok [OF pok] by blast
  then have "pm = ke_pmm s"
    using pok z by (auto simp: pmm_free_def pmm_range_unused_def unused_loop.simps pmm_ok_def arch_release_def Let_def)
  with f ok show ?thesis
    by (auto simp: liballoc_free_pages_def call_pmm_free_def ke_ok_def ke_owns_def)
qed

interpretation kh: page_supply kernel_hooks "ke_ok False" "ke_ok True" ke_owns
proof unfold_locales
  fix s
  show "ke_ok False s \<Longrightarrow> \<exists>s'. hk_lock kernel_hooks s = Done s' \<and> ke_ok True s' \<and> ke_owns s' = ke_owns s"
    by (simp add: kernel_hooks_def compat_lock_ok ke_ok_def ke_owns_def fun_eq_iff)
  show "ke_ok True s \<Longrightarrow> \<exists>s'. hk_unlock kernel_hooks s = Done s' \<and> ke_ok False s' \<and> ke_owns s' = ke_owns s"
    by (simp add: kernel_hooks_def compat_unlock_ok ke_ok_def ke_owns_def fun_eq_iff)
next
  fix s k p s'
  assume "ke_ok True s" "0 < k" "k < 2 ^ 12" "hk_alloc kernel_hooks (of_nat k) s = Done (p, s')"
  then show "ke_ok True s' \<and> (\<forall>x. ke_owns s x \<longrightarrow> ke_owns s' x) \<and>
      (p \<noteq> 0 \<longrightarrow> unat p + 4096 * k < 2 ^ 64 \<and> (\<forall>x. inside p (4096 * k) x \<longrightarrow> \<not> ke_owns s x \<and> ke_owns s' x))"
    "p \<noteq> 0"
    using liballoc_alloc_ok [of s k p s'] by (simp_all add: kernel_hooks_def)
next
  fix s p n
  show "ke_ok True s \<Longrightarrow> unat n < 2 ^ 12 \<Longrightarrow> \<exists>s'. hk_free kernel_hooks p n s = Done s' \<and> ke_ok True s' \<and>
      (\<forall>x. ke_owns s x \<longrightarrow> inside p (4096 * unat n) x \<or> ke_owns s' x)"
    using liballoc_free_ok [of s n p] by (auto simp: kernel_hooks_def)
qed

section \<open>Blocks of the kernel heap\<close>

text \<open>The static variables of \<^verbatim>\<open>liballoc.c\<close> before the first call.\<close>

definition heap_start :: "mem \<Rightarrow> 's \<Rightarrow> 's heap" where
  "heap_start m s = \<lparr>l_memRoot = 0, l_bestBet = 0, l_allocated = 0, l_inuse = 0, l_warningCount = 0, l_errorCount = 0,
     l_possibleOverruns = 0, la_mem = m, la_env = s\<rparr>"

definition kheap_ok :: "kheap \<Rightarrow> (u64 \<Rightarrow> nat option) \<Rightarrow> bool" where
  "kheap_ok h B \<longleftrightarrow> heap_rep (ke_ok False) ke_owns h B"

text \<open>The largest request the properties cover: 16 MiB less two pages and the padding.\<close>

definition kheap_limit :: nat where
  "kheap_limit = 2 ^ 24 - 8224"

text \<open>The page allocator stops the kernel, or runs on, when the heap asks it for the pages of a request.\<close>

definition out_of_pages :: "u64 \<Rightarrow> kheap \<Rightarrow> bool" where
  "out_of_pages n h \<longleftrightarrow> (\<forall>r. liballoc_alloc (page_count (ucast (n + 32))) ((la_env h)\<lparr>ke_lock := 1\<rparr>) \<noteq> Done r)"

lemma heap_start_ok: "ke_ok False s \<Longrightarrow> kheap_ok (heap_start m s) Map.empty"
  unfolding kheap_ok_def heap_rep_def
  by (intro exI [of _ "[]"]) (simp add: good_def heap_ok_def layout_ok_def heap_start_def owned_def blocks_def)

lemma kheap_env: "kheap_ok h B \<Longrightarrow> ke_ok False (la_env h)"
  by (auto simp: kheap_ok_def heap_rep_def good_def)

lemma kernel_no_pages: "no_pages kernel_hooks (n + 32) ((la_env h)\<lparr>ke_lock := 1\<rparr>) \<longleftrightarrow> out_of_pages n h"
  by (simp add: no_pages_def out_of_pages_def kernel_hooks_def)

lemma kernel_lock: "kheap_ok h B \<Longrightarrow> hk_lock kernel_hooks (la_env h) = Done s \<longleftrightarrow> s = (la_env h)\<lparr>ke_lock := 1\<rparr>"
  using compat_lock_ok [OF kheap_env] by (auto simp: kernel_hooks_def)

lemma kmalloc_cases:
  assumes "kheap_ok h B" "unat n < kheap_limit"
  shows "(\<exists>p h'. kmalloc n h = Done (p, h') \<and> p \<noteq> 0 \<and> B p = None \<and> kheap_ok h' (B(p \<mapsto> unat n)) \<and> bytes_kept B h h') \<or>
    out_of_pages n h \<and> (\<forall>r. kmalloc n h \<noteq> Done r)"
  using kh.supply_malloc [OF assms(1) [unfolded kheap_ok_def], of n] assms(2)
  by (simp add: kheap_limit_def kernel_lock [OF assms(1)] kernel_no_pages kmalloc_def kheap_ok_def)

lemma kfree_cases:
  assumes "kheap_ok h B" "B p = Some n"
  shows "\<exists>h'. kfree p h = Done h' \<and> kheap_ok h' (B(p := None)) \<and> bytes_kept (B(p := None)) h h' \<and>
    l_errorCount h' = l_errorCount h \<and>
    (l_allocated h' = l_allocated h \<longrightarrow> (\<exists>h''. kfree p h' = Done h'' \<and> kheap_ok h'' (B(p := None)) \<and>
       la_mem h'' = la_mem h' \<and> l_errorCount h'' = l_errorCount h' + 1))"
  using kh.free_rep [OF assms(1) [unfolded kheap_ok_def] assms(2)] by (simp add: kfree_def kheap_ok_def)

lemma krealloc_cases:
  assumes h: "kheap_ok h B" and p: "B p = Some k" and n: "n \<noteq> 0" "unat n < kheap_limit"
  shows "(\<exists>q h'. krealloc p n h = Done (q, h') \<and> q \<noteq> 0 \<and> (q = p \<or> B q = None) \<and> (unat n \<le> k \<longrightarrow> q = p) \<and>
      kheap_ok h' ((B(p := None))(q \<mapsto> unat n)) \<and> bytes_kept (B(p := None)) h h' \<and>
      (\<forall>i<min k (unat n). la_mem h' (q + of_nat i) = la_mem h (p + of_nat i))) \<or> k < unat n \<and> out_of_pages n h \<and> (\<forall>r. krealloc p n h \<noteq> Done r)"
proof (cases "unat n \<le> k")
  case True
  from kh.realloc_shrink [OF h [unfolded kheap_ok_def] p n(1) True] obtain h' where
    *: "krealloc p n h = Done (p, h')" "kheap_ok h' (B(p \<mapsto> unat n))" "bytes_kept B h h'"
    by (auto simp: krealloc_def kheap_ok_def)
  moreover have "bytes_kept (B(p := None)) h h'" by (rule bytes_kept_mono [OF *(3)]) (simp add: map_le_def)
  moreover have "p \<noteq> 0" using rep_block(1) [OF h [unfolded kheap_ok_def] p] .
  moreover have "\<forall>i<k. la_mem h' (p + of_nat i) = la_mem h (p + of_nat i)" using *(3) p unfolding bytes_kept_def by blast
  ultimately show ?thesis using True by (intro disjI1 exI [of _ p] exI [of _ h']) simp
next
  case False
  have e: "(la_env h)\<lparr>ke_lock := 1, ke_lock := 0\<rparr> = la_env h" using kheap_env [OF h] by (simp add: ke_ok_def)
  have "(\<exists>s1 s2 s3. hk_lock kernel_hooks (la_env h) = Done s1 \<and> hk_unlock kernel_hooks s1 = Done s2 \<and>
      hk_lock kernel_hooks s2 = Done s3 \<and> no_pages kernel_hooks (n + 32) s3 \<and>
      (\<forall>r. liballoc_realloc kernel_hooks p n h \<noteq> Done r)) \<longleftrightarrow> out_of_pages n h \<and> (\<forall>r. krealloc p n h \<noteq> Done r)"
    using kernel_lock [OF h] by (simp add: kernel_hooks_def compat_unlock_ok e krealloc_def flip: kernel_no_pages)
  with kh.supply_grow [OF h [unfolded kheap_ok_def] p, of n] False n(2) show ?thesis
    by (simp add: kheap_limit_def krealloc_def kheap_ok_def min_absorb1) blast
qed

lemma kcalloc_cases:
  assumes h: "kheap_ok h B" and n: "unat n < kheap_limit"
  shows "(\<exists>p h'. kcalloc n h = Done (p, h') \<and> p \<noteq> 0 \<and> B p = None \<and> kheap_ok h' (B(p \<mapsto> unat n)) \<and> bytes_kept B h h' \<and>
    (\<forall>i<unat n. la_mem h' (p + of_nat i) = 0)) \<or> out_of_pages n h \<and> (\<forall>r. kcalloc n h \<noteq> Done r)"
  using kmalloc_cases [OF assms]
proof (elim disjE exE conjE)
  fix p h'
  assume m: "kmalloc n h = Done (p, h')" "p \<noteq> 0" "B p = None" "kheap_ok h' (B(p \<mapsto> unat n))" "bytes_kept B h h'"
  let ?h = "h'\<lparr>la_mem := memset_loop 0 (unat n) (la_mem h') p\<rparr>"
  note f = rep_fill [OF m(4) [unfolded kheap_ok_def], of p "unat n" 0, simplified]
  have "bytes_kept B h' ?h" by (rule bytes_kept_mono [OF f(2)]) (use m(3) in \<open>auto simp: map_le_def\<close>)
  with m(5) have "bytes_kept B h ?h" by (rule bytes_kept_trans)
  moreover have "fst (memset (la_mem h') p 0 n) = memset_loop 0 (unat n) (la_mem h') p"
    by (auto simp: memset_def unat_eq_0 [symmetric])
  then have "kcalloc n h = Done (p, ?h)" using m(1,2) by (simp add: kcalloc_def kmalloc_def write_ptr_def)
  ultimately show ?thesis using m(2,3) f(1,3) by (auto simp: kheap_ok_def)
next
  assume o: "out_of_pages n h" and f: "\<forall>r. kmalloc n h \<noteq> Done r"
  have "kcalloc n h \<noteq> Done r" for r using f by (cases "kmalloc n h") (auto simp: kcalloc_def kmalloc_def)
  with o show ?thesis by blast
qed

text \<open>
  \<^verbatim>\<open>calloc\<close> of \<^verbatim>\<open>ansi/stdlib.c\<close> as the kernel compiles it. It multiplies without a check: with a
  product that wraps around it returns a block smaller than what was asked for.
\<close>

definition calloc :: "u64 \<Rightarrow> u64 \<Rightarrow> kheap \<Rightarrow> (u64 \<times> kheap) outcome" where
  "calloc nmemb sz h =
     bind_o (kmalloc (nmemb * sz) h) (\<lambda>(ptr, h).
     write_ptr ptr (nmemb * sz) (Done (ptr, h\<lparr>la_mem := fst (memset (la_mem h) ptr 0 (nmemb * sz))\<rparr>)))"

lemma calloc_kcalloc: "calloc nmemb sz h = kcalloc (nmemb * sz) h"
  by (simp add: calloc_def kcalloc_def kmalloc_def)

lemma calloc_wraps:
  assumes "kheap_ok h B" "calloc 0x8000000000000010 2 h = Done (p, h')"
  shows "kheap_ok h' (B(p \<mapsto> 32))"
proof -
  have n: "unat (32 :: u64) < kheap_limit" by (simp add: kheap_limit_def)
  have "(0x8000000000000010 :: u64) * 2 = 32" by (simp add: word_unat_eq_iff unat_word_ariths)
  then have "kcalloc 32 h = Done (p, h')" using assms(2) by (simp only: calloc_kcalloc)
  with kcalloc_cases [OF assms(1) n] show ?thesis by auto
qed

section \<open>Every use of the heap\<close>

text \<open>
  The states the heap and its callers can get into: requests, releases of blocks that are owned,
  writes inside them, and whatever the rest of the kernel does outside the pages of the heap, as
  long as it frees none of them.
\<close>

inductive heap_run :: "kheap \<Rightarrow> (u64 \<Rightarrow> nat option) \<Rightarrow> bool" where
  start: "ke_ok False s \<Longrightarrow> heap_run (heap_start m s) Map.empty"
| kmalloc: "heap_run h B \<Longrightarrow> unat n < kheap_limit \<Longrightarrow> kmalloc n h = Done (p, h') \<Longrightarrow> heap_run h' (B(p \<mapsto> unat n))"
| kcalloc: "heap_run h B \<Longrightarrow> unat n < kheap_limit \<Longrightarrow> kcalloc n h = Done (p, h') \<Longrightarrow> heap_run h' (B(p \<mapsto> unat n))"
| krealloc: "heap_run h B \<Longrightarrow> B p = Some k \<Longrightarrow> n \<noteq> 0 \<Longrightarrow> unat n < kheap_limit \<Longrightarrow> krealloc p n h = Done (q, h') \<Longrightarrow>
    heap_run h' ((B(p := None))(q \<mapsto> unat n))"
| kfree: "heap_run h B \<Longrightarrow> B p = Some k \<Longrightarrow> kfree p h = Done h' \<Longrightarrow> heap_run h' (B(p := None))"
| use: "heap_run h B \<Longrightarrow> B p = Some k \<Longrightarrow> i < k \<Longrightarrow> heap_run (h\<lparr>la_mem := (la_mem h)(p + of_nat i := v)\<rparr>) B"
| other: "heap_run h B \<Longrightarrow> ke_ok False s \<Longrightarrow> (\<And>x. ke_owns (la_env h) x \<Longrightarrow> ke_owns s x \<and> m x = la_mem h x) \<Longrightarrow>
    heap_run (h\<lparr>la_mem := m, la_env := s\<rparr>) B"

lemma kheap_other:
  assumes h: "kheap_ok h B" and s: "ke_ok False s" and m: "\<And>x. ke_owns (la_env h) x \<Longrightarrow> ke_owns s x \<and> m x = la_mem h x"
  shows "kheap_ok (h\<lparr>la_mem := m, la_env := s\<rparr>) B"
proof -
  let ?h = "h\<lparr>la_mem := m, la_env := s\<rparr>"
  obtain Rs where g: "good (ke_ok False) ke_owns h Rs" "blocks Rs = B" using h by (auto simp: kheap_ok_def heap_rep_def)
  then have lay: "layout_ok Rs" and own: "owned ke_owns (la_env h) Rs" by (simp_all add: good_def heap_ok_def)
  have "mseg ?h 0 Rs 0 = mseg h 0 Rs 0"
    using lay own m by (intro mseg_cong region_in_cong) (auto simp: layout_ok_def owned_def)
  moreover have "owned ke_owns s Rs" using own m by (auto simp: owned_def)
  ultimately have "good (ke_ok False) ke_owns ?h Rs" using g(1) s by (simp add: good_def heap_ok_def)
  with g(2) show ?thesis by (auto simp: kheap_ok_def heap_rep_def)
qed

lemma kheap_write:
  assumes h: "kheap_ok h B" and p: "B p = Some k" and i: "i < k"
  shows "kheap_ok (h\<lparr>la_mem := (la_mem h)(p + of_nat i := v)\<rparr>) B"
    "bytes_kept (B(p := None)) h (h\<lparr>la_mem := (la_mem h)(p + of_nat i := v)\<rparr>)"
proof -
  note h = h [unfolded kheap_ok_def]
  have out: "((la_mem h)(p + of_nat i := v)) x = la_mem h x" if "\<not> inside p k x" for x
    using that rep_offset [OF h p i] i by (auto simp: inside_def)
  show "kheap_ok (h\<lparr>la_mem := (la_mem h)(p + of_nat i := v)\<rparr>) B"
    unfolding kheap_ok_def by (rule rep_write [OF h p out])
  show "bytes_kept (B(p := None)) h (h\<lparr>la_mem := (la_mem h)(p + of_nat i := v)\<rparr>)"
    by (rule bytes_kept_write [OF h p out])
qed

lemma heap_run_ok: "heap_run h B \<Longrightarrow> kheap_ok h B"
proof (induction rule: heap_run.induct)
  case (kmalloc h B n p h')
  from kmalloc_cases [OF kmalloc.IH kmalloc.hyps(2)] kmalloc.hyps(3) show ?case by (metis outcome.inject(1) prod.inject)
next
  case (kcalloc h B n p h')
  from kcalloc_cases [OF kcalloc.IH kcalloc.hyps(2)] kcalloc.hyps(3) show ?case by (metis outcome.inject(1) prod.inject)
next
  case (krealloc h B p k n q h')
  from krealloc_cases [OF krealloc.IH krealloc.hyps(2-4)] krealloc.hyps(5) show ?case by (metis outcome.inject(1) prod.inject)
next
  case (kfree h B p k h')
  from kfree_cases [OF kfree.IH kfree.hyps(2)] kfree.hyps(3) show ?case by (metis outcome.inject(1))
qed (simp_all add: heap_start_ok kheap_write kheap_other)

section \<open>A small machine\<close>

text \<open>128 free pages of memory, before the scheduler runs; the root of the page tables lies above them.\<close>

definition demo_pages :: pmm where
  "demo_pages = \<lparr>bitmap = 0xffff800000100000, bm = (\<lambda>i. if i < 16 then 0 else 0xff), bitmap_size = 128, usable_pages = 128,
     last_page = 0, pmm_lock = 0\<rparr>"

definition demo_env :: kernel_env where
  "demo_env = \<lparr>ke_lock = 0, ke_sched = \<lparr>processes = vec_init, pheap = Map.empty, tick = 0, sched_lock = 0, usertask_lock = 0,
     current_pid = 0, last_pid = 0, sched_is_init = False, is_scheduler = False, gs_base = 0, kern_gs_base = 0, kfreed = [],
     ipc_mem = (\<lambda>_. \<lparr>ipc_sender = 0, ipc_receiver = 0, ipc_data = 0\<rparr>), console = [],
     vm = \<lparr>tables = (\<lambda>_ _. 0), kernel_pml4 = 0xffff800000101000, vmm_lock = 0, vm_pmm = demo_pages, invlpg = [], cr3 = 0\<rparr>\<rparr>\<rparr>"

abbreviation demo_heap :: kheap where
  "demo_heap \<equiv> heap_start (\<lambda>_. 0) demo_env"

lemma demo_heap_ok: "kheap_ok demo_heap Map.empty"
  by (rule heap_start_ok) (simp add: ke_ok_def demo_env_def demo_pages_def pmm_ok_def)

lemma demo_page_free:
  assumes "j < 128"
  shows "\<not> is_set_pmm demo_pages (of_nat j)"
proof -
  have "unat ((of_nat j :: u64) div 8) = j div 8" using assms by (simp add: unat_div unat_of_nat_less)
  moreover have "j div 8 < 16" using assms by (simp add: less_mult_imp_div_less)
  ultimately show ?thesis by (simp add: is_set_pmm_def demo_pages_def word_less_nat_alt)
qed

lemma demo_fit: "first_fit demo_pages 0 16 = Some 0"
proof -
  have "[0..<Suc 128 - 16] = 0 # [1..<113]" by (simp add: upt_conv_Cons)
  moreover have "free_run demo_pages 0 16" by (simp add: free_run_iff demo_page_free)
  moreover have "unat (bitmap_size demo_pages) = 128" by (simp add: demo_pages_def)
  ultimately show ?thesis by (simp add: first_fit_def)
qed

abbreviation demo_taken :: pmm where
  "demo_taken \<equiv> pmm_range_used (pages_range 0 16) (demo_pages\<lparr>last_page := 16\<rparr>)"

lemma demo_enough: "enough 48 demo_taken"
proof -
  have "is_set_pmm (demo_pages\<lparr>last_page := 16\<rparr>) j = is_set_pmm demo_pages j" for j by (simp add: is_set_pmm_def)
  then have "\<not> is_set_pmm demo_taken (of_nat j)" if "16 \<le> j" "j < 128" for j
    using that by (simp add: demo_page_free in_pages_range unat_of_nat_less)
  moreover have "unat (last_page demo_taken) = 16" "unat (bitmap_size demo_taken) = 128" by (simp_all add: demo_pages_def)
  ultimately have "reachable_free demo_taken = [16..<128]"
    unfolding reachable_free_def by (metis (no_types, lifting) atLeastLessThan_iff filter_True set_upt)
  then have "length (reachable_free demo_taken) = 128 - 16" by (simp only: length_upt)
  moreover have "usable_pages demo_taken = 112" using pages_range_fields(2) [of 0 16] by (simp add: demo_pages_def)
  moreover have "pmm_ok demo_taken" by (simp add: demo_pages_def pmm_ok_def)
  ultimately show ?thesis by (simp only: enough_def) simp
qed

lemma demo_root: "vm_ok ((vm (ke_sched demo_env))\<lparr>vm_pmm := demo_taken\<rparr>) (get_kernel_space (vm (ke_sched demo_env)))"
proof -
  have "is_set_pmm demo_pages 257" by (simp add: is_set_pmm_def demo_pages_def)
  moreover have "is_set_pmm (demo_pages\<lparr>last_page := 16\<rparr>) j = is_set_pmm demo_pages j" for j by (simp add: is_set_pmm_def)
  ultimately have "is_set_pmm demo_taken 257" by simp
  then show ?thesis
    by (simp add: vm_ok_def vm_tree_def tables_used_def path_table_zero demo_env_def get_kernel_space_def pmm_ok_def
        mmap_io_to_phys_def MMAP_IO_BASE_def PAGE_SIZE_def) (simp add: demo_pages_def)
qed

lemma demo_alloc: "pmm_alloc 65536 demo_pages = Done (pages_range 0 16, demo_taken)"
proof -
  have "need_pages 65536 = 16" by (simp add: need_pages_def)
  then show ?thesis using pmm_alloc_eq [of demo_pages 65536] demo_fit by (simp add: demo_pages_def)
qed

lemma liballoc_alloc_progress:
  assumes "\<not> is_sched_init (ke_sched s)" "vmm_lock (vm (ke_sched s)) = 0"
    and "pmm_alloc (scast (c * 4096)) (ke_pmm s) = Done (r, pm)" "rlength r \<noteq> 0"
    and "vm_ok ((vm (ke_sched s))\<lparr>vm_pmm := pm\<rparr>) (get_kernel_space (vm (ke_sched s)))"
    and "enough (tables_for (unat (rlength r div PAGE_SIZE))) pm"
  shows "\<exists>v. liballoc_alloc c s = Done v"
proof -
  let ?t = "get_kernel_space (vm (ke_sched s))" and ?s = "(vm (ke_sched s))\<lparr>vm_pmm := pm\<rparr>"
  have "\<exists>v. vmm_map_range ?t \<lparr>rbase = mmap_phys_to_io (rbase r), rlength = rlength r\<rparr> r True ?s = Done v"
    using scattered.map_range_progress [of ?s ?t "\<lparr>rbase = mmap_phys_to_io (rbase r), rlength = rlength r\<rparr>" 0 r True]
      assms(2,5,6) by auto
  then show ?thesis
    using assms(1,3,4) by (auto simp: liballoc_alloc_def arch_pmm_alloc_def call_pmm_alloc_def arch_vmm_map_def word_gt_0)
qed

lemma demo_has_pages: "\<not> out_of_pages 100 demo_heap"
proof -
  let ?s = "demo_env\<lparr>ke_lock := 1\<rparr>"
  have c: "page_count (ucast (100 + 32 :: u64)) = 16"
    by (simp add: page_count_def sizeof_major_def sizeof_minor_def l_pageSize_def l_pageCount_def Let_def)
  have r: "unat (rlength (pages_range 0 16) div PAGE_SIZE) = 16" "rlength (pages_range 0 16) \<noteq> 0"
    by (simp_all add: pages_range_def PAGE_SIZE_def)
  have "\<exists>v. liballoc_alloc 16 ?s = Done v"
    by (rule liballoc_alloc_progress [of ?s 16 "pages_range 0 16" demo_taken])
      (use demo_alloc demo_enough demo_root r in \<open>simp_all add: demo_env_def is_sched_init_def tables_for_def enough_def\<close>)
  then show ?thesis using c by (auto simp: out_of_pages_def heap_start_def)
qed

section \<open>Properties\<close>

text \<open>
  C5: in every state that calls of \<^verbatim>\<open>kmalloc\<close>, \<^verbatim>\<open>kcalloc\<close>, \<^verbatim>\<open>krealloc\<close> and \<^verbatim>\<open>kfree\<close>, writes inside
  owned blocks and the rest of the kernel can reach, every owned block is aligned to 16 bytes, lies in
  used pages of the kernel's window on memory, and has no byte in common with another owned block.
\<close>

theorem kheap_invariant:
  assumes "heap_run h B"
  shows "\<forall>p n. B p = Some n \<longrightarrow> p \<noteq> 0 \<and> unat p mod 16 = 0 \<and> unat p + n < 2 ^ 64 \<and>
    (\<forall>i<n. MMAP_IO_BASE \<le> p + of_nat i \<and> byte_used (vm_pmm (vm (ke_sched (la_env h)))) (p + of_nat i)) \<and>
    (\<forall>q m. B q = Some m \<and> q \<noteq> p \<longrightarrow> unat p + n \<le> unat q \<or> unat q + m \<le> unat p)"
proof -
  have h: "heap_rep (ke_ok False) ke_owns h B" using heap_run_ok [OF assms] by (simp add: kheap_ok_def)
  show ?thesis using rep_block [OF h] rep_apart [OF h] by (metis ke_owns_def)
qed

theorem kheap_invariant_witness:
  "\<exists>p h q h'. kmalloc 100 demo_heap = Done (p, h) \<and> krealloc p 60 h = Done (q, h') \<and> unat q mod 16 = 0 \<and> MMAP_IO_BASE \<le> q"
proof -
  have n: "unat (100 :: u64) < kheap_limit" "unat (60 :: u64) < kheap_limit" by (simp_all add: kheap_limit_def)
  have s: "heap_run demo_heap Map.empty"
    by (rule heap_run.start) (simp add: ke_ok_def demo_env_def demo_pages_def pmm_ok_def)
  obtain p h where m: "kmalloc 100 demo_heap = Done (p, h)" "kheap_ok h [p \<mapsto> 100]"
    using kmalloc_cases [OF demo_heap_ok n(1)] demo_has_pages by auto
  obtain q h' where r: "krealloc p 60 h = Done (q, h')" using krealloc_cases [OF m(2) _ _ n(2), of p 100] by auto
  have "heap_run h [p \<mapsto> 100]" using heap_run.kmalloc [OF s n(1) m(1)] by simp
  then have "heap_run h' (([p \<mapsto> 100])(p := None, q \<mapsto> unat (60 :: u64)))" by (rule heap_run.krealloc [OF _ _ _ n(2) r]) simp_all
  from kheap_invariant [OF this] have "unat q mod 16 = 0" "\<forall>i<60. MMAP_IO_BASE \<le> q + of_nat i" by auto
  then show ?thesis using m(1) r by (auto dest: spec [of _ 0])
qed

text \<open>
  C6: \<^verbatim>\<open>kmalloc\<close> always comes to an end unless the page allocator does not: it returns a block that
  was not owned, and every owned block keeps its bytes.
\<close>

theorem kmalloc_returns:
  assumes "kheap_ok h B" "unat n < kheap_limit"
  shows "(\<exists>p h'. kmalloc n h = Done (p, h') \<and> p \<noteq> 0 \<and> B p = None \<and> kheap_ok h' (B(p \<mapsto> unat n)) \<and> bytes_kept B h h') \<or>
    out_of_pages n h \<and> (\<forall>r. kmalloc n h \<noteq> Done r)"
  by (rule kmalloc_cases [OF assms])

theorem kmalloc_returns_witness:
  "\<exists>p h'. kmalloc 100 demo_heap = Done (p, h') \<and> p \<noteq> 0 \<and> kheap_ok h' [p \<mapsto> 100]"
  using kmalloc_returns [OF demo_heap_ok, of 100] demo_has_pages by (auto simp: kheap_limit_def)

text \<open>
  C24: a block that is allocated and released again leaves the heap with the blocks it had, and their
  bytes; the release of an owned block is never refused.
\<close>

theorem kmalloc_kfree_roundtrip:
  assumes "kheap_ok h B" "unat n < kheap_limit" "kmalloc n h = Done (p, h')"
  shows "\<exists>h''. kfree p h' = Done h'' \<and> kheap_ok h'' B \<and> bytes_kept B h h'' \<and> l_errorCount h'' = l_errorCount h'"
proof -
  obtain m: "B p = None" "kheap_ok h' (B(p \<mapsto> unat n))" "bytes_kept B h h'"
    using kmalloc_cases [OF assms(1,2)] assms(3) by (elim disjE exE conjE) simp_all
  from kfree_cases [OF m(2), of p "unat n"] obtain h'' where
    f: "kfree p h' = Done h''" "kheap_ok h'' ((B(p \<mapsto> unat n))(p := None))" "bytes_kept ((B(p \<mapsto> unat n))(p := None)) h' h''"
      "l_errorCount h'' = l_errorCount h'" by auto
  have e: "(B(p \<mapsto> unat n))(p := None) = B" using m(1) by auto
  show ?thesis using f bytes_kept_trans [OF m(3)] unfolding e by blast
qed

theorem kmalloc_kfree_roundtrip_witness:
  "\<exists>p h' h''. kmalloc 100 demo_heap = Done (p, h') \<and> kfree p h' = Done h'' \<and> kheap_ok h'' Map.empty"
proof -
  have n: "unat (100 :: u64) < kheap_limit" by (simp add: kheap_limit_def)
  obtain p h' where m: "kmalloc 100 demo_heap = Done (p, h')" using kmalloc_cases [OF demo_heap_ok n] demo_has_pages by auto
  from kmalloc_kfree_roundtrip [OF demo_heap_ok n m] m show ?thesis by blast
qed



lemma kfree_twice:
  assumes "kheap_ok h B" "B p = Some n" "kfree p h = Done h'" "l_allocated h' = l_allocated h"
  shows "\<exists>h''. kfree p h' = Done h'' \<and> kheap_ok h'' (B(p := None)) \<and> la_mem h'' = la_mem h' \<and>
    l_errorCount h'' = l_errorCount h' + 1"
  using kfree_cases [OF assms(1,2)] assms(3,4) by auto

text \<open>
  C23: \<^verbatim>\<open>krealloc\<close> keeps the block where it is when it does not grow; otherwise the bytes of the block
  move to a block that was not owned, and the old one is released. In both cases the bytes up to the smaller
  size and the bytes of every other block are as they were.
\<close>

theorem krealloc_keeps_bytes:
  assumes "kheap_ok h B" "B p = Some k" "n \<noteq> 0" "unat n < kheap_limit"
  shows "(\<exists>q h'. krealloc p n h = Done (q, h') \<and> q \<noteq> 0 \<and> (q = p \<or> B q = None) \<and> (unat n \<le> k \<longrightarrow> q = p) \<and>
      kheap_ok h' ((B(p := None))(q \<mapsto> unat n)) \<and> bytes_kept (B(p := None)) h h' \<and>
      (\<forall>i<min k (unat n). la_mem h' (q + of_nat i) = la_mem h (p + of_nat i))) \<or>
    k < unat n \<and> out_of_pages n h \<and> (\<forall>r. krealloc p n h \<noteq> Done r)"
  by (rule krealloc_cases [OF assms])

theorem krealloc_keeps_bytes_witness:
  "\<exists>p h h'. kmalloc 100 demo_heap = Done (p, h) \<and> krealloc p 60 h = Done (p, h') \<and>
     (\<forall>i<60. la_mem h' (p + of_nat i) = la_mem h (p + of_nat i))"
proof -
  obtain p h where m: "kmalloc 100 demo_heap = Done (p, h)" "kheap_ok h [p \<mapsto> 100]"
    using kmalloc_cases [OF demo_heap_ok, of 100] demo_has_pages by (auto simp: kheap_limit_def)
  from krealloc_keeps_bytes [OF m(2), of p 100 60] m(1) show ?thesis by (auto simp: kheap_limit_def)
qed

text \<open>C27: a block of \<^verbatim>\<open>kcalloc\<close> is a new block whose bytes are all zero; every owned block keeps its bytes.\<close>

theorem kcalloc_zeroed:
  assumes "kheap_ok h B" "unat n < kheap_limit"
  shows "(\<exists>p h'. kcalloc n h = Done (p, h') \<and> p \<noteq> 0 \<and> B p = None \<and> kheap_ok h' (B(p \<mapsto> unat n)) \<and> bytes_kept B h h' \<and>
    (\<forall>i<unat n. la_mem h' (p + of_nat i) = 0)) \<or> out_of_pages n h \<and> (\<forall>r. kcalloc n h \<noteq> Done r)"
  by (rule kcalloc_cases [OF assms])

theorem kcalloc_zeroed_witness:
  "\<exists>p h'. kcalloc 100 demo_heap = Done (p, h') \<and> kheap_ok h' [p \<mapsto> 100] \<and> la_mem h' (p + 99) = 0"
proof -
  have "unat (100 :: u64) < kheap_limit" by (simp add: kheap_limit_def)
  from kcalloc_zeroed [OF demo_heap_ok this] demo_has_pages show ?thesis by (auto dest: spec [of _ 99])
qed



text \<open>
  C28: the copy loop of the allocator, which moves four bytes at a time, is the byte loop of
  \<^verbatim>\<open>memcpy\<close> whenever no byte is written before it is read, in particular on disjoint blocks.
\<close>

theorem liballoc_memcpy_is_memcpy:
  assumes "src \<noteq> 0" "\<forall>l<unat n. \<forall>j<l. dest + of_nat j \<noteq> src + of_nat l"
  shows "liballoc_memcpy dest src n m = fst (memcpy m dest src n)"
  using copy_loop_forward [of dest src n m] assms by (simp add: memcpy_def forward_def)

theorem liballoc_memcpy_is_memcpy_witness:
  "liballoc_memcpy 32 8 6 (\<lambda>x. ucast x) = fst (memcpy (\<lambda>x. ucast x) 32 8 6)"
proof (rule liballoc_memcpy_is_memcpy)
  show "\<forall>l<unat (6 :: u64). \<forall>j<l. 32 + of_nat j \<noteq> (8 :: u64) + of_nat l"
  proof (intro allI impI)
    fix l j :: nat
    assume "l < unat (6 :: u64)" "j < l"
    then have "unat (32 + of_nat j :: u64) = 32 + j" "unat (8 + of_nat l :: u64) = 8 + l"
      by (subst unat_add_less; simp add: unat_of_nat_less)+
    moreover have "32 + j \<noteq> 8 + l" using \<open>l < unat (6 :: u64)\<close> by simp
    ultimately show "32 + of_nat j \<noteq> (8 :: u64) + of_nat l" by metis
  qed
qed simp

end
