(* ===== verification/Navy_Ubsan.thy ===== *)
theory Navy_Ubsan
  imports Navy_Console
begin

text \<open>
  The handlers of the undefined-behaviour sanitizer, \<^verbatim>\<open>kernel/tinyubsan.c\<close>. The compiler calls
  them with a structure it has laid out for the place of the error; each handler prints one line
  that names the error and the place, and returns to the code that went wrong. A pointer to a
  string is the string, a pointer to a structure the structure.
\<close>

section \<open>The data of a report\<close>

record tu_source_location =
  loc_file :: "u8 list"
  loc_line :: u32
  loc_column :: u32

record tu_type_descriptor =
  ty_kind :: u16
  ty_info :: u16
  ty_name :: "u8 list"

record tu_overflow_data =
  ov_location :: tu_source_location
  ov_type :: tu_type_descriptor

record tu_shift_out_of_bounds_data =
  sh_location :: tu_source_location
  sh_left_type :: tu_type_descriptor
  sh_right_type :: tu_type_descriptor

record tu_invalid_value_data =
  iv_location :: tu_source_location
  iv_type :: tu_type_descriptor

record tu_array_out_of_bounds_data =
  ar_location :: tu_source_location
  ar_array_type :: tu_type_descriptor
  ar_index_type :: tu_type_descriptor

record tu_type_mismatch_v1_data =
  tm_location :: tu_source_location
  tm_type :: tu_type_descriptor
  tm_log_alignment :: u8
  tm_type_check_kind :: u8

record tu_negative_vla_data =
  vla_location :: tu_source_location
  vla_type :: tu_type_descriptor

record tu_nonnull_return_data =
  nr_location :: tu_source_location

record tu_nonnull_arg_data =
  na_location :: tu_source_location

record tu_unreachable_data =
  un_location :: tu_source_location

record tu_invalid_builtin_data =
  ib_location :: tu_source_location
  ib_kind :: u8

section \<open>The handlers\<close>

definition tu_print_location :: "device \<Rightarrow> u8 list \<Rightarrow> tu_source_location \<Rightarrow> machine \<Rightarrow> machine outcome" where
  "tu_print_location dev message loc k =
     print_format dev (27 # cstring ''[31mTinyUBsan'' @ 27 # cstring ''[0m: {} at file {}, line {}, column {}'' @ [10])
       [fmtvals message, fmtvals (loc_file loc), fmtvald (ucast (loc_line loc)), fmtvald (ucast (loc_column loc))] k"

definition ubsan_handle_add_overflow :: "device \<Rightarrow> tu_overflow_data \<Rightarrow> machine \<Rightarrow> machine outcome" where
  "ubsan_handle_add_overflow dev data = tu_print_location dev (cstring ''addition overflow'') (ov_location data)"

definition ubsan_handle_sub_overflow :: "device \<Rightarrow> tu_overflow_data \<Rightarrow> machine \<Rightarrow> machine outcome" where
  "ubsan_handle_sub_overflow dev data = tu_print_location dev (cstring ''subtraction overflow'') (ov_location data)"

definition ubsan_handle_mul_overflow :: "device \<Rightarrow> tu_overflow_data \<Rightarrow> machine \<Rightarrow> machine outcome" where
  "ubsan_handle_mul_overflow dev data = tu_print_location dev (cstring ''multiplication overflow'') (ov_location data)"

definition ubsan_handle_divrem_overflow :: "device \<Rightarrow> tu_overflow_data \<Rightarrow> machine \<Rightarrow> machine outcome" where
  "ubsan_handle_divrem_overflow dev data = tu_print_location dev (cstring ''division overflow'') (ov_location data)"

definition ubsan_handle_negate_overflow :: "device \<Rightarrow> tu_overflow_data \<Rightarrow> machine \<Rightarrow> machine outcome" where
  "ubsan_handle_negate_overflow dev data = tu_print_location dev (cstring ''negation overflow'') (ov_location data)"

definition ubsan_handle_pointer_overflow :: "device \<Rightarrow> tu_overflow_data \<Rightarrow> machine \<Rightarrow> machine outcome" where
  "ubsan_handle_pointer_overflow dev data = tu_print_location dev (cstring ''pointer overflow'') (ov_location data)"

definition ubsan_handle_shift_out_of_bounds ::
  "device \<Rightarrow> tu_shift_out_of_bounds_data \<Rightarrow> machine \<Rightarrow> machine outcome" where
  "ubsan_handle_shift_out_of_bounds dev data = tu_print_location dev (cstring ''shift out of bounds'') (sh_location data)"

definition ubsan_handle_load_invalid_value ::
  "device \<Rightarrow> tu_invalid_value_data \<Rightarrow> machine \<Rightarrow> machine outcome" where
  "ubsan_handle_load_invalid_value dev data = tu_print_location dev (cstring ''invalid load value'') (iv_location data)"

definition ubsan_handle_out_of_bounds ::
  "device \<Rightarrow> tu_array_out_of_bounds_data \<Rightarrow> machine \<Rightarrow> machine outcome" where
  "ubsan_handle_out_of_bounds dev data = tu_print_location dev (cstring ''array out of bounds'') (ar_location data)"

text \<open>
  The mask is computed as an \<^verbatim>\<open>int\<close> and extended with its sign; the compiler only gives
  alignments below $2^{31}$, for which the shift does not overflow.
\<close>

definition ubsan_handle_type_mismatch_v1 ::
  "device \<Rightarrow> tu_type_mismatch_v1_data \<Rightarrow> u64 \<Rightarrow> machine \<Rightarrow> machine outcome" where
  "ubsan_handle_type_mismatch_v1 dev data ptr =
     (if ptr = 0 then tu_print_location dev (cstring ''use of NULL pointer'') (tm_location data)
      else if ptr AND scast (push_bit (unat (tm_log_alignment data)) 1 - 1 :: u32) \<noteq> 0
      then tu_print_location dev (cstring ''use of misaligned pointer'') (tm_location data)
      else tu_print_location dev (cstring ''no space for object'') (tm_location data))"

definition ubsan_handle_vla_bound_not_positive ::
  "device \<Rightarrow> tu_negative_vla_data \<Rightarrow> machine \<Rightarrow> machine outcome" where
  "ubsan_handle_vla_bound_not_positive dev data =
     tu_print_location dev (cstring ''variable-length argument is negative'') (vla_location data)"

definition ubsan_handle_nonnull_return ::
  "device \<Rightarrow> tu_nonnull_return_data \<Rightarrow> machine \<Rightarrow> machine outcome" where
  "ubsan_handle_nonnull_return dev data = tu_print_location dev (cstring ''non-null return is null'') (nr_location data)"

definition ubsan_handle_nonnull_arg ::
  "device \<Rightarrow> tu_nonnull_arg_data \<Rightarrow> machine \<Rightarrow> machine outcome" where
  "ubsan_handle_nonnull_arg dev data = tu_print_location dev (cstring ''non-null argument is null'') (na_location data)"

definition ubsan_handle_builtin_unreachable ::
  "device \<Rightarrow> tu_unreachable_data \<Rightarrow> machine \<Rightarrow> machine outcome" where
  "ubsan_handle_builtin_unreachable dev data = tu_print_location dev (cstring ''unreachable code reached'') (un_location data)"

definition ubsan_handle_invalid_builtin ::
  "device \<Rightarrow> tu_invalid_builtin_data \<Rightarrow> machine \<Rightarrow> machine outcome" where
  "ubsan_handle_invalid_builtin dev data = tu_print_location dev (cstring ''invalid builtin'') (ib_location data)"

lemmas ubsan_handlers = ubsan_handle_add_overflow_def ubsan_handle_sub_overflow_def
  ubsan_handle_mul_overflow_def ubsan_handle_divrem_overflow_def ubsan_handle_negate_overflow_def
  ubsan_handle_pointer_overflow_def ubsan_handle_shift_out_of_bounds_def ubsan_handle_load_invalid_value_def
  ubsan_handle_out_of_bounds_def ubsan_handle_vla_bound_not_positive_def ubsan_handle_nonnull_return_def
  ubsan_handle_nonnull_arg_def ubsan_handle_builtin_unreachable_def ubsan_handle_invalid_builtin_def

section \<open>What they print\<close>

lemma mode_plain: "mode_of (125 # ys) = 0"
  by (simp add: mode_of_def)

lemma value_text_plain:
  "value_text 0 (fmtvals s) = s" "value_text 0 (fmtvald (ucast (w :: u32))) = radix_string 10 (unat w)"
proof -
  have w: "uint w < 2 ^ 32" using unsigned_less [of w, where 'a = int] by simp
  have "- (2 ^ 63) \<le> uint w" by (rule order_trans [of _ 0]) simp_all
  from signed_take_bit_int_eq_self [OF this] w have "signed_take_bit 63 (uint w) = uint w" by simp
  with w have "sint (ucast w :: u64) = int (unat w)"
    by (simp add: sint_uint unsigned_ucast_eq take_bit_int_eq_self)
  then show "value_text 0 (fmtvald (ucast w)) = radix_string 10 (unat w)"
    by (simp add: value_text_def fmtvald_def decimal_mode_def number_text_def)
qed (simp add: value_text_def fmtvals_def)

definition location_text :: "u8 list \<Rightarrow> tu_source_location \<Rightarrow> u8 list" where
  "location_text message loc =
     27 # cstring ''[31mTinyUBsan'' @ 27 # cstring ''[0m: '' @ message @ cstring '' at file '' @ loc_file loc @
     cstring '', line '' @ radix_string 10 (unat (loc_line loc)) @
     cstring '', column '' @ radix_string 10 (unat (loc_column loc)) @ [10]"

definition short_string :: "u8 list \<Rightarrow> bool" where
  "short_string s \<longleftrightarrow> length s \<le> 200 \<and> 0 \<notin> set s"

lemma tu_print_location_prints:
  assumes "console_up dev k" "short_string message" "short_string (loc_file loc)"
  shows "\<exists>k'. tu_print_location dev message loc k = Done k' \<and> printed k (location_text message loc) k'"
proof -
  let ?f = "27 # cstring ''[31mTinyUBsan'' @ 27 # cstring ''[0m: {} at file {}, line {}, column {}'' @ [10]"
  let ?a = "[fmtvals message, fmtvals (loc_file loc), fmtvald (ucast (loc_line loc)), fmtvald (ucast (loc_column loc))]"
  have "fmt_text ?f ?a = location_text message loc"
    by (simp add: mode_plain value_text_plain location_text_def cstring_def)
  moreover have "line_ok (?f, ?a)"
    using assms(2,3) by (simp add: line_ok_def cstring_def fmtvald_short fmtvals_def short_string_def)
  ultimately show ?thesis using line_prints [OF assms(1), of "(?f, ?a)"] by (simp add: tu_print_location_def)
qed

text \<open>Every handler prints one line, with its own message, and changes nothing else.\<close>

lemma ubsan_handlers_print:
  assumes "console_up dev k"
  shows "short_string (loc_file (ov_location ov)) \<Longrightarrow>
      \<exists>k'. ubsan_handle_add_overflow dev ov k = Done k' \<and> printed k (location_text (cstring ''addition overflow'') (ov_location ov)) k'"
    "short_string (loc_file (ov_location ov)) \<Longrightarrow>
      \<exists>k'. ubsan_handle_sub_overflow dev ov k = Done k' \<and> printed k (location_text (cstring ''subtraction overflow'') (ov_location ov)) k'"
    "short_string (loc_file (ov_location ov)) \<Longrightarrow>
      \<exists>k'. ubsan_handle_mul_overflow dev ov k = Done k' \<and> printed k (location_text (cstring ''multiplication overflow'') (ov_location ov)) k'"
    "short_string (loc_file (ov_location ov)) \<Longrightarrow>
      \<exists>k'. ubsan_handle_divrem_overflow dev ov k = Done k' \<and> printed k (location_text (cstring ''division overflow'') (ov_location ov)) k'"
    "short_string (loc_file (ov_location ov)) \<Longrightarrow>
      \<exists>k'. ubsan_handle_negate_overflow dev ov k = Done k' \<and> printed k (location_text (cstring ''negation overflow'') (ov_location ov)) k'"
    "short_string (loc_file (ov_location ov)) \<Longrightarrow>
      \<exists>k'. ubsan_handle_pointer_overflow dev ov k = Done k' \<and> printed k (location_text (cstring ''pointer overflow'') (ov_location ov)) k'"
    "short_string (loc_file (sh_location sh)) \<Longrightarrow>
      \<exists>k'. ubsan_handle_shift_out_of_bounds dev sh k = Done k' \<and> printed k (location_text (cstring ''shift out of bounds'') (sh_location sh)) k'"
    "short_string (loc_file (iv_location iv)) \<Longrightarrow>
      \<exists>k'. ubsan_handle_load_invalid_value dev iv k = Done k' \<and> printed k (location_text (cstring ''invalid load value'') (iv_location iv)) k'"
    "short_string (loc_file (ar_location ar)) \<Longrightarrow>
      \<exists>k'. ubsan_handle_out_of_bounds dev ar k = Done k' \<and> printed k (location_text (cstring ''array out of bounds'') (ar_location ar)) k'"
    "short_string (loc_file (vla_location vla)) \<Longrightarrow>
      \<exists>k'. ubsan_handle_vla_bound_not_positive dev vla k = Done k' \<and>
        printed k (location_text (cstring ''variable-length argument is negative'') (vla_location vla)) k'"
    "short_string (loc_file (nr_location nr)) \<Longrightarrow>
      \<exists>k'. ubsan_handle_nonnull_return dev nr k = Done k' \<and> printed k (location_text (cstring ''non-null return is null'') (nr_location nr)) k'"
    "short_string (loc_file (na_location na)) \<Longrightarrow>
      \<exists>k'. ubsan_handle_nonnull_arg dev na k = Done k' \<and> printed k (location_text (cstring ''non-null argument is null'') (na_location na)) k'"
    "short_string (loc_file (un_location un)) \<Longrightarrow>
      \<exists>k'. ubsan_handle_builtin_unreachable dev un k = Done k' \<and> printed k (location_text (cstring ''unreachable code reached'') (un_location un)) k'"
    "short_string (loc_file (ib_location ib)) \<Longrightarrow>
      \<exists>k'. ubsan_handle_invalid_builtin dev ib k = Done k' \<and> printed k (location_text (cstring ''invalid builtin'') (ib_location ib)) k'"
  unfolding ubsan_handlers
  by (rule tu_print_location_prints [OF assms], simp add: short_string_def cstring_def, assumption)+

text \<open>The pointer is misaligned when it is not a multiple of the alignment.\<close>

lemma misaligned_iff:
  assumes "unat a < 31"
  shows "ptr AND scast (push_bit (unat a) 1 - 1 :: u32) = ptr mod (2 ^ unat a :: u64)"
proof -
  have "push_bit (unat a) 1 - 1 = (mask (unat a) :: u32)" by (simp add: mask_eq_exp_minus_1 push_bit_eq_mult)
  moreover have "scast (mask (unat a) :: u32) = (mask (unat a) :: u64)"
    using assms by (intro bit_word_eqI) (auto simp: bit_simps)
  ultimately show ?thesis by (simp add: take_bit_eq_mask [symmetric] take_bit_eq_mod)
qed

lemma type_mismatch_prints:
  assumes "console_up dev k" "short_string (loc_file (tm_location tm))" "tm_log_alignment tm < 31"
  shows "\<exists>k'. ubsan_handle_type_mismatch_v1 dev tm ptr k = Done k' \<and>
    printed k (location_text (if ptr = 0 then cstring ''use of NULL pointer''
      else if ptr mod 2 ^ unat (tm_log_alignment tm) \<noteq> 0 then cstring ''use of misaligned pointer''
      else cstring ''no space for object'') (tm_location tm)) k'"
proof -
  have al: "unat (tm_log_alignment tm) < 31" using assms(3) by (simp add: word_less_nat_alt)
  show ?thesis
    unfolding ubsan_handle_type_mismatch_v1_def misaligned_iff [OF al]
    using tu_print_location_prints [OF assms(1) _ assms(2)] by (simp add: short_string_def cstring_def)
qed

end
