(* ===== verification/Navy_Spaces.thy ===== *)
theory Navy_Spaces
  imports Navy_Pages
begin

text \<open>
  Address spaces side by side. \<^verbatim>\<open>vmm_space_create\<close> gives a new space the kernel's tables from
  top-level entry 255 on and nothing below: two spaces share tables only there. Mapping below
  entry 255 of one space therefore changes no translation of another, which is what separates
  the processes from one another and from the kernel.
\<close>

section \<open>Spaces apart\<close>

text \<open>\<open>own p\<close>: the path \<open>p\<close> leads to a table a space does not share with the kernel.\<close>

definition own :: "u64 list \<Rightarrow> bool" where
  "own p \<longleftrightarrow> p = [] \<or> hd p < 255"

definition apart :: "(u64 \<Rightarrow> u64 \<Rightarrow> u64) \<Rightarrow> u64 \<Rightarrow> u64 \<Rightarrow> bool" where
  "apart tb r r' \<longleftrightarrow>
     (\<forall>p q t. valid_path p \<and> valid_path q \<and> path_table tb r p = Some t \<and> path_table tb r' q = Some t \<longrightarrow>
        \<not> own p \<and> \<not> own q)"

text \<open>\<open>spaces s R\<close>: the roots in \<open>R\<close> are those of well-formed spaces, any two of them apart.\<close>

definition spaces :: "vmm \<Rightarrow> u64 set \<Rightarrow> bool" where
  "spaces s R \<longleftrightarrow> (\<forall>r\<in>R. vm_ok s r) \<and> (\<forall>r\<in>R. \<forall>r'\<in>R. r \<noteq> r' \<longrightarrow> apart (tables s) r r')"

text \<open>\<open>others_keep r R s s'\<close>: every space of \<open>R\<close> but \<open>r\<close> translates in \<open>s'\<close> as in \<open>s\<close>.\<close>

definition others_keep :: "u64 \<Rightarrow> u64 set \<Rightarrow> vmm \<Rightarrow> vmm \<Rightarrow> bool" where
  "others_keep r R s s' \<longleftrightarrow> (\<forall>r'\<in>R - {r}. \<forall>v. lookup (tables s') r' v = lookup (tables s) r' v)"

lemma others_keep_refl [simp]: "others_keep r R s s"
  by (simp add: others_keep_def)

lemma others_keep_trans: "others_keep r R s s1 \<Longrightarrow> others_keep r R s1 s2 \<Longrightarrow> others_keep r R s s2"
  by (simp add: others_keep_def)

lemma apartD:
  assumes "apart tb r r'" "path_table tb r p = Some t" "path_table tb r' q = Some t" "valid_path p" "valid_path q"
  shows "\<not> own p" "\<not> own q"
  using assms unfolding apart_def by blast+

lemma own_apart_sym: "apart tb r r' \<longleftrightarrow> apart tb r' r"
  unfolding apart_def by blast

lemma spacesD: "spaces s R \<Longrightarrow> r \<in> R \<Longrightarrow> vm_ok s r"
  by (simp add: spaces_def)

lemma spaces_one [simp]: "spaces s {r} = vm_ok s r"
  by (simp add: spaces_def)

lemma spaces_fields [simp]: "spaces (s\<lparr>vmm_lock := l\<rparr>) R = spaces s R" "spaces (s\<lparr>invlpg := a\<rparr>) R = spaces s R"
  by (simp_all add: spaces_def)

lemma spaces_flush [simp]: "spaces (vmm_flush r s) R = spaces s R"
  by (simp add: spaces_def vm_ok_def)

lemma spaces_pmm:
  assumes "spaces s R" "pmm_ok pm" "\<And>j. is_set_pmm (vm_pmm s) j \<Longrightarrow> is_set_pmm pm j"
  shows "spaces (s\<lparr>vm_pmm := pm\<rparr>) R"
  using assms by (auto simp: spaces_def vm_ok_def tables_used_def)

lemma own_append: "own (p @ q) \<Longrightarrow> own p"
  by (cases p) (auto simp: own_def)

section \<open>Spaces whose tables a step leaves alone\<close>

lemma path_table_same:
  assumes same: "\<And>q t. valid_path q \<Longrightarrow> path_table tb r q = Some t \<Longrightarrow> tb' t = tb t"
  shows "valid_path q \<Longrightarrow> path_table tb' r q = path_table tb r q"
proof (induction q rule: rev_induct)
  case (snoc j q)
  then show ?case
    using same by (auto simp: path_table_snoc valid_path_snoc split: option.splits)
qed simp

lemma lookup_same:
  assumes same: "\<And>q t. valid_path q \<Longrightarrow> path_table tb r q = Some t \<Longrightarrow> tb' t = tb t"
  shows "lookup tb' r v = lookup tb r v"
  using path_table_same [where r = r, OF same valid_vpath] same [OF valid_vpath]
  by (auto simp: lookup_def split: option.splits)

lemma vm_ok_same:
  assumes ok: "vm_ok s r" and same: "\<And>q t. valid_path q \<Longrightarrow> path_table (tables s) r q = Some t \<Longrightarrow> tables s' t = tables s t"
    and pm: "pmm_ok (vm_pmm s')" "\<And>j. is_set_pmm (vm_pmm s) j \<Longrightarrow> is_set_pmm (vm_pmm s') j"
  shows "vm_ok s' r"
proof -
  have path: "path_table (tables s') r q = path_table (tables s) r q" if "valid_path q" for q
    using path_table_same [where r = r, OF _ that] same by blast
  show ?thesis using ok pm by (simp add: vm_ok_def vm_tree_def tables_used_def path cong: conj_cong)
qed

lemma spaces_keep:
  assumes sp: "spaces s R"
    and pm: "pmm_ok (vm_pmm s')" "\<And>j. is_set_pmm (vm_pmm s) j \<Longrightarrow> is_set_pmm (vm_pmm s') j"
    and same: "\<And>r q t. r \<in> R \<Longrightarrow> valid_path q \<Longrightarrow> path_table (tables s) r q = Some t \<Longrightarrow> tables s' t = tables s t"
  shows "spaces s' R" "r \<in> R \<Longrightarrow> valid_path q \<Longrightarrow> path_table (tables s') r q = path_table (tables s) r q"
    "r \<in> R \<Longrightarrow> lookup (tables s') r v = lookup (tables s) r v"
proof -
  have path: "path_table (tables s') r q = path_table (tables s) r q" if "r \<in> R" "valid_path q" for r q
    by (rule path_table_same [OF _ that(2)]) (use same that in blast)
  have "vm_ok s' r" if "r \<in> R" for r
    by (rule vm_ok_same [OF spacesD [OF sp that] _ pm]) (use same that in blast)+
  moreover have "apart (tables s') a b" if "a \<in> R" "b \<in> R" "a \<noteq> b" for a b
  proof -
    have "apart (tables s) a b" using sp that by (simp add: spaces_def)
    then show ?thesis using path that unfolding apart_def by metis
  qed
  ultimately show "spaces s' R" by (simp add: spaces_def)
  show "r \<in> R \<Longrightarrow> valid_path q \<Longrightarrow> path_table (tables s') r q = path_table (tables s) r q" by (rule path)
  show "lookup (tables s') r v = lookup (tables s) r v" if "r \<in> R"
    by (rule lookup_same) (use same that in blast)
qed

lemma spaces_insert:
  "spaces s R \<Longrightarrow> vm_ok s r \<Longrightarrow> (\<And>b. b \<in> R \<Longrightarrow> b \<noteq> r \<Longrightarrow> apart (tables s) r b) \<Longrightarrow> spaces s (insert r R)"
  using own_apart_sym by (auto simp: spaces_def)

lemma spaces_mono: "spaces s R \<Longrightarrow> R' \<subseteq> R \<Longrightarrow> spaces s R'"
  by (auto simp: spaces_def)

text \<open>
  A step that changes tables of the space \<open>r\<close> only: the changed tables belong to no other
  space, and a table \<open>r\<close> has gained belongs to no other either.
\<close>

lemma spaces_step:
  assumes sp: "spaces s R" and r: "r \<in> R" and ok: "vm_ok s' r"
    and pm: "\<And>j. is_set_pmm (vm_pmm s) j \<Longrightarrow> is_set_pmm (vm_pmm s') j"
    and same: "\<And>r' q t. r' \<in> R \<Longrightarrow> r' \<noteq> r \<Longrightarrow> valid_path q \<Longrightarrow> path_table (tables s) r' q = Some t \<Longrightarrow>
      tables s' t = tables s t"
    and new: "\<And>p t. valid_path p \<Longrightarrow> path_table (tables s') r p = Some t \<Longrightarrow>
      path_table (tables s) r p = Some t \<or> (\<forall>r'\<in>R - {r}. \<forall>q. valid_path q \<longrightarrow> path_table (tables s) r' q \<noteq> Some t)"
  shows "spaces s' R \<and> others_keep r R s s'"
proof -
  have pok: "pmm_ok (vm_pmm s')" using ok by (simp add: vm_ok_def)
  have sp': "spaces s (R - {r})" using spaces_mono [OF sp] by blast
  note keep = spaces_keep [where R = "R - {r}", OF sp' pok pm]
  have "apart (tables s') r b" if b: "b \<in> R - {r}" for b
    unfolding apart_def
  proof (intro allI impI, elim conjE)
    fix p q t
    assume v: "valid_path p" "valid_path q" and pt: "path_table (tables s') r p = Some t" "path_table (tables s') b q = Some t"
    have "path_table (tables s') b q = path_table (tables s) b q"
      by (rule keep(2) [OF _ _ b v(2)]) (use same in blast)+
    then have bt: "path_table (tables s) b q = Some t" using pt(2) by simp
    then have "path_table (tables s) r p = Some t" using new [OF v(1) pt(1)] b v(2) by blast
    moreover have "apart (tables s) r b" using sp r b by (auto simp: spaces_def)
    ultimately show "\<not> own p \<and> \<not> own q" using apartD [OF _ _ bt v] by blast
  qed
  moreover have "spaces s' (R - {r})" by (rule keep(1)) (use same in blast)+
  ultimately have "spaces s' (insert r (R - {r}))" using ok by (intro spaces_insert) auto
  moreover have "others_keep r R s s'"
    unfolding others_keep_def
  proof (intro ballI allI)
    fix r' v assume "r' \<in> R - {r}"
    then show "lookup (tables s') r' v = lookup (tables s) r' v"
      by (intro keep(3)) (use same in blast)+
  qed
  ultimately show ?thesis using r by (simp add: insert_absorb)
qed

section \<open>Mapping in one space\<close>

lemma get_pml_alloc_spaces:
  assumes sp: "spaces s R" and r: "r \<in> R"
    and P: "path_table (tables s) r P = Some t" "valid_path (P @ [i])" "own (P @ [i])"
    and g: "vmm_get_pml_alloc t i u s = Done (x, s')"
  shows "spaces s' R \<and> others_keep r R s s'"
proof -
  have ok: "vm_ok s r" by (rule spacesD [OF sp r])
  note spec = get_pml_alloc_spec [OF ok P(1,2) g]
  have P': "valid_path P" "own P" using P(2,3) own_append by (auto simp: valid_path_snoc)
  show ?thesis
  proof (cases "present (tables s t i)")
    case True
    then show ?thesis using g sp by (auto simp: vmm_get_pml_alloc_def Let_def)
  next
    case False
    then obtain y pm where a: "pmm_alloc PAGE_SIZE (vm_pmm s) = Done (y, pm)" "rlength y > 0"
      and s': "s' = set_entry t i (pml_make_entry (rbase y) u)
        (clear_table (mmap_phys_to_io (rbase y)) (s\<lparr>vm_pmm := pm\<rparr>))"
      using g by (auto simp: vmm_get_pml_alloc_def call_pmm_alloc_def Let_def)
    let ?t' = "mmap_phys_to_io (rbase y)" and ?e = "pml_make_entry (rbase y) u"
    have fresh: "path_table (tables s) r' q \<noteq> Some ?t'" if "r' \<in> R" "valid_path q" for r' q
      using fresh_table(2) [OF spacesD [OF sp that(1)] a] that(2) by blast
    note fr = fresh_table [OF ok a]
    have tree: "vm_tree (tables s) r" using ok by (simp add: vm_ok_def)
    have "t \<noteq> ?t'" using fresh [OF r P'(1)] P(1) by auto
    then have tb': "tables s' = ((tables s)(?t' := (\<lambda>_. 0)))(t := (tables s t)(i := ?e))"
      by (simp add: s' set_entry_def clear_table_def)
    note path = path_table_attach [OF tree P(1,2) False fr(2,1) tb']
    have pm: "is_set_pmm (vm_pmm s) j \<Longrightarrow> is_set_pmm (vm_pmm s') j" for j
      using fr(5) by (simp add: s' set_entry_def clear_table_def)
    have same: "tables s' z = tables s z"
      if "r' \<in> R" "r' \<noteq> r" "valid_path q" "path_table (tables s) r' q = Some z" for r' q z
    proof -
      have "apart (tables s) r r'" using sp r that by (simp add: spaces_def)
      then have "z \<noteq> t" using apartD(1) [OF _ P(1) _ P'(1) that(3)] that(4) P'(2) by blast
      moreover have "z \<noteq> ?t'" using fresh [OF that(1,3)] that(4) by auto
      ultimately show ?thesis by (simp add: tb')
    qed
    have new: "path_table (tables s) r p = Some z \<or>
        (\<forall>r'\<in>R - {r}. \<forall>q. valid_path q \<longrightarrow> path_table (tables s) r' q \<noteq> Some z)"
      if "valid_path p" "path_table (tables s') r p = Some z" for p z
      using that fresh by (auto simp: path split: if_splits)
    show ?thesis by (rule spaces_step [OF sp r spec(1)]) (use pm same new in blast)+
  qed
qed

lemma leaf_spaces:
  assumes sp: "spaces s R" and r: "r \<in> R"
    and P: "path_table (tables s) r (vpath v) = Some t" "own (vpath v)"
  shows "spaces (set_entry t (PML1_GET_INDEX v) e s) R \<and> others_keep r R s (set_entry t (PML1_GET_INDEX v) e s)"
proof -
  let ?s' = "set_entry t (PML1_GET_INDEX v) e s"
  have ok: "vm_ok s r" by (rule spacesD [OF sp r])
  then have tree: "vm_tree (tables s) r" by (simp add: vm_ok_def)
  have same: "tables ?s' z = tables s z"
    if "r' \<in> R" "r' \<noteq> r" "valid_path q" "path_table (tables s) r' q = Some z" for r' q z
  proof -
    have "apart (tables s) r r'" using sp r that by (simp add: spaces_def)
    then have "z \<noteq> t" using apartD(1) [OF _ P(1) _ valid_vpath that(3)] that(4) P(2) by blast
    then show ?thesis by (simp add: set_entry_def)
  qed
  have new: "path_table (tables s) r p = Some z \<or>
      (\<forall>r'\<in>R - {r}. \<forall>q. valid_path q \<longrightarrow> path_table (tables s) r' q \<noteq> Some z)"
    if "valid_path p" "path_table (tables ?s') r p = Some z" for p z
    using that path_table_leaf [OF tree P(1) valid_vpath length_vpath that(1)] by (simp add: set_entry_def)
  have pm: "is_set_pmm (vm_pmm s) j \<Longrightarrow> is_set_pmm (vm_pmm ?s') j" for j by (simp add: set_entry_def)
  show ?thesis by (rule spaces_step [OF sp r vm_ok_leaf(1) [OF ok P(1)]]) (use pm same new in blast)+
qed

lemma map_page_spaces:
  assumes sp: "spaces s R" and r: "r \<in> R" and low: "PML4_GET_INDEX virt < 255"
    and m: "vmm_map_page r virt phys u s = Done s'"
  shows "spaces s' R \<and> others_keep r R s s'"
proof -
  from m obtain r3 s1 r2 s2 r1 s3 where
    g3: "vmm_get_pml_alloc r (PML4_GET_INDEX virt) True s = Done (r3, s1)" and
    g2: "vmm_get_pml_alloc (rbase r3) (PML3_GET_INDEX virt) True s1 = Done (r2, s2)" and
    g1: "vmm_get_pml_alloc (rbase r2) (PML2_GET_INDEX virt) True s2 = Done (r1, s3)" and
    s': "s' = set_entry (rbase r1) (PML1_GET_INDEX virt) (pml_make_entry phys u) s3"
    by (auto simp: vmm_map_page_def)
  let ?i4 = "PML4_GET_INDEX virt" and ?i3 = "PML3_GET_INDEX virt" and ?i2 = "PML2_GET_INDEX virt"
  have v: "valid_path ([] @ [?i4])" "valid_path ([?i4] @ [?i3])" "valid_path ([?i4, ?i3] @ [?i2])"
    using valid_vpath [of virt] by (auto simp: valid_path_def vpath_def)
  have own: "own ([] @ [?i4])" "own ([?i4] @ [?i3])" "own ([?i4, ?i3] @ [?i2])" "own (vpath virt)"
    using low by (simp_all add: own_def vpath_def)
  have p0: "path_table (tables s) r [] = Some r" by simp
  note 3 = get_pml_alloc_spaces [OF sp r p0 v(1) own(1) g3]
  have p3: "path_table (tables s1) r [?i4] = Some (rbase r3)"
    using get_pml_alloc_spec(2) [OF spacesD [OF sp r] p0 v(1) g3] by simp
  note 2 = get_pml_alloc_spaces [OF conjunct1 [OF 3] r p3 v(2) own(2) g2]
  have p2: "path_table (tables s2) r [?i4, ?i3] = Some (rbase r2)"
    using get_pml_alloc_spec(2) [OF spacesD [OF conjunct1 [OF 3] r] p3 v(2) g2] by simp
  note 1 = get_pml_alloc_spaces [OF conjunct1 [OF 2] r p2 v(3) own(3) g1]
  have p1: "path_table (tables s3) r (vpath virt) = Some (rbase r1)"
    using get_pml_alloc_spec(2) [OF spacesD [OF conjunct1 [OF 2] r] p2 v(3) g1] by (simp add: vpath_def)
  have leaf: "spaces s' R \<and> others_keep r R s3 s'"
    unfolding s' by (rule leaf_spaces [OF conjunct1 [OF 1] r p1 own(4)])
  then show ?thesis using 1 2 3 unfolding s' by (meson others_keep_trans)
qed

text \<open>\<open>user_range base n\<close>: \<open>n\<close> pages from \<open>base\<close> on lie below top-level entry 255.\<close>

definition user_range :: "u64 \<Rightarrow> nat \<Rightarrow> bool" where
  "user_range base n \<longleftrightarrow> unat base + 4096 * n \<le> 255 * 2 ^ 39"

lemma PML4_low: "unat v < 255 * 2 ^ 39 \<Longrightarrow> PML4_GET_INDEX v < 255"
proof -
  assume v: "unat v < 255 * 2 ^ 39"
  have "unat (PML4_GET_INDEX v) \<le> unat (drop_bit 39 v)"
    by (simp add: index_defs PMLX_GET_INDEX_def word_and_le2 flip: word_le_nat_alt)
  also have "\<dots> = unat v div 2 ^ 39" by (simp add: drop_bit_eq_div unat_div)
  also have "\<dots> < 255" using v by (simp add: less_mult_imp_div_less)
  finally show ?thesis by (simp add: word_less_nat_alt)
qed

lemma user_range_low:
  assumes "user_range base n" "unat i < n"
  shows "PML4_GET_INDEX (page_addr base i) < 255"
proof (rule PML4_low)
  have b: "unat base < 2 ^ 48" "n < 2 ^ 36" "unat base div 4096 * 4096 \<le> unat base" using assms(1) by (simp_all add: user_range_def)
  have "unat (base div 4096 * 4096) = unat base div 4096 * 4096"
    using b(1,3) by (simp add: unat_mult_lem [THEN iffD1] unat_div)
  moreover have "unat (i * 4096) = unat i * 4096"
    using assms(2) b(2) by (subst unat_mult_lem [THEN iffD1]) simp_all
  moreover have "page_addr base i = i * 4096 + base div 4096 * 4096"
    using ALIGN_DOWN_page by (simp add: page_addr_def PAGE_SIZE_def)
  moreover have "unat i * 4096 + unat base div 4096 * 4096 < 255 * 2 ^ 39"
    using assms b(3) by (simp add: user_range_def)
  ultimately show "unat (page_addr base i) < 255 * 2 ^ 39" by (simp add: unat_plus_if')
qed

lemma map_loop_spaces:
  assumes "spaces s R" "r \<in> R" "map_loop r vb pb u i n s = Done s'"
    and "\<And>k. k < n \<Longrightarrow> PML4_GET_INDEX (page_addr vb k) < 255"
  shows "spaces s' R \<and> others_keep r R s s'"
  using assms
proof (induction r vb pb u i n s rule: map_loop.induct)
  case (1 r vb pb u i n s)
  show ?case
  proof (cases "i < n")
    case True
    then obtain s1 where s1: "vmm_map_page r (page_addr vb i) (page_addr pb i) u s = Done s1"
      and rest: "map_loop r vb pb u (i + 1) n s1 = Done s'"
      using "1.prems"(3) by (auto simp: map_pages.loop_unfold [of r vb pb u i])
    from map_page_spaces [OF "1.prems"(1,2) "1.prems"(4) [OF True] s1]
    have sp: "spaces s1 R" "others_keep r R s s1" by simp_all
    have "spaces s' R \<and> others_keep r R s1 s'"
      by (rule "1.IH" [OF True sp(1) "1.prems"(2) rest "1.prems"(4)])
    with sp(2) show ?thesis by (auto intro: others_keep_trans)
  next
    case False
    with "1.prems"(1,3) show ?thesis by (simp add: map_pages.loop_unfold [of r vb pb u i])
  qed
qed

lemma map_range_spaces:
  assumes "spaces s R" "r \<in> R" "vmm_map_range r virt phys u s = Done s'"
    and n: "user_range (rbase virt) (unat (rlength virt div PAGE_SIZE))"
  shows "spaces s' R \<and> others_keep r R s s'"
proof -
  obtain l s1 where
    loop: "map_loop r (rbase virt) (rbase phys) u 0 (rlength virt div PAGE_SIZE) (s\<lparr>vmm_lock := l\<rparr>) = Done s1"
    and s': "s' = vmm_flush virt (s1\<lparr>vmm_lock := 0\<rparr>)" using assms(3) by (rule map_range_DoneE)
  have "spaces s1 R \<and> others_keep r R (s\<lparr>vmm_lock := l\<rparr>) s1"
    by (rule map_loop_spaces [OF _ assms(2) loop])
      (use assms(1) user_range_low [OF n] in \<open>simp_all add: word_less_nat_alt\<close>)
  then show ?thesis by (simp add: s' others_keep_def)
qed

section \<open>A new space\<close>

lemma space_create_spaces:
  assumes sp: "spaces s R" and k: "kernel_pml4 s \<in> R" and c: "vmm_space_create s = Done (t, s')"
  shows "spaces s' (insert t R)" "t \<notin> R" "others_keep t R s s'" "kernel_pml4 s' = kernel_pml4 s"
    "vmm_lock s' = 0" "255 > PML4_GET_INDEX v \<Longrightarrow> lookup (tables s') t v = 0"
proof -
  let ?k = "kernel_pml4 s"
  have ok: "vm_ok s ?k" by (rule spacesD [OF sp k])
  note spec = space_create_spec [OF ok c]
  obtain l r pm where a: "pmm_alloc PAGE_SIZE (vm_pmm s) = Done (r, pm)" "rlength r > 0"
    and t: "t = mmap_phys_to_io (rbase r)"
    and s': "s' = (copy_entries t 255 (clear_table t (s\<lparr>vmm_lock := l, vm_pmm := pm\<rparr>)))\<lparr>vmm_lock := 0\<rparr>"
    using c by (auto simp: vmm_space_create_def call_pmm_alloc_def Let_def arch_release_def)
  have fresh: "path_table (tables s) x q \<noteq> Some t" if "x \<in> R" "valid_path q" for x q
    using fresh_table(2) [OF spacesD [OF sp that(1)] a] that(2) t by blast
  show notin: "t \<notin> R" using fresh [of t "[]"] by (auto simp: valid_path_def)
  then have "t \<noteq> ?k" using k by blast
  then have tb': "tables s' = (tables s)(t := (\<lambda>j. if 255 \<le> j \<and> j < 512 then tables s ?k j else 0))"
    and pm: "vm_pmm s' = pm"
    using copy_entries_spec [of t "clear_table t (s\<lparr>vmm_lock := l, vm_pmm := pm\<rparr>)" 255]
    by (simp_all add: s' clear_table_def fun_eq_iff)
  have same: "tables s' z = tables s z" if "x \<in> R" "valid_path q" "path_table (tables s) x q = Some z" for x q z
    using fresh [OF that(1,2)] that(3) by (auto simp: tb')
  have pmok: "pmm_ok (vm_pmm s')" "is_set_pmm (vm_pmm s) j \<Longrightarrow> is_set_pmm (vm_pmm s') j" for j
    using fresh_table(3,5) [OF ok a] by (simp_all add: pm)
  note keep = spaces_keep [where R = R, OF sp pmok(1)]
  have old: "spaces s' R" by (rule keep(1)) (use same pmok in blast)+
  have "apart (tables s') t b" if b: "b \<in> R" for b
    unfolding apart_def
  proof (intro allI impI, elim conjE)
    fix p q z
    assume v: "valid_path p" "valid_path q" and pt: "path_table (tables s') t p = Some z" "path_table (tables s') b q = Some z"
    have "path_table (tables s') b q = path_table (tables s) b q" by (rule keep(2) [OF _ _ b v(2)]) (use same pmok in blast)+
    then have bz: "path_table (tables s) b q = Some z" using pt(2) by simp
    then have "z \<noteq> t" using fresh [OF b v(2)] by auto
    then obtain j p' where p: "p = j # p'" using pt(1) by (cases p) auto
    have "255 \<le> j \<and> path_table (tables s) ?k p = Some z"
      using space_path [of "tables s" ?k t "tables s'" j p'] fresh [OF k] tb' v(1) pt(1)
      by (auto simp: p simp del: path_table.simps split: if_splits)
    then have kz: "path_table (tables s) ?k p = Some z" "\<not> own p" by (auto simp: own_def p)
    have "\<not> own q"
    proof (cases "b = ?k")
      case True
      have "vm_tree (tables s) ?k" using ok by (simp add: vm_ok_def)
      from vm_treeD [OF this kz(1) bz [unfolded True] v] kz(2) show ?thesis by simp
    next
      case False
      then have "apart (tables s) ?k b" using sp k b by (simp add: spaces_def)
      from apartD(2) [OF this kz(1) bz v] show ?thesis .
    qed
    with kz(2) show "\<not> own p \<and> \<not> own q" by simp
  qed
  then show "spaces s' (insert t R)" using old spec(1) by (intro spaces_insert) auto
  show "others_keep t R s s'"
    unfolding others_keep_def by (intro ballI allI keep(3)) (use same pmok in blast)+
  show "kernel_pml4 s' = ?k" "vmm_lock s' = 0" by (fact spec)+
  show "lookup (tables s') t v = 0" if "255 > PML4_GET_INDEX v" using spec(5) [of v] that by (auto simp: not_le [symmetric])
qed

section \<open>Isolation\<close>

lemma user_range_bound: "user_range base n \<Longrightarrow> n \<le> 2 ^ 36"
  by (simp add: user_range_def)



end
