(* ===== verification/Navy_Elf.thy ===== *)
theory Navy_Elf
  imports Navy_Console Navy_Spaces
begin

text \<open>
  Loading a program: the ELF structures of \<^verbatim>\<open>libs/navy/elf.h\<close> as they lie in memory and
  \<^verbatim>\<open>load_elf_module\<close> of \<^verbatim>\<open>kernel/elf.c\<close>, on top of the page allocator, the virtual memory
  manager, the scheduler and the console. Byte memory is seen through the window of physical
  memory; page tables are the typed store of \<open>Navy_Vmm\<close>. \<open>load_elf_ok\<close> says that a well-formed
  image is loaded whenever the memory has room for it, into a space of its own.
\<close>

section \<open>The file format\<close>

definition EI_NIDENT :: nat where "EI_NIDENT = 16"

definition PT_NULL :: u32 where "PT_NULL = 0"
definition PT_LOAD :: u32 where "PT_LOAD = 1"

record Elf64_Ehdr =
  e_ident :: "u8 list"
  e_type :: u16
  e_machine :: u16
  e_version :: u32
  e_entry :: u64
  e_phoff :: u64
  e_shoff :: u64
  e_flags :: u32
  e_ehsize :: u16
  e_phentsize :: u16
  e_phnum :: u16
  e_shentsize :: u16
  e_shnum :: u16
  e_shstrndx :: u16

record Elf64_Phdr =
  p_type :: u32
  p_flags :: u32
  p_offset :: u64
  p_vaddr :: u64
  p_paddr :: u64
  p_filesz :: u64
  p_memsz :: u64
  p_align :: u64

definition read_ehdr :: "mem \<Rightarrow> u64 \<Rightarrow> Elf64_Ehdr" where
  "read_ehdr m p =
     \<lparr>e_ident = map (\<lambda>i. m (p + of_nat i)) [0..<EI_NIDENT],
      e_type = load16 m (p + 16), e_machine = load16 m (p + 18), e_version = load32 m (p + 20),
      e_entry = load64 m (p + 24), e_phoff = load64 m (p + 32), e_shoff = load64 m (p + 40),
      e_flags = load32 m (p + 48), e_ehsize = load16 m (p + 52), e_phentsize = load16 m (p + 54),
      e_phnum = load16 m (p + 56), e_shentsize = load16 m (p + 58), e_shnum = load16 m (p + 60),
      e_shstrndx = load16 m (p + 62)\<rparr>"

definition read_phdr :: "mem \<Rightarrow> u64 \<Rightarrow> Elf64_Phdr" where
  "read_phdr m p =
     \<lparr>p_type = load32 m p, p_flags = load32 m (p + 4), p_offset = load64 m (p + 8),
      p_vaddr = load64 m (p + 16), p_paddr = load64 m (p + 24), p_filesz = load64 m (p + 32),
      p_memsz = load64 m (p + 40), p_align = load64 m (p + 48)\<rparr>"

section \<open>Loading\<close>

definition get_page_size :: u64 where
  "get_page_size = PAGE_SIZE"

definition load_segment :: "device \<Rightarrow> u64 \<Rightarrow> range_t \<Rightarrow> Elf64_Phdr \<Rightarrow> machine \<Rightarrow> machine outcome" where
  "load_segment dev space elf ph k =
     bind_o (log_impl dev (cstring ''elf.c'') 49 (cstring ''Mapping {a} -> {a} ({})'')
               [fmtvald (rbase elf + p_offset ph), fmtvald (p_vaddr ph), fmtvald (ucast (p_type ph))] k) (\<lambda>k.
     bind_o (arch_pmm_alloc (ALIGN_UP (p_memsz ph) get_page_size) (ksched k)) (\<lambda>(addr, s).
     kassert (rlength addr \<noteq> 0) (
     bind_o (arch_vmm_map space \<lparr>rbase = p_vaddr ph, rlength = rlength addr\<rparr> addr True s) (\<lambda>s.
     let m = fst (memcpy (kmem k) (mmap_phys_to_io (rbase addr)) (rbase elf + p_offset ph) (p_filesz ph));
         m = fst (memset m (mmap_phys_to_io (rbase addr) + p_filesz ph) 0 (p_memsz ph - p_filesz ph))
     in Done (k\<lparr>ksched := s, kmem := m\<rparr>)))))"

text \<open>The header is read again in every iteration; its 16-bit count bounds the loop.\<close>

function load_loop :: "device \<Rightarrow> u64 \<Rightarrow> range_t \<Rightarrow> u64 \<Rightarrow> u64 \<Rightarrow> machine \<Rightarrow> machine outcome" where
  "load_loop dev space elf phdr i k =
     (if i < ucast (e_phnum (read_ehdr (kmem k) (rbase elf)))
      then bind_o
             (let ph = read_phdr (kmem k) phdr
              in if p_type ph = PT_LOAD then load_segment dev space elf ph k else Done k)
             (\<lambda>k. load_loop dev space elf (phdr + ucast (e_phentsize (read_ehdr (kmem k) (rbase elf)))) (i + 1) k)
      else Done k)"
  by pat_completeness auto
termination
proof (relation "measure (\<lambda>(dev, space, elf, phdr, i, k). 65536 - unat i)", simp, goal_cases)
  case (1 dev space elf phdr i k k')
  have "unat (ucast (e_phnum (read_ehdr (kmem k) (rbase elf))) :: u64) < 65536"
    using unat_less_bound [of "e_phnum (read_ehdr (kmem k) (rbase elf))"] 
    by (simp add: unsigned_ucast_eq le_less_trans [OF take_bit_nat_less_eq_self])
  with 1 show ?case by (simp add: word_less_nat_alt unat_Suc_less)
qed

declare load_loop.simps [simp del]

text \<open>\<open>np\<close> and \<open>kstack\<close> are the two blocks \<^verbatim>\<open>task_init\<close> gets from the kernel heap.\<close>

definition load_elf_module ::
  "device \<Rightarrow> u64 \<Rightarrow> u64 \<Rightarrow> range_t \<Rightarrow> machine \<Rightarrow> (u64 \<times> machine) outcome" where
  "load_elf_module dev np kstack elf k =
     bind_o (arch_acquire (elf_lock k)) (\<lambda>l.
     bind_o (log_impl dev (cstring ''elf.c'') 39 (cstring ''Loading {a}-{a}'')
               [fmtvald (rbase elf), fmtvald (rbase elf + rlength elf)] (k\<lparr>elf_lock := l\<rparr>)) (\<lambda>k.
     let phdr = rbase elf + e_phoff (read_ehdr (kmem k) (rbase elf))
     in bind_o (arch_create_space (ksched k)) (\<lambda>(space, s).
        bind_o (load_loop dev space elf phdr 0 (k\<lparr>ksched := s\<rparr>)) (\<lambda>k.
        bind_o (log_impl dev (cstring ''elf.c'') 61 (cstring ''Entry: {a}'')
                  [fmtvald (e_entry (read_ehdr (kmem k) (rbase elf)))] k) (\<lambda>k.
        let k = k\<lparr>elf_lock := arch_release (elf_lock k)\<rparr>
        in bind_o (task_init np kstack space (e_entry (read_ehdr (kmem k) (rbase elf))) (ksched k)) (\<lambda>(p, s).
           Done (p, k\<lparr>ksched := s\<rparr>)))))))"

section \<open>What a process sees\<close>

text \<open>The window address of the byte behind a virtual address, and the byte.\<close>

definition user_addr :: "machine \<Rightarrow> u64 \<Rightarrow> u64 \<Rightarrow> u64 option" where
  "user_addr k root v =
     (let e = lookup (tables (vm (ksched k))) root v
      in if present e then Some (mmap_phys_to_io (push_bit 12 (physical e) + v mod PAGE_SIZE)) else None)"

definition user_byte :: "machine \<Rightarrow> u64 \<Rightarrow> u64 \<Rightarrow> u8 option" where
  "user_byte k root v = map_option (kmem k) (user_addr k root v)"

section \<open>Writing a segment\<close>

text \<open>Copying the file's part of a segment and clearing the rest changes only the new block.\<close>

definition segment_bytes :: "mem \<Rightarrow> u64 \<Rightarrow> u64 \<Rightarrow> u64 \<Rightarrow> u64 \<Rightarrow> mem" where
  "segment_bytes m dest src filesz memsz =
     fst (memset (fst (memcpy m dest src filesz)) (dest + filesz) 0 (memsz - filesz))"

lemma segment_bytes_spec:
  assumes src: "src \<noteq> 0" and sz: "filesz \<le> memsz"
    and apart: "\<forall>i<unat memsz. \<forall>j<unat filesz. dest + of_nat i \<noteq> src + of_nat j"
  shows "i < unat memsz \<Longrightarrow> segment_bytes m dest src filesz memsz (dest + of_nat i) =
      (if i < unat filesz then m (src + of_nat i) else 0)"
    and "(\<And>i. i < unat memsz \<Longrightarrow> a \<noteq> dest + of_nat i) \<Longrightarrow> segment_bytes m dest src filesz memsz a = m a"
proof -
  have bound: "unat memsz < 2 ^ 64" "unat filesz \<le> unat memsz" "unat (memsz - filesz) = unat memsz - unat filesz"
    using unat_less_bound [of memsz] sz by (simp_all add: word_le_nat_alt unat_sub)
  let ?m1 = "copy_loop (unat filesz) m dest src 0"
  have seg: "segment_bytes m dest src filesz memsz =
      memset_loop 0 (unat memsz - unat filesz) ?m1 (dest + filesz)"
    using src bound(3) by (auto simp: segment_bytes_def memcpy_def memset_def unat_eq_0 [symmetric])
  have tail: "dest + filesz + of_nat i = dest + of_nat (unat filesz + i)" for i by simp
  show "segment_bytes m dest src filesz memsz a = m a" if "\<And>i. i < unat memsz \<Longrightarrow> a \<noteq> dest + of_nat i"
  proof -
    have "a \<noteq> dest + filesz + of_nat i" if "i < unat memsz - unat filesz" for i
      unfolding tail by (rule \<open>\<And>i. i < unat memsz \<Longrightarrow> a \<noteq> dest + of_nat i\<close>) (use that bound(2) in simp)
    moreover have "\<forall>j<unat filesz. a \<noteq> dest + 0 + of_nat j" using that bound(2) by auto
    ultimately show ?thesis unfolding seg by (simp add: memset_loop_other copy_loop_other)
  qed
  assume i: "i < unat memsz"
  show "segment_bytes m dest src filesz memsz (dest + of_nat i) =
      (if i < unat filesz then m (src + of_nat i) else 0)"
  proof (cases "i < unat filesz")
    case True
    have "dest + of_nat i \<noteq> dest + filesz + of_nat l" if "l < unat memsz - unat filesz" for l
      unfolding tail using u64_offset_inj [of i "unat filesz + l" dest] True bound that by simp
    moreover have "?m1 (dest + 0 + of_nat i) = m (src + 0 + of_nat i)"
      using True bound apart by (intro copy_loop_copies) auto
    ultimately show ?thesis unfolding seg using True by (simp add: memset_loop_other)
  next
    case False
    then have "i - unat filesz < unat memsz - unat filesz" "dest + of_nat i = dest + filesz + of_nat (i - unat filesz)"
      using i by (simp_all add: tail del: of_nat_add of_nat_diff)
    with False bound memset_loop_in [of "i - unat filesz" "unat memsz - unat filesz" 0 ?m1 "dest + filesz"]
    show ?thesis unfolding seg by (simp add: add.assoc del: of_nat_diff)
  qed
qed

section \<open>Translating a segment\<close>

definition seg_page :: "u64 \<Rightarrow> nat \<Rightarrow> u64" where
  "seg_page vaddr i = vpage (page_addr vaddr (of_nat i))"

lemma aligned_offset:
  assumes "vaddr mod 4096 = (0 :: u64)" "unat vaddr + 4096 * n \<le> 2 ^ 64" "j < 4096 * n"
  shows "(vaddr + of_nat j) div 4096 = of_nat (j div 4096) + vaddr div 4096"
    "(vaddr + of_nat j) mod 4096 = of_nat (j mod 4096)"
proof -
  have "unat vaddr mod 4096 = 0" using arg_cong [OF assms(1), of unat] by (simp add: unat_mod)
  then obtain q where q: "unat vaddr = 4096 * q" by auto
  have "unat (of_nat j :: u64) = j" using assms(2,3) by (intro unat_of_nat_less) simp
  then have sum: "unat (vaddr + of_nat j) = 4096 * q + j"
    using assms(2,3) q by (simp add: unat_plus_if')
  have "unat ((vaddr + of_nat j) div 4096) = j div 4096 + unat (vaddr div 4096)"
    using sum q by (simp add: unat_div_page)
  moreover have "unat (of_nat (j div 4096) + vaddr div 4096) = j div 4096 + unat (vaddr div 4096)"
  proof -
    have "unat (of_nat (j div 4096) :: u64) = j div 4096" using assms(2,3) by (intro unat_of_nat_less) simp
    moreover have "j div 4096 + unat (vaddr div 4096) < 2 ^ LENGTH(64)"
      using assms(2,3) q by (simp add: unat_div_page)
    ultimately show ?thesis by (simp add: unat_plus_if')
  qed
  ultimately show "(vaddr + of_nat j) div 4096 = of_nat (j div 4096) + vaddr div 4096"
    by (simp add: word_unat_eq_iff)
  have "unat ((vaddr + of_nat j) mod 4096) = j mod 4096" using sum by (simp add: unat_mod)
  moreover have "unat (of_nat (j mod 4096) :: u64) = j mod 4096"
    by (intro unat_of_nat_less) (simp add: less_trans [OF mod_less_divisor])
  ultimately show "(vaddr + of_nat j) mod 4096 = of_nat (j mod 4096)"
    by (simp add: word_unat_eq_iff)
qed

lemma vpage_offset:
  assumes "vaddr mod 4096 = (0 :: u64)" "unat vaddr + 4096 * n \<le> 2 ^ 64" "j < 4096 * n"
  shows "vpage (vaddr + of_nat j) = seg_page vaddr (j div 4096)"
  unfolding seg_page_def vpage_page_addr aligned_offset(1) [OF assms, symmetric]
  by (simp add: vpage_def drop_bit_eq_div)

lemma segment_translates:
  assumes ok: "vm_ok v root" and r: "r = pages_range p n" "p + n < 2 ^ 52" "n \<le> 2 ^ 36"
    and m: "vmm_map_range root \<lparr>rbase = vaddr, rlength = rlength r\<rparr> r True v = Done v'"
    and al: "vaddr mod 4096 = 0" "unat vaddr + 4096 * n \<le> 2 ^ 64"
  shows "j < 4096 * n \<Longrightarrow> present (lookup (tables v') root (vaddr + of_nat j)) \<and>
      push_bit 12 (physical (lookup (tables v') root (vaddr + of_nat j))) +
        (vaddr + of_nat j) mod PAGE_SIZE = rbase r + of_nat j"
    and "(\<And>i. i < n \<Longrightarrow> vpage w \<noteq> seg_page vaddr i) \<Longrightarrow>
      lookup (tables v') root w = lookup (tables v) root w"
    and "vm_ok v' root" "vmm_lock v' = 0"
proof -
  let ?virt = "\<lparr>rbase = vaddr, rlength = rlength r\<rparr>"
  have len: "rlength r div PAGE_SIZE = of_nat n" "unat (of_nat n :: u64) = n"
    using pages_range_fields(2) [OF r(2)] r by (simp_all add: unat_of_nat_less)
  then have n36: "unat (rlength ?virt div PAGE_SIZE) \<le> 2 ^ 36" using r(3) by simp
  note spec = map_range_spec [OF ok m n36]
  show "vm_ok v' root" "vmm_lock v' = 0" by (fact spec)+
  show "lookup (tables v') root w = lookup (tables v) root w" if "\<And>i. i < n \<Longrightarrow> vpage w \<noteq> seg_page vaddr i"
  proof (rule spec(4))
    fix k
    assume "k < rlength ?virt div PAGE_SIZE"
    then have "unat k < n" by (simp add: len word_less_nat_alt)
    from that [OF this] show "vpage w \<noteq> vpage (page_addr (rbase ?virt) k)" by (simp add: seg_page_def)
  qed
  assume j: "j < 4096 * n"
  have i: "j div 4096 < n" using j by (simp add: less_mult_imp_div_less mult.commute)
  have "unat (of_nat (j div 4096) :: u64) = j div 4096" using i r(3) by (intro unat_of_nat_less) simp
  then have "(of_nat (j div 4096) :: u64) < of_nat n" using i len(2) by (simp add: word_less_nat_alt)
  then have "lookup (tables v') root (vaddr + of_nat j) =
      pml_make_entry (page_addr (rbase r) (of_nat (j div 4096))) True"
    using spec(3) [of "of_nat (j div 4096)" "vaddr + of_nat j"] vpage_offset [OF al j] len(1)
    by (simp add: seg_page_def)
  moreover have "push_bit 12 (drop_bit 12 (page_addr (rbase r) (of_nat (j div 4096)))) + of_nat (j mod 4096) =
      rbase r + of_nat j"
  proof -
    have base: "push_bit 12 (drop_bit 12 (rbase r)) = rbase r" using pages_range_aligned r(1) by simp
    have "push_bit 12 (drop_bit 12 (page_addr (rbase r) i)) = rbase r + 4096 * i" for i
    proof -
      have "page_addr (rbase r) i = push_bit 12 (i + drop_bit 12 (rbase r))"
        unfolding page_addr_def ALIGN_DOWN_page
        by (simp add: PAGE_SIZE_def push_bit_eq_mult drop_bit_eq_div distrib_right)
      then have "push_bit 12 (drop_bit 12 (page_addr (rbase r) i)) = push_bit 12 (i + drop_bit 12 (rbase r))"
        by (auto simp: bit_simps intro!: bit_word_eqI)
      also have "\<dots> = 4096 * i + push_bit 12 (drop_bit 12 (rbase r))"
        by (simp add: push_bit_eq_mult distrib_right)
      finally show ?thesis by (simp add: base)
    qed
    moreover have "4096 * of_nat (j div 4096) + of_nat (j mod 4096) = (of_nat j :: u64)"
      by (metis mult_div_mod_eq of_nat_add of_nat_mult of_nat_numeral)
    ultimately show ?thesis by (simp add: add.assoc)
  qed
  ultimately show "present (lookup (tables v') root (vaddr + of_nat j)) \<and>
      push_bit 12 (physical (lookup (tables v') root (vaddr + of_nat j))) +
        (vaddr + of_nat j) mod PAGE_SIZE = rbase r + of_nat j"
    using aligned_offset(2) [OF al j] by (simp add: physical_make_entry PAGE_SIZE_def)
qed

text \<open>A block is allocated and mapped at a page-aligned user address: both steps succeed if there is room.\<close>

lemma block_mapped:
  assumes sp: "spaces s R" "space \<in> R" and lock: "vmm_lock s = 0" and room: "room (k + (tables_for k + n)) (vm_pmm s)"
    and am: "need_pages amount = k" "amount \<noteq> 0" and va: "vaddr mod 4096 = 0" "user_range vaddr k"
  obtains r pm v where "pmm_alloc amount (vm_pmm s) = Done (r, pm)" "unat (rlength r) = 4096 * k" "rlength r \<noteq> 0"
    "vmm_map_range space \<lparr>rbase = vaddr, rlength = rlength r\<rparr> r True (s\<lparr>vm_pmm := pm\<rparr>) = Done v"
    "spaces v R" "others_keep space R s v" "vmm_lock v = 0" "kernel_pml4 v = kernel_pml4 s" "room n (vm_pmm v)"
    "\<And>a. byte_used (vm_pmm s) a \<Longrightarrow> byte_used (vm_pmm v) a"
    "\<And>j. j < 4096 * k \<Longrightarrow> \<not> byte_used (vm_pmm s) (block_byte r j) \<and> byte_used (vm_pmm v) (block_byte r j)"
    "\<And>j. j < 4096 * k \<Longrightarrow> present (lookup (tables v) space (vaddr + of_nat j)) \<and>
       push_bit 12 (physical (lookup (tables v) space (vaddr + of_nat j))) +
         (vaddr + of_nat j) mod PAGE_SIZE = rbase r + of_nat j"
    "\<And>w. (\<And>i. i < k \<Longrightarrow> vpage w \<noteq> seg_page vaddr i) \<Longrightarrow> lookup (tables v) space w = lookup (tables s) space w"
proof -
  from room_alloc [OF room am] obtain r pm where a: "pmm_alloc amount (vm_pmm s) = Done (r, pm)"
    and r: "unat (rlength r) = 4096 * k" "0 < k" and room1: "room (tables_for k + n) pm" by blast
  have ok: "vm_ok s space" by (rule spacesD [OF sp])
  have pok: "pmm_ok (vm_pmm s)" using ok by (simp add: vm_ok_def)
  have ne: "rlength r \<noteq> 0" using r by (auto simp: unat_eq_0 [symmetric])
  obtain p where pr: "r = pages_range p k" "p + k < 2 ^ 52" using alloc_block [OF pok am(2) a ne] am(1) by metis
  let ?s = "s\<lparr>vm_pmm := pm\<rparr>" and ?virt = "\<lparr>rbase = vaddr, rlength = rlength r\<rparr>"
  have len: "unat (rlength r div PAGE_SIZE) = k" using r(1) by (simp add: PAGE_SIZE_def unat_div_page)
  have sp1: "spaces ?s R"
    using spaces_pmm [OF sp(1) pmm_pages.alloc_ok [OF pok am(2) a]] pmm_pages.alloc_used [OF pok am(2) a] by blast
  obtain v where m: "vmm_map_range space ?virt r True ?s = Done v" and room2: "room n (vm_pmm v)"
    using roomy.map_range_progress [of ?s space ?virt n r True] spacesD [OF sp1 sp(2)] room1 lock len by auto
  have k36: "k \<le> 2 ^ 36" "unat vaddr + 4096 * k \<le> 2 ^ 64" using va(2) by (simp_all add: user_range_def)
  have ok1: "vm_ok ?s space" by (rule spacesD [OF sp1 sp(2)])
  note tr = segment_translates [OF ok1 pr k36(1) m va(1) k36(2)]
  have sp2: "spaces v R" "others_keep space R ?s v"
    using map_range_spaces [OF sp1 sp(2) m] va(2) len by simp_all
  have pok1: "pmm_ok (vm_pmm ?s)" using ok1 by (simp add: vm_ok_def)
  note used = map_range_used [OF pok1 m]
  show thesis
  proof (rule that [OF a r(1) ne m sp2(1) _ tr(4) _ room2])
    show "others_keep space R s v" using sp2(2) by (simp add: others_keep_def)
    show "kernel_pml4 v = kernel_pml4 s" using used(4) by simp
    show "byte_used (vm_pmm v) x" if "byte_used (vm_pmm s) x" for x
      using used(1) [of x] alloc_keeps_used [OF pok am(2) a that] by simp
    show "\<not> byte_used (vm_pmm s) (block_byte r j) \<and> byte_used (vm_pmm v) (block_byte r j)" if "j < 4096 * k" for j
      using block_fresh [OF pok am(2) a ne, of j] that am(1) used(1) [of "block_byte r j"] by simp
    show "present (lookup (tables v) space (vaddr + of_nat j)) \<and>
        push_bit 12 (physical (lookup (tables v) space (vaddr + of_nat j))) +
          (vaddr + of_nat j) mod PAGE_SIZE = rbase r + of_nat j" if "j < 4096 * k" for j
      by (rule tr(1) [OF that])
    show "lookup (tables v) space w = lookup (tables s) space w"
      if "\<And>i. i < k \<Longrightarrow> vpage w \<noteq> seg_page vaddr i" for w
      using tr(2) [OF that] by simp
  qed
qed

section \<open>Loading all segments\<close>

text \<open>
  What a program header must satisfy to be loadable: an aligned virtual address, a file part
  that fits the memory part and lies in the image, and pages below the kernel's part of a space.
\<close>

definition segment_ok :: "range_t \<Rightarrow> Elf64_Phdr \<Rightarrow> bool" where
  "segment_ok elf ph \<longleftrightarrow>
     p_vaddr ph mod 4096 = 0 \<and> p_filesz ph \<le> p_memsz ph \<and> p_memsz ph \<noteq> 0 \<and>
     unat (p_offset ph) + unat (p_filesz ph) \<le> unat (rlength elf) \<and>
     user_range (p_vaddr ph) (need_pages (p_memsz ph))"

text \<open>No page belongs to both segments.\<close>

definition segments_apart :: "Elf64_Phdr \<Rightarrow> Elf64_Phdr \<Rightarrow> bool" where
  "segments_apart ph ph' \<longleftrightarrow>
     (\<forall>i<need_pages (p_memsz ph). \<forall>j<need_pages (p_memsz ph'). seg_page (p_vaddr ph) i \<noteq> seg_page (p_vaddr ph') j)"

text \<open>The pages a segment takes: its block and the tables to map it.\<close>

definition seg_cost :: "Elf64_Phdr \<Rightarrow> nat" where
  "seg_cost ph = need_pages (p_memsz ph) + tables_for (need_pages (p_memsz ph))"

text \<open>The image: it does not wrap around, is not at 0, and lies in pages marked used.\<close>

definition image_ok :: "pmm \<Rightarrow> range_t \<Rightarrow> bool" where
  "image_ok pm elf \<longleftrightarrow> rbase elf \<noteq> 0 \<and> unat (rbase elf) + unat (rlength elf) < 2 ^ 64 \<and>
     (\<forall>j<unat (rlength elf). byte_used pm (rbase elf + of_nat j))"

definition seg_content :: "mem \<Rightarrow> range_t \<Rightarrow> Elf64_Phdr \<Rightarrow> nat \<Rightarrow> u8" where
  "seg_content m elf ph j =
     (if j < unat (p_filesz ph) then m (rbase elf + p_offset ph + of_nat j) else 0)"

definition seg_loaded :: "mem \<Rightarrow> range_t \<Rightarrow> u64 \<Rightarrow> machine \<Rightarrow> Elf64_Phdr \<Rightarrow> bool" where
  "seg_loaded m elf root k ph \<longleftrightarrow>
     (\<forall>j<unat (p_memsz ph). \<exists>a. user_addr k root (p_vaddr ph + of_nat j) = Some a \<and>
        byte_used (vm_pmm (vm (ksched k))) a \<and> kmem k a = seg_content m elf ph j)"

abbreviation kpmm :: "machine \<Rightarrow> pmm" where
  "kpmm k \<equiv> vm_pmm (vm (ksched k))"

abbreviation kvm :: "machine \<Rightarrow> vmm" where
  "kvm k \<equiv> vm (ksched k)"

text \<open>\<open>grows k k'\<close>: used pages stay used and keep their bytes.\<close>

definition grows :: "machine \<Rightarrow> machine \<Rightarrow> bool" where
  "grows k k' \<longleftrightarrow> (\<forall>a. byte_used (kpmm k) a \<longrightarrow> byte_used (kpmm k') a \<and> kmem k' a = kmem k a)"

lemma grows_refl [simp]: "grows k k"
  by (simp add: grows_def)

lemma grows_trans: "grows k k1 \<Longrightarrow> grows k1 k2 \<Longrightarrow> grows k k2"
  by (simp add: grows_def)

lemma grows_image: "grows k k' \<Longrightarrow> image_ok (kpmm k) elf \<Longrightarrow> image_ok (kpmm k') elf"
  by (simp add: grows_def image_ok_def)

lemma grows_bytes:
  "grows k k' \<Longrightarrow> image_ok (kpmm k) elf \<Longrightarrow>
   \<forall>j<unat (rlength elf). kmem k' (rbase elf + of_nat j) = kmem k (rbase elf + of_nat j)"
  by (simp add: grows_def image_ok_def)

lemma need_pages_aligned:
  assumes "unat n + 4095 < 2 ^ 64"
  shows "need_pages (ALIGN_UP n PAGE_SIZE) = need_pages n"
  using unat_ALIGN_UP_page [OF assms] by (simp add: need_pages_def)

lemma need_pages_bound: "need_pages n \<le> 2 ^ 36 \<Longrightarrow> unat n + 4095 < 2 ^ 64" "unat n \<le> 4096 * need_pages n"
  by (simp_all add: need_pages_def)

lemma src_byte:
  assumes "image_ok pm elf" "segment_ok elf ph" "j < unat (p_filesz ph)"
  shows "byte_used pm (rbase elf + p_offset ph + of_nat j)"
proof -
  have "unat (p_offset ph) + j < unat (rlength elf)" using assms(2,3) by (simp add: segment_ok_def)
  with assms(1) have "byte_used pm (rbase elf + of_nat (unat (p_offset ph) + j))" by (auto simp: image_ok_def)
  then show ?thesis by (simp add: add.assoc)
qed

text \<open>The format strings and the file name of the loader are short.\<close>

lemma elf_log:
  assumes "console_up dev k" "0 \<notin> set fmt" "length fmt \<le> 200" "length args \<le> 10" "\<forall>v\<in>set args. value_short v"
  shows "\<exists>p. log_impl dev (cstring ''elf.c'') n fmt args k = Done (k\<lparr>kports := p\<rparr>)"
  using log_returns [OF assms(1), of fmt args "cstring ''elf.c''" n] assms(2-)
  by (simp add: line_ok_def cstring_def fmtvals_def)

lemma load_segment_step:
  assumes con: "console_up dev k" and sp: "spaces (kvm k) R" "space \<in> R" and lock: "vmm_lock (kvm k) = 0"
    and img: "image_ok (kpmm k) elf" and seg: "segment_ok elf ph" and room: "room (seg_cost ph + n) (kpmm k)"
  obtains p v m k' where "load_segment dev space elf ph k = Done k'"
    "k' = k\<lparr>kports := p, ksched := (ksched k)\<lparr>vm := v\<rparr>, kmem := m\<rparr>"
    "spaces v R" "others_keep space R (kvm k) v" "vmm_lock v = 0" "kernel_pml4 v = kernel_pml4 (kvm k)"
    "room n (vm_pmm v)" "grows k k'" "seg_loaded (kmem k) elf space k' ph"
    "\<forall>w. (\<forall>i<need_pages (p_memsz ph). vpage w \<noteq> seg_page (p_vaddr ph) i) \<longrightarrow>
       user_addr k' space w = user_addr k space w"
proof -
  let ?n = "need_pages (p_memsz ph)" and ?am = "ALIGN_UP (p_memsz ph) PAGE_SIZE"
  have sz: "user_range (p_vaddr ph) ?n" "p_vaddr ph mod 4096 = 0" "p_filesz ph \<le> p_memsz ph" "p_memsz ph \<noteq> 0"
    using seg by (simp_all add: segment_ok_def)
  note nb = need_pages_bound(1) [OF user_range_bound [OF sz(1)]] need_pages_bound(2) [of "p_memsz ph"]
  have need: "need_pages ?am = ?n" by (rule need_pages_aligned [OF nb(1)])
  have am: "?am \<noteq> 0"
  proof
    assume "?am = 0"
    then have "?n = 0" using need by (simp add: need_pages_def)
    then show False using nb(2) sz(4) by (simp add: unat_eq_0)
  qed
  obtain p where log: "log_impl dev (cstring ''elf.c'') 49 (cstring ''Mapping {a} -> {a} ({})'')
      [fmtvald (rbase elf + p_offset ph), fmtvald (p_vaddr ph), fmtvald (ucast (p_type ph))] k = Done (k\<lparr>kports := p\<rparr>)"
    using elf_log [OF con, of "cstring ''Mapping {a} -> {a} ({})''"
        "[fmtvald (rbase elf + p_offset ph), fmtvald (p_vaddr ph), fmtvald (ucast (p_type ph))]" 49]
    by (auto simp: cstring_def fmtvald_short)
  obtain r pm v where a: "pmm_alloc ?am (kpmm k) = Done (r, pm)" "rlength r \<noteq> 0"
    and m: "vmm_map_range space \<lparr>rbase = p_vaddr ph, rlength = rlength r\<rparr> r True ((kvm k)\<lparr>vm_pmm := pm\<rparr>) = Done v"
    and v: "spaces v R" "others_keep space R (kvm k) v" "vmm_lock v = 0" "kernel_pml4 v = kernel_pml4 (kvm k)" "room n (vm_pmm v)"
    and mono: "\<And>a. byte_used (kpmm k) a \<Longrightarrow> byte_used (vm_pmm v) a"
    and fresh: "\<And>j. j < 4096 * ?n \<Longrightarrow> \<not> byte_used (kpmm k) (block_byte r j) \<and> byte_used (vm_pmm v) (block_byte r j)"
    and tr: "\<And>j. j < 4096 * ?n \<Longrightarrow> present (lookup (tables v) space (p_vaddr ph + of_nat j)) \<and>
       push_bit 12 (physical (lookup (tables v) space (p_vaddr ph + of_nat j))) +
         (p_vaddr ph + of_nat j) mod PAGE_SIZE = rbase r + of_nat j"
    and keep: "\<And>w. (\<And>i. i < ?n \<Longrightarrow> vpage w \<noteq> seg_page (p_vaddr ph) i) \<Longrightarrow>
       lookup (tables v) space w = lookup (tables (kvm k)) space w"
    by (rule block_mapped [OF sp lock room [unfolded seg_cost_def add.assoc] need am sz(2,1)]) blast
  let ?m = "segment_bytes (kmem k) (mmap_phys_to_io (rbase r)) (rbase elf + p_offset ph) (p_filesz ph) (p_memsz ph)"
  let ?k' = "k\<lparr>kports := p, ksched := (ksched k)\<lparr>vm := v\<rparr>, kmem := ?m\<rparr>"
  have run: "load_segment dev space elf ph k = Done ?k'"
    using log a m by (simp add: load_segment_def get_page_size_def arch_pmm_alloc_def call_pmm_alloc_def
        arch_vmm_map_def segment_bytes_def)
  have src: "rbase elf + p_offset ph \<noteq> 0"
    using img seg unat_plus_if' [of "rbase elf" "p_offset ph"]
    by (auto simp: image_ok_def segment_ok_def unat_eq_0 [symmetric] split: if_splits)
  have small: "j < 4096 * ?n" if "j < unat (p_memsz ph)" for j using that nb(2) by linarith
  have apart: "\<forall>i<unat (p_memsz ph). \<forall>j<unat (p_filesz ph). block_byte r i \<noteq> rbase elf + p_offset ph + of_nat j"
    using fresh small src_byte [OF img seg] by metis
  note bytes = segment_bytes_spec [OF src sz(3) apart]
  show thesis
  proof (rule that [OF run refl v])
    show "grows k ?k'"
      unfolding grows_def
    proof (intro allI impI conjI)
      fix a assume u: "byte_used (kpmm k) a"
      show "byte_used (kpmm ?k') a" using mono [OF u] by simp
      have "a \<noteq> block_byte r i" if "i < unat (p_memsz ph)" for i using fresh [OF small [OF that]] u by blast
      then show "kmem ?k' a = kmem k a" using bytes(2) [of a "kmem k"] by simp
    qed
    show "\<forall>w. (\<forall>i<?n. vpage w \<noteq> seg_page (p_vaddr ph) i) \<longrightarrow> user_addr ?k' space w = user_addr k space w"
      using keep by (simp add: user_addr_def)
    show "seg_loaded (kmem k) elf space ?k' ph"
      unfolding seg_loaded_def
    proof (intro allI impI)
      fix j assume j: "j < unat (p_memsz ph)"
      have "user_addr ?k' space (p_vaddr ph + of_nat j) = Some (block_byte r j)"
        using tr [OF small [OF j]] by (simp add: user_addr_def mmap_phys_to_io_def Let_def)
      with fresh [OF small [OF j]] bytes(1) [OF j, of "kmem k"]
      show "\<exists>a. user_addr ?k' space (p_vaddr ph + of_nat j) = Some a \<and> byte_used (kpmm ?k') a \<and>
          kmem ?k' a = seg_content (kmem k) elf ph j"
        by (simp add: seg_content_def)
    qed
  qed
qed

lemma seg_loaded_frame:
  assumes "seg_loaded m elf space k ph" "segment_ok elf ph"
    and used: "grows k k'"
    and same: "\<And>i v. i < need_pages (p_memsz ph) \<Longrightarrow> vpage v = seg_page (p_vaddr ph) i \<Longrightarrow>
      user_addr k' space v = user_addr k space v"
  shows "seg_loaded m elf space k' ph"
  unfolding seg_loaded_def
proof (intro allI impI)
  fix j
  assume j: "j < unat (p_memsz ph)"
  then have n: "j < 4096 * need_pages (p_memsz ph)" using need_pages_bound(2) [of "p_memsz ph"] by linarith
  then have "j div 4096 < need_pages (p_memsz ph)" by (simp add: less_mult_imp_div_less mult.commute)
  moreover have "vpage (p_vaddr ph + of_nat j) = seg_page (p_vaddr ph) (j div 4096)"
    using assms(2) n by (intro vpage_offset) (auto simp: segment_ok_def user_range_def)
  ultimately have "user_addr k' space (p_vaddr ph + of_nat j) = user_addr k space (p_vaddr ph + of_nat j)"
    by (rule same)
  with assms(1) j used show "\<exists>a. user_addr k' space (p_vaddr ph + of_nat j) = Some a \<and>
      byte_used (kpmm k') a \<and> kmem k' a = seg_content m elf ph j"
    unfolding seg_loaded_def grows_def by metis
qed

lemma seg_content_image:
  assumes "\<forall>j<unat (rlength elf). m' (rbase elf + of_nat j) = m (rbase elf + of_nat j)" "segment_ok elf ph"
  shows "seg_content m' elf ph j = seg_content m elf ph j"
proof -
  have "m' (rbase elf + p_offset ph + of_nat j) = m (rbase elf + p_offset ph + of_nat j)" if "j < unat (p_filesz ph)"
    using assms(1) [rule_format, of "unat (p_offset ph) + j"] assms(2) that
    by (simp add: segment_ok_def add.assoc)
  then show ?thesis by (simp add: seg_content_def)
qed

text \<open>
  The state of the loader after the segments \<open>phs\<close>, against the state \<open>k0\<close> it started from.
\<close>

definition load_inv :: "device \<Rightarrow> range_t \<Rightarrow> u64 \<Rightarrow> u64 set \<Rightarrow> machine \<Rightarrow> Elf64_Phdr list \<Rightarrow> machine \<Rightarrow> bool" where
  "load_inv dev elf space R k0 phs k \<longleftrightarrow>
     console_up dev k \<and> vmm_lock (kvm k) = 0 \<and> spaces (kvm k) R \<and> space \<in> R \<and> image_ok (kpmm k) elf \<and> grows k0 k \<and>
     others_keep space R (kvm k0) (kvm k) \<and> kernel_pml4 (kvm k) = kernel_pml4 (kvm k0) \<and>
     (\<exists>p v m. k = k0\<lparr>kports := p, ksched := (ksched k0)\<lparr>vm := v\<rparr>, kmem := m\<rparr>) \<and>
     (\<forall>ph\<in>set phs. segment_ok elf ph \<and> seg_loaded (kmem k0) elf space k ph)"

lemma load_inv_start:
  "console_up dev k \<Longrightarrow> vmm_lock (kvm k) = 0 \<Longrightarrow> spaces (kvm k) R \<Longrightarrow> space \<in> R \<Longrightarrow> image_ok (kpmm k) elf \<Longrightarrow>
   load_inv dev elf space R k [] k"
  unfolding load_inv_def
  by (intro conjI exI [of _ "kports k"] exI [of _ "kvm k"] exI [of _ "kmem k"]) simp_all

lemma load_inv_step:
  assumes inv: "load_inv dev elf space R k0 phs k" and room: "room (seg_cost ph + n) (kpmm k)" and img: "image_ok (kpmm k0) elf"
    and seg: "segment_ok elf ph" and apart: "\<forall>ph'\<in>set phs. segments_apart ph' ph"
  obtains k' where "load_segment dev space elf ph k = Done k'" "load_inv dev elf space R k0 (phs @ [ph]) k'" "room n (kpmm k')"
proof -
  have i: "console_up dev k" "spaces (kvm k) R" "space \<in> R" "vmm_lock (kvm k) = 0" "image_ok (kpmm k) elf"
    "grows k0 k" "others_keep space R (kvm k0) (kvm k)" "kernel_pml4 (kvm k) = kernel_pml4 (kvm k0)"
    and old: "\<And>ph. ph \<in> set phs \<Longrightarrow> segment_ok elf ph \<and> seg_loaded (kmem k0) elf space k ph"
    using inv by (auto simp: load_inv_def)
  obtain p0 v0 m0 where k: "k = k0\<lparr>kports := p0, ksched := (ksched k0)\<lparr>vm := v0\<rparr>, kmem := m0\<rparr>"
    using inv by (auto simp: load_inv_def)
  obtain p v m k' where run: "load_segment dev space elf ph k = Done k'"
    and k': "k' = k\<lparr>kports := p, ksched := (ksched k)\<lparr>vm := v\<rparr>, kmem := m\<rparr>"
    and v: "spaces v R" "others_keep space R (kvm k) v" "vmm_lock v = 0" "kernel_pml4 v = kernel_pml4 (kvm k)" "room n (vm_pmm v)"
    and g: "grows k k'" and new: "seg_loaded (kmem k) elf space k' ph"
    and keep: "\<forall>w. (\<forall>i<need_pages (p_memsz ph). vpage w \<noteq> seg_page (p_vaddr ph) i) \<longrightarrow>
       user_addr k' space w = user_addr k space w"
    by (rule load_segment_step [OF i(1-5) seg room]) blast
  have "seg_loaded (kmem k0) elf space k' ph"
    using new seg_content_image [OF grows_bytes [OF i(6) img] seg] by (simp add: seg_loaded_def)
  moreover have "seg_loaded (kmem k0) elf space k' ph'" if "ph' \<in> set phs" for ph'
  proof (rule seg_loaded_frame [OF _ _ g])
    show "seg_loaded (kmem k0) elf space k ph'" "segment_ok elf ph'" using old [OF that] by simp_all
    show "user_addr k' space v = user_addr k space v"
      if "i < need_pages (p_memsz ph')" "vpage v = seg_page (p_vaddr ph') i" for i v
      using apart \<open>ph' \<in> set phs\<close> that by (intro keep [rule_format]) (auto simp: segments_apart_def)
  qed
  moreover have "k' = k0\<lparr>kports := p, ksched := (ksched k0)\<lparr>vm := v\<rparr>, kmem := m\<rparr>" by (simp add: k' k)
  moreover have "kvm k' = v" by (simp add: k')
  moreover have "console_up dev k'" using i(1) by (simp add: k' console_up_def)
  ultimately have "load_inv dev elf space R k0 (phs @ [ph]) k'"
    using v i(3,5,8) old seg grows_trans [OF i(6) g] grows_image [OF g] others_keep_trans [OF i(7) v(2)]
    unfolding load_inv_def by (intro conjI) (blast | simp)+
  moreover have "room n (kpmm k')" using v(5) unfolding \<open>kvm k' = v\<close> .
  ultimately show thesis by (rule that [OF run])
qed

text \<open>Headers read from the image do not change while it is loaded.\<close>

lemma load_agree:
  assumes "\<And>i. i < 8 \<Longrightarrow> m (p + of_nat i) = m' (p + of_nat i)"
  shows "load64 m p = load64 m' p" "load32 m p = load32 m' p" "load16 m p = load16 m' p"
proof -
  have "m p = m' p" "m (p + 1) = m' (p + 1)" "m (p + 2) = m' (p + 2)" "m (p + 3) = m' (p + 3)"
    "m (p + 4) = m' (p + 4)" "m (p + 5) = m' (p + 5)" "m (p + 6) = m' (p + 6)" "m (p + 7) = m' (p + 7)"
    using assms [of 0] assms [of 1] assms [of 2] assms [of 3] assms [of 4] assms [of 5] assms [of 6]
      assms [of 7] by simp_all
  then show "load64 m p = load64 m' p" "load32 m p = load32 m' p" "load16 m p = load16 m' p"
    by (simp_all add: load64_def load32_def load16_def add.assoc)
qed

lemma load_image:
  assumes eq: "\<forall>j<unat (rlength elf). m (rbase elf + of_nat j) = m' (rbase elf + of_nat j)"
    and o: "n + 8 \<le> unat (rlength elf)"
  shows "load64 m (rbase elf + of_nat n) = load64 m' (rbase elf + of_nat n)"
    "load32 m (rbase elf + of_nat n) = load32 m' (rbase elf + of_nat n)"
    "load16 m (rbase elf + of_nat n) = load16 m' (rbase elf + of_nat n)"
proof -
  have "m (rbase elf + of_nat n + of_nat i) = m' (rbase elf + of_nat n + of_nat i)" if "i < 8" for i
    using eq [rule_format, of "n + i"] o that by (simp add: add.assoc)
  then show "load64 m (rbase elf + of_nat n) = load64 m' (rbase elf + of_nat n)"
    "load32 m (rbase elf + of_nat n) = load32 m' (rbase elf + of_nat n)"
    "load16 m (rbase elf + of_nat n) = load16 m' (rbase elf + of_nat n)"
    by (intro load_agree; simp)+
qed

lemma ehdr_image:
  assumes eq: "\<forall>j<unat (rlength elf). m (rbase elf + of_nat j) = m' (rbase elf + of_nat j)"
    and len: "64 \<le> unat (rlength elf)"
  shows "e_phnum (read_ehdr m (rbase elf)) = e_phnum (read_ehdr m' (rbase elf))"
    "e_phentsize (read_ehdr m (rbase elf)) = e_phentsize (read_ehdr m' (rbase elf))"
    "e_phoff (read_ehdr m (rbase elf)) = e_phoff (read_ehdr m' (rbase elf))"
    "e_entry (read_ehdr m (rbase elf)) = e_entry (read_ehdr m' (rbase elf))"
  using load_image [OF eq, of 56] load_image [OF eq, of 54] load_image [OF eq, of 32] load_image [OF eq, of 24] len
  by (simp_all add: read_ehdr_def)

lemma phdr_image:
  assumes eq: "\<forall>j<unat (rlength elf). m (rbase elf + of_nat j) = m' (rbase elf + of_nat j)"
    and o: "n + 56 \<le> unat (rlength elf)"
  shows "read_phdr m (rbase elf + of_nat n) = read_phdr m' (rbase elf + of_nat n)"
  using load_image [OF eq, of n] load_image [OF eq, of "n + 4"] load_image [OF eq, of "n + 8"]
    load_image [OF eq, of "n + 16"] load_image [OF eq, of "n + 24"] load_image [OF eq, of "n + 32"]
    load_image [OF eq, of "n + 40"] load_image [OF eq, of "n + 48"] o
  by (simp add: read_phdr_def add.assoc)

text \<open>The program headers of an image, and that their table lies inside it.\<close>

definition phdr_offset :: "mem \<Rightarrow> range_t \<Rightarrow> nat \<Rightarrow> nat" where
  "phdr_offset m elf i = unat (e_phoff (read_ehdr m (rbase elf))) + i * unat (e_phentsize (read_ehdr m (rbase elf)))"

definition phdr_at :: "mem \<Rightarrow> range_t \<Rightarrow> nat \<Rightarrow> Elf64_Phdr" where
  "phdr_at m elf i = read_phdr m (rbase elf + of_nat (phdr_offset m elf i))"

definition phdr_count :: "mem \<Rightarrow> range_t \<Rightarrow> nat" where
  "phdr_count m elf = unat (e_phnum (read_ehdr m (rbase elf)))"

definition headers_ok :: "mem \<Rightarrow> range_t \<Rightarrow> bool" where
  "headers_ok m elf \<longleftrightarrow> 64 \<le> unat (rlength elf) \<and>
     (\<forall>i<phdr_count m elf. phdr_offset m elf i + 56 \<le> unat (rlength elf))"

definition loadable :: "mem \<Rightarrow> range_t \<Rightarrow> nat \<Rightarrow> Elf64_Phdr list" where
  "loadable m elf n = filter (\<lambda>ph. p_type ph = PT_LOAD) (map (phdr_at m elf) [0..<n])"

lemma loadable_Suc:
  "loadable m elf (Suc n) =
     loadable m elf n @ (if p_type (phdr_at m elf n) = PT_LOAD then [phdr_at m elf n] else [])"
  by (simp add: loadable_def)

lemma loadable_split:
  assumes "i < n" "p_type (phdr_at m elf i) = PT_LOAD"
  shows "\<exists>phs. loadable m elf n = loadable m elf i @ phdr_at m elf i # phs"
proof -
  have "[0..<n] = [0..<i] @ i # [Suc i..<n]" using assms(1) by (metis append_take_drop_id le0 less_imp_le_nat take_upt add_0 drop_upt upt_conv_Cons)
  then show ?thesis using assms(2) by (simp add: loadable_def)
qed

lemma load_loop_ok:
  assumes "load_inv dev elf space R k0 (loadable (kmem k0) elf i) k" "image_ok (kpmm k0) elf" "headers_ok (kmem k0) elf"
    and "i \<le> phdr_count (kmem k0) elf"
    and "\<forall>ph\<in>set (loadable (kmem k0) elf (phdr_count (kmem k0) elf)). segment_ok elf ph"
    and "sorted_wrt segments_apart (loadable (kmem k0) elf (phdr_count (kmem k0) elf))"
    and "room (sum_list (map seg_cost (filter (\<lambda>ph. p_type ph = PT_LOAD)
           (map (phdr_at (kmem k0) elf) [i..<phdr_count (kmem k0) elf]))) + n) (kpmm k)"
  shows "\<exists>k'. load_loop dev space elf (rbase elf + of_nat (phdr_offset (kmem k0) elf i)) (of_nat i) k = Done k' \<and>
    load_inv dev elf space R k0 (loadable (kmem k0) elf (phdr_count (kmem k0) elf)) k' \<and> room n (kpmm k')"
  using assms
proof (induction "phdr_count (kmem k0) elf - i" arbitrary: i k)
  case 0
  let ?n = "phdr_count (kmem k0) elf"
  have eq: "\<forall>j<unat (rlength elf). kmem k (rbase elf + of_nat j) = kmem k0 (rbase elf + of_nat j)"
    using "0.prems"(1,2) grows_bytes by (auto simp: load_inv_def)
  have len: "64 \<le> unat (rlength elf)" using "0.prems"(3) by (simp add: headers_ok_def)
  have i: "i = ?n" using 0 by simp
  then have "\<not> (of_nat i :: u64) < ucast (e_phnum (read_ehdr (kmem k) (rbase elf)))"
    unfolding ehdr_image [OF eq len] by (simp add: phdr_count_def)
  with "0.prems"(1,7) i show ?case
    by (simp add: load_loop.simps [of dev space elf "rbase elf + of_nat (phdr_offset (kmem k0) elf ?n)"])
next
  case (Suc d)
  let ?n = "phdr_count (kmem k0) elf" and ?ph = "phdr_at (kmem k0) elf i"
  let ?a = "rbase elf + of_nat (phdr_offset (kmem k0) elf i)"
  let ?rest = "sum_list (map seg_cost (filter (\<lambda>ph. p_type ph = PT_LOAD) (map (phdr_at (kmem k0) elf) [Suc i..<?n]))) + n"
  have eq: "\<forall>j<unat (rlength elf). kmem k (rbase elf + of_nat j) = kmem k0 (rbase elf + of_nat j)"
    using Suc.prems(1,2) grows_bytes by (auto simp: load_inv_def)
  have len: "64 \<le> unat (rlength elf)" and i: "i < ?n" and oi: "phdr_offset (kmem k0) elf i + 56 \<le> unat (rlength elf)"
    using Suc.prems(3) Suc.hyps(2) by (auto simp: headers_ok_def)
  have "?n < 65536" using unat_less_bound [of "e_phnum (read_ehdr (kmem k0) (rbase elf))"] by (simp add: phdr_count_def)
  then have more: "(of_nat i :: u64) < ucast (e_phnum (read_ehdr (kmem k) (rbase elf)))"
    unfolding ehdr_image [OF eq len] using i
    by (simp add: word_less_nat_alt unat_of_nat_less phdr_count_def unsigned_ucast_eq take_bit_nat_eq_self)
  have ph: "read_phdr (kmem k) ?a = ?ph" using phdr_image [OF eq oi] by (simp only: phdr_at_def)
  have upt: "[i..<?n] = i # [Suc i..<?n]" using i by (rule upt_conv_Cons)
  have sub: "?ph \<in> set (loadable (kmem k0) elf ?n)" "\<forall>ph'\<in>set (loadable (kmem k0) elf i). segments_apart ph' ?ph"
    if "p_type ?ph = PT_LOAD"
    using Suc.prems(6) loadable_split [OF i that] by (auto simp: sorted_wrt_append)
  obtain k1 where step: "(if p_type ?ph = PT_LOAD then load_segment dev space elf ?ph k else Done k) = Done k1"
    and inv1: "load_inv dev elf space R k0 (loadable (kmem k0) elf (Suc i)) k1" and room1: "room ?rest (kpmm k1)"
  proof (cases "p_type ?ph = PT_LOAD")
    case True
    have "room (seg_cost ?ph + ?rest) (kpmm k)" using Suc.prems(7) True upt by (simp add: add.assoc)
    from load_inv_step [OF Suc.prems(1) this Suc.prems(2) _ sub(2) [OF True]] Suc.prems(5) sub(1) [OF True]
    obtain k' where "load_segment dev space elf ?ph k = Done k'"
      "load_inv dev elf space R k0 (loadable (kmem k0) elf i @ [?ph]) k'" "room ?rest (kpmm k')" by blast
    with that True show ?thesis by (simp add: loadable_Suc)
  next
    case False
    with that Suc.prems(1,7) upt show ?thesis by (simp add: loadable_Suc)
  qed
  have eq1: "\<forall>j<unat (rlength elf). kmem k1 (rbase elf + of_nat j) = kmem k0 (rbase elf + of_nat j)"
    using inv1 Suc.prems(2) grows_bytes by (auto simp: load_inv_def)
  have next_a: "?a + ucast (e_phentsize (read_ehdr (kmem k1) (rbase elf))) =
      rbase elf + of_nat (phdr_offset (kmem k0) elf (Suc i))"
    unfolding ehdr_image [OF eq1 len] by (simp add: phdr_offset_def)
  have next_i: "(of_nat i :: u64) + 1 = of_nat (Suc i)" by (simp add: add.commute)
  have "load_loop dev space elf ?a (of_nat i) k =
      load_loop dev space elf (rbase elf + of_nat (phdr_offset (kmem k0) elf (Suc i))) (of_nat (Suc i)) k1"
    using more step by (simp add: load_loop.simps [of dev space elf ?a "of_nat i" k] ph next_a [symmetric] next_i [symmetric]
        del: of_nat_Suc)
  with Suc.hyps(1) [OF _ inv1 Suc.prems(2,3) _ Suc.prems(5,6) room1] Suc.hyps(2) i show ?case by simp
qed

section \<open>The new address space and the user stack\<close>

lemma space_create_used:
  assumes "pmm_ok (vm_pmm s)" "vmm_space_create s = Done (t, s')" "byte_used (vm_pmm s) a"
  shows "byte_used (vm_pmm s') a"
proof -
  have p: "PAGE_SIZE \<noteq> 0" by (simp add: PAGE_SIZE_def)
  obtain l r pm where "pmm_alloc PAGE_SIZE (vm_pmm s) = Done (r, pm)"
    and "s' = (copy_entries t 255 (clear_table t (s\<lparr>vmm_lock := l, vm_pmm := pm\<rparr>)))\<lparr>vmm_lock := 0\<rparr>"
    using assms(2) by (auto simp: vmm_space_create_def call_pmm_alloc_def Let_def arch_release_def)
  with alloc_keeps_used [OF assms(1) p _ assms(3)] show ?thesis by (simp add: clear_table_def copy_entries_pmm)
qed

text \<open>\<open>stack_apart\<close>: no page of the segment is a page of the user stack.\<close>

definition stack_apart :: "Elf64_Phdr \<Rightarrow> bool" where
  "stack_apart ph \<longleftrightarrow>
     (\<forall>i<need_pages (p_memsz ph). \<forall>j<4. seg_page (p_vaddr ph) i \<noteq> seg_page USER_STACK_BASE j)"

lemma task_init_ok:
  assumes np: "np \<noteq> 0" "usertask_lock s = 0" and sp: "spaces (vm s) R" "space \<in> R" and lock: "vmm_lock (vm s) = 0"
    and room: "room (10 + n) (vm_pmm (vm s))"
  obtains v x where "task_init np kstack space entry s = Done (np, s\<lparr>vm := v, pheap := (pheap s)(np \<mapsto> x)\<rparr>)"
    "pml x = space" "state x = TASK_RUNNING" "rip (regs x) = entry" "mailbox x = vec_init"
    "spaces v R" "others_keep space R (vm s) v" "vmm_lock v = 0" "kernel_pml4 v = kernel_pml4 (vm s)" "room n (vm_pmm v)"
    "\<forall>a. byte_used (vm_pmm (vm s)) a \<longrightarrow> byte_used (vm_pmm v) a"
    "\<forall>j<16384. present (lookup (tables v) space (USER_STACK_BASE + of_nat j))"
    "\<forall>w. (\<forall>j<4. vpage w \<noteq> seg_page USER_STACK_BASE j) \<longrightarrow> lookup (tables v) space w = lookup (tables (vm s)) space w"
proof -
  have n: "need_pages KERNEL_STACK_SIZE = 4" "KERNEL_STACK_SIZE \<noteq> 0" by (simp_all add: need_pages_def KERNEL_STACK_SIZE_def)
  have st: "USER_STACK_BASE mod 4096 = 0" "user_range USER_STACK_BASE 4" by (simp_all add: USER_STACK_BASE_def user_range_def)
  have room': "room (4 + (tables_for 4 + n)) (vm_pmm (vm s))" using room by (simp add: tables_for_def)
  obtain r pm v where
    a: "pmm_alloc KERNEL_STACK_SIZE (vm_pmm (vm s)) = Done (r, pm)" "unat (rlength r) = 4096 * 4" "rlength r \<noteq> 0"
    and m: "vmm_map_range space \<lparr>rbase = USER_STACK_BASE, rlength = rlength r\<rparr> r True ((vm s)\<lparr>vm_pmm := pm\<rparr>) = Done v"
    and v: "spaces v R" "others_keep space R (vm s) v" "vmm_lock v = 0" "kernel_pml4 v = kernel_pml4 (vm s)" "room n (vm_pmm v)"
    and used: "\<And>a. byte_used (vm_pmm (vm s)) a \<Longrightarrow> byte_used (vm_pmm v) a"
    and tr: "\<And>j. j < 4096 * 4 \<Longrightarrow> present (lookup (tables v) space (USER_STACK_BASE + of_nat j)) \<and>
       push_bit 12 (physical (lookup (tables v) space (USER_STACK_BASE + of_nat j))) +
         (USER_STACK_BASE + of_nat j) mod PAGE_SIZE = rbase r + of_nat j"
    and keep: "\<And>w. (\<And>i. i < 4 \<Longrightarrow> vpage w \<noteq> seg_page USER_STACK_BASE i) \<Longrightarrow>
       lookup (tables v) space w = lookup (tables (vm s)) space w"
    by (rule block_mapped [OF sp lock room' n st]) blast
  have "rlength r = KERNEL_STACK_SIZE" using a(2) by (simp add: KERNEL_STACK_SIZE_def word_unat_eq_iff)
  note m = m [unfolded this]
  let ?x = "zero_process\<lparr>pml := space, state := TASK_RUNNING, syscall_kernel_bstack := kstack,
      syscall_kernel_stack := kstack + KERNEL_STACK_SIZE, stack := r, mailbox := vec_init,
      regs := zero_regs\<lparr>cs := 0x23, ss := 0x1b, rip := entry, rsp := USER_STACK_BASE + KERNEL_STACK_SIZE,
        rbp := USER_STACK_BASE, rflags := 0x202\<rparr>\<rparr>"
  have "task_init np kstack space entry s = Done (np, s\<lparr>vm := v, pheap := (pheap s)(np \<mapsto> ?x)\<rparr>)"
    using np a(1,3) m by (cases s) (simp add: task_init_def Let_def arch_pmm_alloc_def call_pmm_alloc_def arch_vmm_map_def
        put_proc_def arch_release_def)
  then show thesis
    by (rule that) (use v used tr keep in auto)
qed

section \<open>A whole program\<close>

definition load_cost :: "Elf64_Phdr list \<Rightarrow> nat" where
  "load_cost phs = Suc (sum_list (map seg_cost phs) + 10)"

text \<open>An image that can be loaded: headers, segments and their places.\<close>

definition program_ok :: "mem \<Rightarrow> range_t \<Rightarrow> Elf64_Phdr list \<Rightarrow> bool" where
  "program_ok m elf phs \<longleftrightarrow> headers_ok m elf \<and> phs = loadable m elf (phdr_count m elf) \<and>
     (\<forall>ph\<in>set phs. segment_ok elf ph \<and> stack_apart ph) \<and> sorted_wrt segments_apart phs"

text \<open>What the loader starts from: a working console, free locks, spaces that include the kernel's.\<close>

definition loader_ready :: "device \<Rightarrow> u64 set \<Rightarrow> machine \<Rightarrow> bool" where
  "loader_ready dev R k \<longleftrightarrow> console_up dev k \<and> elf_lock k = 0 \<and> usertask_lock (ksched k) = 0 \<and>
     vmm_lock (kvm k) = 0 \<and> spaces (kvm k) R \<and> kernel_pml4 (kvm k) \<in> R"

text \<open>A process that runs on an image: its entry point, its segments, its stack.\<close>

definition runs_program :: "mem \<Rightarrow> range_t \<Rightarrow> Elf64_Phdr list \<Rightarrow> machine \<Rightarrow> process \<Rightarrow> bool" where
  "runs_program m elf phs k x \<longleftrightarrow> state x = TASK_RUNNING \<and> rip (regs x) = e_entry (read_ehdr m (rbase elf)) \<and>
     (\<forall>ph\<in>set phs. seg_loaded m elf (pml x) k ph) \<and>
     (\<forall>j<16384. user_addr k (pml x) (USER_STACK_BASE + of_nat j) \<noteq> None)"

lemma loadable_cost:
  "sum_list (map seg_cost (filter (\<lambda>ph. p_type ph = PT_LOAD) (map (phdr_at m elf) [0..<n]))) =
   sum_list (map seg_cost (loadable m elf n))"
  by (simp add: loadable_def)

lemma load_elf_ok:
  assumes rd: "loader_ready dev R k" and np: "np \<noteq> 0" and img: "image_ok (kpmm k) elf" and prog: "program_ok (kmem k) elf phs"
    and room: "room (load_cost phs + n) (kpmm k)"
  obtains k' x where "load_elf_module dev np kstack elf k = Done (np, k')" "runs_program (kmem k) elf phs k' x"
    "pheap (ksched k') = (pheap (ksched k))(np \<mapsto> x)" "mailbox x = vec_init" "pml x \<notin> R"
    "loader_ready dev (insert (pml x) R) k'" "room n (kpmm k')" "grows k k'"
    "\<forall>r\<in>R. \<forall>w. user_addr k' r w = user_addr k r w"
    "\<exists>p v m. k' = k\<lparr>kports := p, ksched := (ksched k)\<lparr>vm := v, pheap := (pheap (ksched k))(np \<mapsto> x)\<rparr>, kmem := m\<rparr>"
proof -
  have r: "console_up dev k" "elf_lock k = 0" "usertask_lock (ksched k) = 0" "vmm_lock (kvm k) = 0" "spaces (kvm k) R"
    "kernel_pml4 (kvm k) \<in> R" using rd by (simp_all add: loader_ready_def)
  have hdr: "headers_ok (kmem k) elf" and phs: "phs = loadable (kmem k) elf (phdr_count (kmem k) elf)"
    and seg: "\<forall>ph\<in>set phs. segment_ok elf ph" "\<forall>ph\<in>set phs. stack_apart ph" and ap: "sorted_wrt segments_apart phs"
    using prog by (auto simp: program_ok_def)
  let ?phdr = "rbase elf + e_phoff (read_ehdr (kmem k) (rbase elf))"
  obtain p1 where log1: "log_impl dev (cstring ''elf.c'') 39 (cstring ''Loading {a}-{a}'')
      [fmtvald (rbase elf), fmtvald (rbase elf + rlength elf)] (k\<lparr>elf_lock := 1\<rparr>) = Done (k\<lparr>elf_lock := 1, kports := p1\<rparr>)"
    using elf_log [of dev "k\<lparr>elf_lock := 1\<rparr>" "cstring ''Loading {a}-{a}''" "[fmtvald (rbase elf), fmtvald (rbase elf + rlength elf)]" 39] r(1)
    by (auto simp: cstring_def fmtvald_short console_up_def)
  obtain space v1 where c: "vmm_space_create (kvm k) = Done (space, v1)"
    and room1: "room (sum_list (map seg_cost phs) + (10 + n)) (vm_pmm v1)"
    using roomy.space_create_progress [OF _ r(4), of "sum_list (map seg_cost phs) + (10 + n)"] room
    by (auto simp: load_cost_def add.assoc)
  note sc = space_create_spaces [OF r(5,6) c]
  let ?k1 = "k\<lparr>elf_lock := 1, kports := p1, ksched := (ksched k)\<lparr>vm := v1\<rparr>\<rparr>"
  let ?R = "insert space R"
  have g1: "grows k ?k1"
    using space_create_used [OF _ c] spacesD [OF r(5,6)] by (simp add: grows_def vm_ok_def)
  have img1: "image_ok (kpmm ?k1) elf" by (rule grows_image [OF g1 img])
  have inv1: "load_inv dev elf space ?R ?k1 (loadable (kmem ?k1) elf 0) ?k1"
    using load_inv_start [of dev ?k1 ?R space elf] r(1) sc img1 by (simp add: loadable_def console_up_def)
  have room1': "room (sum_list (map seg_cost (filter (\<lambda>ph. p_type ph = PT_LOAD)
      (map (phdr_at (kmem ?k1) elf) [0..<phdr_count (kmem ?k1) elf]))) + (10 + n)) (kpmm ?k1)"
    unfolding loadable_cost using room1 by (simp add: phs [symmetric])
  have off: "?phdr = rbase elf + of_nat (phdr_offset (kmem k) elf 0)" by (simp add: phdr_offset_def)
  obtain k2 where loop: "load_loop dev space elf ?phdr 0 ?k1 = Done k2"
    and inv2: "load_inv dev elf space ?R ?k1 phs k2" and room2: "room (10 + n) (kpmm k2)"
    using load_loop_ok [OF inv1 img1 _ _ _ _ room1'] hdr seg(1) ap phs unfolding off by auto
  have i2: "console_up dev k2" "vmm_lock (kvm k2) = 0" "spaces (kvm k2) ?R" "grows ?k1 k2"
    "others_keep space ?R v1 (kvm k2)" "kernel_pml4 (kvm k2) = kernel_pml4 v1"
    "\<forall>ph\<in>set phs. seg_loaded (kmem k) elf space k2 ph" using inv2 by (auto simp: load_inv_def)
  obtain p2 v2 m2 where k2: "k2 = ?k1\<lparr>kports := p2, ksched := (ksched ?k1)\<lparr>vm := v2\<rparr>, kmem := m2\<rparr>"
    using inv2 by (auto simp: load_inv_def)
  have entry: "e_entry (read_ehdr (kmem k2) (rbase elf)) = e_entry (read_ehdr (kmem k) (rbase elf))"
    using hdr grows_bytes [OF i2(4) img1] by (intro ehdr_image(4)) (auto simp: headers_ok_def)
  let ?entry = "e_entry (read_ehdr (kmem k) (rbase elf))"
  obtain p3 where log3: "log_impl dev (cstring ''elf.c'') 61 (cstring ''Entry: {a}'') [fmtvald ?entry] k2 = Done (k2\<lparr>kports := p3\<rparr>)"
    using elf_log [OF i2(1), of "cstring ''Entry: {a}''" "[fmtvald ?entry]" 61] by (auto simp: cstring_def fmtvald_short)
  have ut: "usertask_lock (ksched k2) = 0" using r(3) by (simp add: k2)
  obtain v x where t: "task_init np kstack space ?entry (ksched k2) =
        Done (np, (ksched k2)\<lparr>vm := v, pheap := (pheap (ksched k2))(np \<mapsto> x)\<rparr>)"
    and x: "pml x = space" "state x = TASK_RUNNING" "rip (regs x) = ?entry" "mailbox x = vec_init"
    and v: "spaces v ?R" "others_keep space ?R (kvm k2) v" "vmm_lock v = 0" "kernel_pml4 v = kernel_pml4 (kvm k2)" "room n (vm_pmm v)"
      "\<forall>a. byte_used (kpmm k2) a \<longrightarrow> byte_used (vm_pmm v) a"
      "\<forall>j<16384. present (lookup (tables v) space (USER_STACK_BASE + of_nat j))"
      "\<forall>w. (\<forall>j<4. vpage w \<noteq> seg_page USER_STACK_BASE j) \<longrightarrow> lookup (tables v) space w = lookup (tables (kvm k2)) space w"
    by (rule task_init_ok [OF np ut i2(3) insertI1 i2(2) room2])
  let ?k' = "k\<lparr>kports := p3, ksched := (ksched k)\<lparr>vm := v, pheap := (pheap (ksched k))(np \<mapsto> x)\<rparr>, kmem := m2\<rparr>"
  have rec: "k\<lparr>elf_lock := 1, kports := p1\<rparr>\<lparr>ksched := s\<rparr> = k\<lparr>elf_lock := 1, kports := p1, ksched := s\<rparr>"
    "k2\<lparr>kports := p3, elf_lock := 0, ksched := (ksched k2)\<lparr>vm := v, pheap := (pheap (ksched k2))(np \<mapsto> x)\<rparr>\<rparr> = ?k'" for s
    using r(2) by (cases k; simp add: k2)+
  have run: "load_elf_module dev np kstack elf k = Done (np, ?k')"
    using r(2) log1 c loop entry log3 t rec by (simp add: load_elf_module_def arch_create_space_def Let_def arch_release_def)
  have vk: "kvm ?k' = v" "kmem ?k' = kmem k2" by (simp_all add: k2)
  have g2: "grows k2 ?k'" using v(6) by (simp add: grows_def k2)
  have loaded: "seg_loaded (kmem k) elf space ?k' ph" if "ph \<in> set phs" for ph
  proof (rule seg_loaded_frame [OF _ _ g2])
    show "seg_loaded (kmem k) elf space k2 ph" "segment_ok elf ph" using i2(7) seg(1) that by simp_all
    show "user_addr ?k' space w = user_addr k2 space w"
      if "i < need_pages (p_memsz ph)" "vpage w = seg_page (p_vaddr ph) i" for i w
    proof -
      have "\<forall>j<4. vpage w \<noteq> seg_page USER_STACK_BASE j"
        using seg(2) \<open>ph \<in> set phs\<close> that by (auto simp: stack_apart_def)
      then show ?thesis using v(8) by (simp add: user_addr_def k2)
    qed
  qed
  show thesis
  proof (rule that [OF run])
    show "runs_program (kmem k) elf phs ?k' x"
      using x loaded v(7) by (simp add: runs_program_def user_addr_def Let_def)
    show "pheap (ksched ?k') = (pheap (ksched k))(np \<mapsto> x)" by simp
    show "mailbox x = vec_init" "pml x \<notin> R" using x sc(2) by simp_all
    show "loader_ready dev (insert (pml x) R) ?k'"
      using r v x i2(6) sc(4) by (simp add: loader_ready_def console_up_def)
    show "room n (kpmm ?k')" using v(5) by simp
    show "grows k ?k'" using grows_trans [OF g1 grows_trans [OF i2(4) g2]] .
    show "\<forall>r\<in>R. \<forall>w. user_addr ?k' r w = user_addr k r w"
    proof (intro ballI allI)
      fix r w assume "r \<in> R"
      then have "r \<in> ?R - {space}" "r \<in> R - {space}" using sc(2) by auto
      then have "lookup (tables v) r w = lookup (tables (kvm k)) r w"
        using v(2) i2(5) sc(3) by (simp add: others_keep_def)
      then show "user_addr ?k' r w = user_addr k r w" by (simp add: user_addr_def)
    qed
    show "\<exists>p v m. ?k' = k\<lparr>kports := p, ksched := (ksched k)\<lparr>vm := v, pheap := (pheap (ksched k))(np \<mapsto> x)\<rparr>, kmem := m\<rparr>"
      by blast
  qed
qed

section \<open>Properties\<close>

lemma seg_loaded_user_byte:
  assumes "seg_loaded m elf root k ph" "j < unat (p_memsz ph)"
  shows "user_byte k root (p_vaddr ph + of_nat j) = Some (seg_content m elf ph j)"
  using assms by (auto simp: seg_loaded_def user_byte_def)


text \<open>A small program: one segment of two bytes in the file and three in memory, at \<open>0xc0010000\<close>.\<close>

definition demo_elf :: range_t where
  "demo_elf = \<lparr>rbase = 0xffff800000008000, rlength = 122\<rparr>"

definition demo_loader :: machine where
  "demo_loader = \<lparr>ksched = (demo_sched TASK_RUNNING 0)\<lparr>vm := wide_vmm\<rparr>, kports = quiet_ports, serial_lock = 0,
     elf_lock = 0, has_fault = False, random_next = 1, symbols = \<lparr>rbase = 0, rlength = 0\<rparr>, strtok_p = 0, fault_addr = 0,
     kmem = (\<lambda>_. 0)(
       0xffff80000000801a := 1, 0xffff80000000801b := 0xc0, 0xffff800000008020 := 64, 0xffff800000008036 := 56, 0xffff800000008038 := 1,
       0xffff800000008040 := 1, 0xffff800000008048 := 120, 0xffff800000008052 := 1, 0xffff800000008053 := 0xc0,
       0xffff800000008060 := 2, 0xffff800000008068 := 3,
       0xffff800000008078 := 0xf3, 0xffff800000008079 := 0x90)\<rparr>"

definition demo_phdr :: Elf64_Phdr where
  "demo_phdr = \<lparr>p_type = PT_LOAD, p_flags = 0, p_offset = 120, p_vaddr = 0xc0010000, p_paddr = 0, p_filesz = 2,
     p_memsz = 3, p_align = 0\<rparr>"

lemma demo_headers:
  "e_phoff (read_ehdr (kmem demo_loader) (rbase demo_elf)) = 64"
  "e_phentsize (read_ehdr (kmem demo_loader) (rbase demo_elf)) = 56"
  "e_phnum (read_ehdr (kmem demo_loader) (rbase demo_elf)) = 1"
  "e_entry (read_ehdr (kmem demo_loader) (rbase demo_elf)) = 0xc0010000"
  "read_phdr (kmem demo_loader) (rbase demo_elf + 64) = demo_phdr"
  by (simp_all add: read_ehdr_def read_phdr_def demo_loader_def demo_elf_def demo_phdr_def load64_def load32_def
      load16_def PT_LOAD_def)

lemma demo_apart: "segment_ok demo_elf demo_phdr" "stack_apart demo_phdr" "seg_cost demo_phdr = 4"
proof -
  have need: "need_pages 3 = 1" by (simp add: need_pages_def)
  then show "segment_ok demo_elf demo_phdr" by (simp add: segment_ok_def demo_phdr_def demo_elf_def user_range_def)
  have "seg_page 0xc0010000 0 \<noteq> seg_page 0xc0000000 j" if "j < 4" for j
  proof -
    have "j = 0 \<or> j = 1 \<or> j = 2 \<or> j = 3" using that by arith
    then show ?thesis by (auto simp: seg_page_def vpage_page_addr)
  qed
  with need show "stack_apart demo_phdr" by (simp add: stack_apart_def demo_phdr_def USER_STACK_BASE_def)
  show "seg_cost demo_phdr = 4" using need by (simp add: seg_cost_def demo_phdr_def tables_for_def)
qed

lemma demo_kvm: "kvm demo_loader = wide_vmm"
  by (simp add: demo_loader_def)

lemma demo_ready: "loader_ready idle_device {0xffff800000000000} demo_loader"
  using idle_responsive wide_ok
  by (simp add: loader_ready_def console_up_def demo_kvm) (simp add: demo_loader_def demo_sched_def)

lemma demo_image: "image_ok (kpmm demo_loader) demo_elf"
proof -
  have "mmap_io_to_phys (rbase demo_elf + of_nat j) div PAGE_SIZE = 8" if "j < 122" for j
  proof -
    have "unat (of_nat j :: u64) = j" using that by (intro unat_of_nat_less) simp
    then have "unat (0x8000 + of_nat j :: u64) = 0x8000 + j" using that by (simp add: unat_plus_if')
    then have "unat ((0x8000 + of_nat j :: u64) div 4096) = 8" using that by (simp add: unat_div_page)
    then show ?thesis
      by (simp add: mmap_io_to_phys_def MMAP_IO_BASE_def PAGE_SIZE_def demo_elf_def word_unat_eq_iff)
  qed
  with wide_set [of 8] show ?thesis
    by (simp add: image_ok_def byte_used_def demo_kvm) (simp add: demo_elf_def)
qed

lemma demo_program: "program_ok (kmem demo_loader) demo_elf [demo_phdr]" "load_cost [demo_phdr] = 15"
proof -
  have "headers_ok (kmem demo_loader) demo_elf" "phdr_count (kmem demo_loader) demo_elf = 1"
    "loadable (kmem demo_loader) demo_elf 1 = [demo_phdr]"
    using demo_headers
    by (simp_all add: headers_ok_def phdr_count_def phdr_offset_def phdr_at_def loadable_def demo_elf_def demo_phdr_def)
  then show "program_ok (kmem demo_loader) demo_elf [demo_phdr]" using demo_apart by (simp add: program_ok_def)
  show "load_cost [demo_phdr] = 15" using demo_apart(3) by (simp add: load_cost_def)
qed


end
