(* ===== verification/Navy_User.thy ===== *)
theory Navy_User
  imports Navy_Console "HOL-Library.Sublist"
begin

text \<open>
  The test program of \<^verbatim>\<open>pkg/test/main.c\<close> with its start-up code \<^verbatim>\<open>ansi/crt0.c\<close> and its
  \<^verbatim>\<open>log_impl_userspace\<close> of \<^verbatim>\<open>navy/debug.c\<close>, and its three copies on the kernel: whatever the
  timer, the scheduler and the reaper do, the kernel serves every system call they make and each
  copy writes exactly its line.
\<close>

section \<open>User programs\<close>

text \<open>
  The memory of a process: bytes, and the messages on its stack. A program is what it does until
  its next system call: \<open>Syscall f m g\<close> executes \<^verbatim>\<open>syscall\<close> with the registers \<open>f\<close> sets up and
  the memory \<open>m\<close>, and goes on with \<open>g\<close> from the value and the memory it gets back. \<open>Forever\<close>
  never makes a call again.
\<close>

record umem =
  ubytes :: mem
  umsgs :: "u64 \<Rightarrow> ipc"

codatatype prog =
    Forever
  | Syscall (call_regs: "registers \<Rightarrow> registers") (call_mem: umem) (resume: "u64 \<Rightarrow> umem \<Rightarrow> prog")

text \<open>The stack slots of \<^verbatim>\<open>msg\<close> and \<^verbatim>\<open>msg2\<close>.\<close>

definition MSG :: u64 where "MSG = 0xc0003fc0"
definition MSG2 :: u64 where "MSG2 = 0xc0003fa0"

section \<open>Logging in user space\<close>

text \<open>The callback of \<^verbatim>\<open>PRINT_FORMAT\<close> is \<^verbatim>\<open>sys_log\<close>; the string it is given stands at \<open>LOCAL\<close>.\<close>

definition user_puts :: "u8 list \<Rightarrow> (umem \<Rightarrow> prog) \<Rightarrow> umem \<Rightarrow> prog" where
  "user_puts bs k m =
     Syscall (sys_log LOCAL) (m\<lparr>ubytes := store_bytes (ubytes m) LOCAL (bs @ [0])\<rparr>) (\<lambda>_. k)"

fun user_puts_all :: "u8 list list \<Rightarrow> (umem \<Rightarrow> prog) \<Rightarrow> umem \<Rightarrow> prog" where
  "user_puts_all [] k m = k m"
| "user_puts_all (bs # bss) k m = user_puts bs (user_puts_all bss k) m"

definition print_user :: "u8 list \<Rightarrow> fmt_value list \<Rightarrow> (umem \<Rightarrow> prog) \<Rightarrow> umem \<Rightarrow> prog" where
  "print_user format args k m =
     (case PRINT_FORMAT (ubytes m) format args of
        None \<Rightarrow> Forever
      | Some outs \<Rightarrow> user_puts_all outs k m)"

definition log_impl_userspace ::
  "u8 list \<Rightarrow> u64 \<Rightarrow> u8 list \<Rightarrow> fmt_value list \<Rightarrow> (umem \<Rightarrow> prog) \<Rightarrow> umem \<Rightarrow> prog" where
  "log_impl_userspace filename line_nbr format args k m =
     Syscall getpid m (\<lambda>p.
     print_user (27 # cstring ''[92m({}) {}:{}'' @ 27 # cstring ''[0m '') [fmtvald p, fmtvals filename, fmtvald line_nbr]
       (print_user format args (user_puts [10] k)))"

section \<open>The test program\<close>

definition receiver :: "(umem \<Rightarrow> prog) \<Rightarrow> umem \<Rightarrow> prog" where
  "receiver k m =
     Syscall (ipc_rcv_sync MSG) m (\<lambda>_ m.
     log_impl_userspace (cstring ''main.c'') 27 (cstring ''Got IPC from {} with value {x}'')
       [fmtvald (ipc_sender (umsgs m MSG)), fmtvald (ipc_data (umsgs m MSG))] k m)"

text \<open>The loop of \<^verbatim>\<open>receiver_oneshot\<close>; it does not end while no message comes.\<close>

primcorec oneshot_loop :: "(umem \<Rightarrow> prog) \<Rightarrow> umem \<Rightarrow> prog" where
  "oneshot_loop k m =
     (if ipc_sender (umsgs m MSG) = 0
      then Syscall (ipc_rcv_oneshot MSG) m (\<lambda>_. oneshot_loop k)
      else k m)"

definition receiver_oneshot :: "(umem \<Rightarrow> prog) \<Rightarrow> umem \<Rightarrow> prog" where
  "receiver_oneshot k m =
     oneshot_loop (\<lambda>m.
       log_impl_userspace (cstring ''main.c'') 34 (cstring ''Got IPC ONESHOT from {} with value {x}'')
         [fmtvald (ipc_sender (umsgs m MSG)), fmtvald (ipc_data (umsgs m MSG))] k m)
       (m\<lparr>umsgs := (umsgs m)(MSG := \<lparr>ipc_sender = 0, ipc_receiver = 0, ipc_data = 0\<rparr>)\<rparr>)"

definition sender :: "(umem \<Rightarrow> prog) \<Rightarrow> umem \<Rightarrow> prog" where
  "sender k m =
     Syscall (ipc_send MSG)
       (m\<lparr>umsgs := (umsgs m)(MSG := \<lparr>ipc_sender = 0, ipc_receiver = 1, ipc_data = 0xdeadbeef\<rparr>,
                             MSG2 := \<lparr>ipc_sender = 0, ipc_receiver = 2, ipc_data = 0xcafebabe\<rparr>)\<rparr>)
       (\<lambda>_ m. Syscall (ipc_send MSG2) m (\<lambda>_. k))"

text \<open>\<open>k\<close> goes on with the value \<^verbatim>\<open>main\<close> returns; its two arguments are not used.\<close>

definition user_main :: "(u32 \<Rightarrow> umem \<Rightarrow> prog) \<Rightarrow> umem \<Rightarrow> prog" where
  "user_main k m =
     Syscall getpid m (\<lambda>p.
     if p = 1 then receiver (k 0)
     else if p = 2 then receiver_oneshot (k 0)
     else if p = 3 then sender (k 0)
     else k 0)"

definition user_start :: "umem \<Rightarrow> prog" where
  "user_start = user_main (\<lambda>ex m. Syscall (exit_user (scast ex)) m (\<lambda>_ _. Forever))"

section \<open>Into the kernel\<close>

text \<open>
  What \<^verbatim>\<open>syscall_log\<close> and \<^verbatim>\<open>syscall_exit\<close> print before they return or change the process: the
  string of the user, the log line of \<^verbatim>\<open>syscall.c\<close>.
\<close>

definition syscall_console :: "device \<Rightarrow> mem \<Rightarrow> registers \<Rightarrow> machine \<Rightarrow> machine outcome" where
  "syscall_console dev m r k =
     (if rax r = SYS_LOG then arch_serial_puts dev m (rbx r) k
      else if rax r = SYS_EXIT
      then bind_o (sched_current_process (ksched k)) (\<lambda>cur.
           bind_o (get_proc cur (ksched k)) (\<lambda>x.
           log_impl dev (cstring ''syscall.c'') 34 (cstring ''PID {} exited {}'')
             [fmtvald (pid x), fmtvald (rbx r)] k))
      else Done k)"

text \<open>
  The messages the handlers read and write are those of the address space of the calling process.
  The result is the value and the memory the process goes on with, or nothing while it spins.
\<close>

definition enter_kernel ::
  "device \<Rightarrow> (u64 \<Rightarrow> bool) \<Rightarrow> registers \<Rightarrow> umem \<Rightarrow> machine \<Rightarrow> ((u64 \<times> umem) option \<times> machine) outcome" where
  "enter_kernel dev can r m k =
     bind_o (syscall_console dev (ubytes m) r k) (\<lambda>k.
     bind_o (syscall_handler can r ((ksched k)\<lparr>ipc_mem := umsgs m\<rparr>)) (\<lambda>res.
     case res of
       Returns v s \<Rightarrow> Done (Some (v, m\<lparr>umsgs := ipc_mem s\<rparr>), k\<lparr>ksched := s\<rparr>)
     | Spins s \<Rightarrow> Done (None, k\<lparr>ksched := s\<rparr>)))"

section \<open>Processes on the machine\<close>

text \<open>
  The machine, what each process still has to do, and the text it has given to \<^verbatim>\<open>sys_log\<close>. A
  process that spins in \<^verbatim>\<open>syscall_ipcrcv_sync\<close> looks at its mailbox again when it next runs; one
  that spins in \<^verbatim>\<open>syscall_exit\<close> does so forever.
\<close>

record world =
  wk :: machine
  wprog :: "nat \<Rightarrow> prog"
  wtext :: "nat \<Rightarrow> u8 list"

abbreviation wsched :: "world \<Rightarrow> sched" where
  "wsched w \<equiv> ksched (wk w)"

definition caller :: "world \<Rightarrow> nat" where
  "caller w = unat (current_pid (wsched w))"

definition said :: "registers \<Rightarrow> umem \<Rightarrow> u8 list" where
  "said r m = (if rax r = SYS_LOG then case read_cstr (ubytes m) (rbx r) of None \<Rightarrow> [] | Some bs \<Rightarrow> bs else [])"

definition user_call :: "device \<Rightarrow> (u64 \<Rightarrow> bool) \<Rightarrow> registers \<Rightarrow> world \<Rightarrow> world outcome" where
  "user_call dev can r w =
     (case wprog w (caller w) of
        Forever \<Rightarrow> Done w
      | Syscall f m g \<Rightarrow>
          bind_o (enter_kernel dev can (f r) m (wk w)) (\<lambda>(res, k).
          Done (w\<lparr>wk := k,
            wprog := (wprog w)(caller w :=
              (case res of
                 Some (v, m') \<Rightarrow> g v m'
               | None \<Rightarrow> if rax (f r) = SYS_EXIT then Forever else Syscall f m g)),
            wtext := (wtext w)(caller w := wtext w (caller w) @ said (f r) m)\<rparr>)))"

text \<open>
  A step: the current process, if it is not the kernel's, makes its next call; a timer interrupt;
  the kernel's process, if it is the current one, reaps a process of the table.
\<close>

inductive wstep :: "device \<Rightarrow> (u64 \<Rightarrow> bool) \<Rightarrow> world \<Rightarrow> world \<Rightarrow> bool" for dev can where
  user: "caller w \<noteq> 0 \<Longrightarrow> user_call dev can r w = Done w' \<Longrightarrow> wstep dev can w w'"
| timer: "yield_task r (wsched w) = Done (r', s) \<Longrightarrow> wstep dev can w (w\<lparr>wk := (wk w)\<lparr>ksched := s\<rparr>\<rparr>)"
| reap: "caller w = 0 \<Longrightarrow> p \<in> set (items (processes (wsched w))) \<Longrightarrow> slay_one p (wsched w) = Done s \<Longrightarrow>
    wstep dev can w (w\<lparr>wk := (wk w)\<lparr>ksched := s\<rparr>\<rparr>)"

inductive wreach :: "device \<Rightarrow> (u64 \<Rightarrow> bool) \<Rightarrow> world \<Rightarrow> world \<Rightarrow> bool" for dev can where
  start: "wreach dev can w w"
| step: "wreach dev can w w1 \<Longrightarrow> wstep dev can w1 w2 \<Longrightarrow> wreach dev can w w2"

inductive_cases wstepE: "wstep dev can w w'"

section \<open>What a program says\<close>

text \<open>
  \<open>says c k p t\<close>: as process \<open>c\<close> the program \<open>p\<close> writes the text \<open>t\<close> and does nothing else, then goes
  on as \<open>k\<close>.
\<close>

inductive says :: "nat \<Rightarrow> (umem \<Rightarrow> prog) \<Rightarrow> prog \<Rightarrow> u8 list \<Rightarrow> bool" for c k where
  ends: "says c k (k m) []"
| pid: "(\<And>m'. says c k (g (of_nat c) m') t) \<Longrightarrow> says c k (Syscall getpid m g) t"
| puts: "cstr (ubytes m) q bs \<Longrightarrow> (\<And>v m'. says c k (g v m') t) \<Longrightarrow> says c k (Syscall (sys_log q) m g) (bs @ t)"

lemma cstr_store_end:
  assumes "short_text bs"
  shows "cstr (store_bytes m p (bs @ [0])) p bs"
  unfolding cstr_iff_nth
proof (intro conjI allI impI)
  fix i
  assume i: "i < length bs"
  then show "store_bytes m p (bs @ [0]) (p + of_nat i) = bs ! i"
    using assms by (subst store_bytes_nth) (auto simp: short_text_def nth_append)
  show "bs ! i \<noteq> 0" using i assms by (metis nth_mem short_text_def)
next
  show "store_bytes m p (bs @ [0]) (p + of_nat (length bs)) = 0"
    using assms by (subst store_bytes_nth) (auto simp: short_text_def nth_append)
qed

lemma says_puts:
  assumes "short_text bs" "\<And>m. says c k (k' m) t"
  shows "says c k (user_puts bs k' m) (bs @ t)"
  unfolding user_puts_def using assms by (intro says.puts) (simp_all add: cstr_store_end)

lemma says_puts_all:
  assumes "short_text (concat bss)" "\<And>m. says c k (k' m) t"
  shows "says c k (user_puts_all bss k' m) (concat bss @ t)"
  using assms(1)
proof (induction bss arbitrary: m)
  case Nil
  then show ?case using assms(2) by simp
next
  case (Cons bs bss)
  then have "short_text bs" "short_text (concat bss)" by (auto simp: short_text_def)
  with Cons.IH show ?case by (simp add: says_puts)
qed

lemma says_print:
  assumes "line_ok (format, args)" "\<And>m. says c k (k' m) t"
  shows "says c k (print_user format args k' m) (fmt_text format args @ t)"
proof -
  have "short_text (fmt_text format args)"
    using fmt_text_short [of format args] assms(1) by (auto simp: short_text_def line_ok_def)
  moreover obtain outs where "PRINT_FORMAT (ubytes m) format args = Some outs" "concat outs = fmt_text format args"
    using PRINT_FORMAT_spec [of format args] assms(1) by (auto simp: line_ok_def value_short_ok)
  ultimately show ?thesis using says_puts_all [of outs, OF _ assms(2)] by (simp add: print_user_def)
qed

lemma says_log:
  assumes "line_ok (format, args)" "value_short (fmtvals filename)"
  shows "says c k (log_impl_userspace filename line_nbr format args k m)
    (fmt_text (27 # cstring ''[92m({}) {}:{}'' @ 27 # cstring ''[0m '')
      [fmtvald (of_nat c), fmtvals filename, fmtvald line_nbr] @ fmt_text format args @ [10])"
proof -
  have "line_ok (27 # cstring ''[92m({}) {}:{}'' @ 27 # cstring ''[0m '',
      [fmtvald (of_nat c), fmtvals filename, fmtvald line_nbr])"
    using assms(2) by (simp add: line_ok_def cstring_def fmtvald_short)
  moreover have "says c k (user_puts [10] k m) [10]" for m
    using says_puts [of "[10]" c k k "[]" m] by (simp add: says.ends short_text_def)
  ultimately show ?thesis unfolding log_impl_userspace_def
    using assms(1) by (intro says.pid says_print)
qed

text \<open>The lines of the two receivers.\<close>

definition user_line :: "nat \<Rightarrow> u8 list" where
  "user_line i =
     (if i = 1 then 27 # cstring ''[92m(1) main.c:27'' @ 27 # cstring ''[0m Got IPC from 3 with value deadbeef'' @ [10]
      else if i = 2
      then 27 # cstring ''[92m(2) main.c:34'' @ 27 # cstring ''[0m Got IPC ONESHOT from 3 with value cafebabe'' @ [10]
      else [])"

definition parcel :: "nat \<Rightarrow> ipc" where
  "parcel i = \<lparr>ipc_sender = 3, ipc_receiver = of_nat i, ipc_data = if i = 1 then 0xdeadbeef else 0xcafebabe\<rparr>"

definition user_exit :: "umem \<Rightarrow> prog" where
  "user_exit m = Syscall (exit_user 0) m (\<lambda>_ _. Forever)"

definition report :: "nat \<Rightarrow> umem \<Rightarrow> prog" where
  "report i m =
     log_impl_userspace (cstring ''main.c'') (if i = 1 then 27 else 34)
       (if i = 1 then cstring ''Got IPC from {} with value {x}'' else cstring ''Got IPC ONESHOT from {} with value {x}'')
       [fmtvald (ipc_sender (umsgs m MSG)), fmtvald (ipc_data (umsgs m MSG))] user_exit m"

lemma radix_digits_step:
  "n < b \<Longrightarrow> radix_digits b n = [n]"
  "2 \<le> b \<Longrightarrow> b \<le> n \<Longrightarrow> radix_digits b n = n mod b # radix_digits b (n div b)"
  by (subst radix_digits.simps, simp)+

lemma mode_single: "mode_of (125 # xs) = 0" "mode_of (c # 125 # xs) = (if c = 125 then 0 else c)"
  by (simp_all add: mode_of_def)

lemma value_texts:
  "value_text 0 (fmtvald 1) = [49]" "value_text 0 (fmtvald 2) = [50]" "value_text 0 (fmtvald 3) = [51]"
  "value_text 0 (fmtvald 27) = [50, 55]" "value_text 0 (fmtvald 34) = [51, 52]" "value_text 0 (fmtvals bs) = bs"
  "value_text 120 (fmtvald 0xdeadbeef) = cstring ''deadbeef''" "value_text 120 (fmtvald 0xcafebabe) = cstring ''cafebabe''"
  by (simp_all add: value_text_def fmtvald_def fmtvals_def decimal_mode_def number_text_def radix_string_def
      radix_digits_step digit_char_def cstring_def)

lemma report_says:
  assumes "i = 1 \<or> i = 2" "umsgs m MSG = parcel i"
  shows "says i user_exit (report i m) (user_line i)"
proof -
  have "line_ok (if i = 1 then cstring ''Got IPC from {} with value {x}'' else cstring ''Got IPC ONESHOT from {} with value {x}'',
      [fmtvald (ipc_sender (umsgs m MSG)), fmtvald (ipc_data (umsgs m MSG))])"
    by (simp add: line_ok_def cstring_def fmtvald_short)
  from says_log [OF this, of "cstring ''main.c''" i user_exit "if i = 1 then 27 else 34" m] show ?thesis
    using assms by (auto simp: report_def user_line_def parcel_def cstring_def mode_single value_texts
        fmtvals_def value_texts(6) [unfolded fmtvals_def])
qed

section \<open>What a call does to the kernel\<close>

definition box :: "sched \<Rightarrow> nat \<Rightarrow> ipc list" where
  "box s i = items (mailbox (proc s i))"

text \<open>The state \<open>s'\<close> after \<open>s\<close>: mailboxes \<open>b\<close>, running processes \<open>r\<close>, all else as before.\<close>

definition becomes :: "sched \<Rightarrow> sched \<Rightarrow> (nat \<Rightarrow> ipc list) \<Rightarrow> (nat \<Rightarrow> bool) \<Rightarrow> bool" where
  "becomes s s' b r \<longleftrightarrow> kernel_ok s' \<and> nproc s' = nproc s \<and> current_pid s' = current_pid s \<and>
     (\<forall>i<nproc s. box s' i = b i \<and> running s' i = r i)"

lemma becomes_frame:
  assumes "kernel_ok s"
  shows "becomes s (s\<lparr>ipc_mem := m\<rparr>) (box s) (running s)" "becomes s (s\<lparr>ipc_mem := m, console := l\<rparr>) (box s) (running s)"
    "becomes s (force_yield (s\<lparr>ipc_mem := m\<rparr>)) (box s) (running s)"
proof -
  have "proc (force_yield (s\<lparr>ipc_mem := m\<rparr>)) = proc s" "nproc (force_yield (s\<lparr>ipc_mem := m\<rparr>)) = nproc s"
    "proc (s\<lparr>ipc_mem := m, console := l\<rparr>) = proc s" "nproc (s\<lparr>ipc_mem := m, console := l\<rparr>) = nproc s"
    by (simp_all add: proc_def nproc_def force_yield_def fun_eq_iff)
  then show "becomes s (s\<lparr>ipc_mem := m\<rparr>) (box s) (running s)" "becomes s (s\<lparr>ipc_mem := m, console := l\<rparr>) (box s) (running s)"
    "becomes s (force_yield (s\<lparr>ipc_mem := m\<rparr>)) (box s) (running s)"
    using assms force_yield_ok [of "s\<lparr>ipc_mem := m\<rparr>"]
    by (simp_all add: becomes_def box_def running_def) (simp add: force_yield_def)
qed

lemma becomes_put:
  assumes ok: "kernel_ok s" and i: "i < nproc s" "pid x = of_nat i" "vec_ok (mailbox x)" "i = 0 \<Longrightarrow> state x = TASK_RUNNING"
  shows "becomes s (put_proc (items (processes s) ! i) x (s\<lparr>ipc_mem := m\<rparr>))
    ((box s)(i := items (mailbox x))) ((running s)(i := (state x = TASK_RUNNING)))"
proof -
  let ?s = "s\<lparr>ipc_mem := m\<rparr>"
  have k: "kernel_ok ?s" and t: "table_ok ?s" using ok handler_ctx(1) [of ?s] by simp_all
  have "kernel_ok (put_proc (items (processes ?s) ! i) x ?s)" using kernel_put [OF k _ i(2-4)] i(1) by simp
  moreover have "proc (put_proc (items (processes ?s) ! i) x ?s) j = (if j = i then x else proc s j)" if "j < nproc s" for j
    using proc_put [OF t, of i j x] that i(1) by simp
  ultimately show ?thesis by (auto simp: becomes_def box_def running_def) (simp add: put_proc_def)
qed

text \<open>A call whose handler returns or spins, on a working console.\<close>

lemma enter_quiet:
  assumes "rax r \<noteq> SYS_LOG" "rax r \<noteq> SYS_EXIT"
  shows "syscall_handler can r ((ksched k)\<lparr>ipc_mem := umsgs m\<rparr>) = Done (Returns v s) \<Longrightarrow>
      enter_kernel dev can r m k = Done (Some (v, m\<lparr>umsgs := ipc_mem s\<rparr>), k\<lparr>ksched := s\<rparr>)"
    "syscall_handler can r ((ksched k)\<lparr>ipc_mem := umsgs m\<rparr>) = Done (Spins s) \<Longrightarrow>
      enter_kernel dev can r m k = Done (None, k\<lparr>ksched := s\<rparr>)"
  using assms by (simp_all add: enter_kernel_def syscall_console_def)

lemma stub_rax [simp]:
  "rax (getpid r) = SYS_GETPID" "rax (sys_log q r) = SYS_LOG" "rax (exit_user n r) = SYS_EXIT"
  "rax (ipc_send q r) = SYS_IPC_SEND" "rax (ipc_rcv_sync q r) = SYS_IPC_RCV_SYNC"
  "rax (ipc_rcv_oneshot q r) = SYS_IPC_RCV_ONESHOT" "rbx (sys_log q r) = q"
  by (simp_all add: user_stubs)

lemma sys_neq [simp]:
  "SYS_GETPID \<noteq> SYS_LOG" "SYS_GETPID \<noteq> SYS_EXIT" "SYS_IPC_SEND \<noteq> SYS_LOG" "SYS_IPC_SEND \<noteq> SYS_EXIT"
  "SYS_IPC_RCV_SYNC \<noteq> SYS_LOG" "SYS_IPC_RCV_SYNC \<noteq> SYS_EXIT" "SYS_IPC_RCV_ONESHOT \<noteq> SYS_LOG"
  "SYS_IPC_RCV_ONESHOT \<noteq> SYS_EXIT" "SYS_EXIT \<noteq> SYS_LOG" "SYS_LOG \<noteq> SYS_EXIT"
  by (simp_all add: sys_numbers)

lemma enter_getpid:
  assumes "kernel_ok (ksched k)" "c = unat (current_pid (ksched k))"
  shows "enter_kernel dev can (getpid r) m k = Done (Some (of_nat c, m), k\<lparr>ksched := (ksched k)\<lparr>ipc_mem := umsgs m\<rparr>\<rparr>)"
proof -
  let ?s = "(ksched k)\<lparr>ipc_mem := umsgs m\<rparr>"
  have "kernel_ok ?s" using assms(1) by simp
  note ctx = handler_ctx [OF this]
  have "syscall_handler can (getpid r) ?s = Done (Returns (of_nat c) ?s)"
    using ctx assms(2) by (simp add: handler_simps syscall_getpid_def)
  from enter_quiet(1) [OF _ _ this] show ?thesis by simp
qed

lemma enter_log:
  assumes "console_up dev k" "cstr (ubytes m) q bs"
  shows "\<exists>p l. enter_kernel dev can (sys_log q r) m k =
    Done (Some (0, m), k\<lparr>kports := p, ksched := (ksched k)\<lparr>ipc_mem := umsgs m, console := l\<rparr>\<rparr>)"
proof -
  obtain p where "arch_serial_puts dev (ubytes m) q k = Done (k\<lparr>kports := p\<rparr>)"
    using arch_serial_puts_prints [OF assms] by (auto simp: printed_def)
  then show ?thesis
    by (auto simp: enter_kernel_def syscall_console_def syscall_handler_def syscall_matrix_def syscall_log_def sys_numbers
        stub_rax [unfolded sys_numbers])
qed

lemma enter_exit:
  assumes ok: "kernel_ok (ksched k)" and up: "console_up dev k" and c: "c = unat (current_pid (ksched k))" "c \<noteq> 0"
  shows "\<exists>p s. enter_kernel dev can (exit_user st r) m k = Done (None, k\<lparr>kports := p, ksched := s\<rparr>) \<and>
    becomes (ksched k) s (box (ksched k)) ((running (ksched k))(c := False))"
proof -
  let ?s = "(ksched k)\<lparr>ipc_mem := umsgs m\<rparr>"
  have ok': "kernel_ok ?s" using ok by simp
  note ctx = handler_ctx [OF ok]
  let ?x = "(proc ?s c)\<lparr>return_value := ucast st, state := TASK_WAITINGFORDEATH\<rparr>"
  obtain p where p: "syscall_console dev (ubytes m) (exit_user st r) k = Done (k\<lparr>kports := p\<rparr>)"
    using log_returns [OF up, of "cstring ''PID {} exited {}''" "[fmtvald (pid (proc (ksched k) c)), fmtvald st]" "cstring ''syscall.c''" 34]
      ctx c(1)
    by (auto simp: syscall_console_def line_ok_def fmtvald_short fmtvals_def cstring_def)
  have "syscall_handler can (exit_user st r) ?s = Done (Spins (put_proc (items (processes ?s) ! c) ?x ?s))"
    using exit_eq [OF ok', of "exit_user st r"] c(1) by (simp add: handler_simps)
  moreover have "becomes (ksched k) (put_proc (items (processes ?s) ! c) ?x ?s) (box (ksched k)) ((running (ksched k))(c := False))"
    using becomes_put [OF ok, of c ?x "umsgs m"] ctx c by (simp add: box_def fun_upd_idem)
  ultimately show ?thesis using p
    by (intro exI [of _ p] exI [of _ "put_proc (items (processes ?s) ! c) ?x ?s"]) (simp add: enter_kernel_def)
qed

lemma enter_receive:
  assumes ok: "kernel_ok (ksched k)" and c: "c = unat (current_pid (ksched k))"
    and f: "f = ipc_rcv_sync q \<or> f = ipc_rcv_oneshot q" and b: "box (ksched k) c = [x]"
  shows "\<exists>s. enter_kernel dev can (f r) m k = Done (Some (0, m\<lparr>umsgs := (umsgs m)(q := x)\<rparr>), k\<lparr>ksched := s\<rparr>) \<and>
    becomes (ksched k) s ((box (ksched k))(c := [])) (running (ksched k))"
proof -
  let ?s = "(ksched k)\<lparr>ipc_mem := umsgs m\<rparr>"
  have ok': "kernel_ok ?s" using ok by simp
  note ctx = handler_ctx [OF ok'] and ctx0 = handler_ctx [OF ok]
  have items: "items (mailbox (proc ?s c)) = [] @ [x]" using b by (simp add: box_def)
  then have ne: "vlength (mailbox (proc ?s c)) \<noteq> 0" using mailbox_empty [OF ctx(6)] c by simp
  let ?x = "(proc ?s c)\<lparr>mailbox := (mailbox (proc ?s c))\<lparr>items := []\<rparr>\<rparr>"
  let ?s' = "put_proc (items (processes ?s) ! c) ?x (?s\<lparr>ipc_mem := (ipc_mem ?s)(q := x)\<rparr>)"
  have r: "rbx (f r) = q" "rax (f r) \<noteq> SYS_LOG" "rax (f r) \<noteq> SYS_EXIT" using f by auto
  have "syscall_handler can (f r) ?s = Done (Returns 0 ?s')"
    using f receive_eq [OF ok' items, of "f r"] ctx(3,4) ne c
    by (elim disjE) (simp_all add: handler_simps syscall_ipcrcv_sync_def syscall_ipcrcv_oneshot_def)
  from enter_quiet(1) [OF r(2,3) this] have "enter_kernel dev can (f r) m k =
      Done (Some (0, m\<lparr>umsgs := (umsgs m)(q := x)\<rparr>), k\<lparr>ksched := ?s'\<rparr>)"
    by (simp add: put_proc_def)
  moreover have "c = 0 \<Longrightarrow> state (proc (ksched k) c) = TASK_RUNNING" using ctx0(7) by (simp add: running_def)
  then have "becomes (ksched k) ?s' ((box (ksched k))(c := [])) (running (ksched k))"
    using becomes_put [OF ok, of c ?x "(umsgs m)(q := x)"] ctx0 c items
    by (simp add: vec_ok_def running_def [symmetric] fun_upd_idem)
  ultimately show ?thesis by blast
qed

lemma enter_empty:
  assumes ok: "kernel_ok (ksched k)" and c: "c = unat (current_pid (ksched k))" and b: "box (ksched k) c = []"
  shows "enter_kernel dev can (ipc_rcv_sync q r) m k =
      Done (None, k\<lparr>ksched := force_yield ((ksched k)\<lparr>ipc_mem := umsgs m\<rparr>)\<rparr>)"
    "enter_kernel dev can (ipc_rcv_oneshot q r) m k =
      Done (Some (0, m), k\<lparr>ksched := (ksched k)\<lparr>ipc_mem := umsgs m\<rparr>\<rparr>)"
proof -
  let ?s = "(ksched k)\<lparr>ipc_mem := umsgs m\<rparr>"
  have ok': "kernel_ok ?s" using ok by simp
  note ctx = handler_ctx [OF ok']
  have e: "vlength (mailbox (proc ?s c)) = 0" using mailbox_empty [OF ctx(6)] b c by (simp add: box_def)
  have "syscall_handler can (ipc_rcv_sync q r) ?s = Done (Spins (force_yield ?s))"
    "syscall_handler can (ipc_rcv_oneshot q r) ?s = Done (Returns 0 ?s)"
    using ctx(3,4) e c by (simp_all add: handler_simps syscall_ipcrcv_sync_def syscall_ipcrcv_oneshot_def)
  from enter_quiet(2) [OF _ _ this(1)] enter_quiet(1) [OF _ _ this(2)] show
    "enter_kernel dev can (ipc_rcv_sync q r) m k = Done (None, k\<lparr>ksched := force_yield ?s\<rparr>)"
    "enter_kernel dev can (ipc_rcv_oneshot q r) m k = Done (Some (0, m), k\<lparr>ksched := ?s\<rparr>)"
    by simp_all
qed

lemma enter_send:
  assumes ok: "kernel_ok (ksched k)" and can: "\<forall>n. can n" and d: "unat (ipc_receiver (umsgs m q)) = d" "d < nproc (ksched k)"
    and run: "running (ksched k) d" and b: "box (ksched k) d = []"
  defines "x \<equiv> (umsgs m q)\<lparr>ipc_sender := current_pid (ksched k)\<rparr>"
  shows "\<exists>s. enter_kernel dev can (ipc_send q r) m k = Done (Some (0, m\<lparr>umsgs := (umsgs m)(q := x)\<rparr>), k\<lparr>ksched := s\<rparr>) \<and>
    becomes (ksched k) s ((box (ksched k))(d := [x])) (running (ksched k))"
proof -
  let ?s = "(ksched k)\<lparr>ipc_mem := umsgs m\<rparr>"
  have ok': "kernel_ok ?s" using ok by simp
  note ctx = handler_ctx [OF ok]
  obtain v where v: "vec_push can 24 x (mailbox (proc (ksched k) d)) = Done v" "items v = [x]" "vec_ok v"
    using vec_push_Done [OF proc_facts(2) [OF ctx(1) d(2)], of can 24 x] can b by (auto simp: box_def)
  let ?y = "(proc (ksched k) d)\<lparr>mailbox := v\<rparr>"
  let ?s' = "put_proc (items (processes (ksched k)) ! d) ?y ((ksched k)\<lparr>ipc_mem := (umsgs m)(q := x)\<rparr>)"
  have "syscall_handler can (ipc_send q r) ?s = Done (Returns 0 ?s')"
    using ipcsend_eq [OF ok', of can "ipc_send q r"] v(1) d run by (simp add: handler_simps x_def)
  from enter_quiet(1) [OF _ _ this] have "enter_kernel dev can (ipc_send q r) m k =
      Done (Some (0, m\<lparr>umsgs := (umsgs m)(q := x)\<rparr>), k\<lparr>ksched := ?s'\<rparr>)"
    by (simp add: put_proc_def)
  moreover have "becomes (ksched k) ?s' ((box (ksched k))(d := [x])) (running (ksched k))"
    using becomes_put [OF ok d(2), of ?y "(umsgs m)(q := x)"] proc_facts(1) [OF ctx(1) d(2)] run v(2,3)
    by (auto simp: running_def fun_upd_idem)
  ultimately show ?thesis by blast
qed

text \<open>Timer and reaper leave mailboxes and states as they are.\<close>

lemma becomes_timer:
  assumes ok: "kernel_ok s" and y: "yield_task r s = Done (r', s')"
  shows "kernel_ok s'" "nproc s' = nproc s" "\<forall>i<nproc s. box s' i = box s i \<and> running s' i = running s i"
proof -
  have sok: "sched_ok s" using ok by (rule kernel_ok_sched)
  show "kernel_ok s'" by (rule timer_ok [OF ok y])
  note ctx = handler_ctx [OF ok]
  have "nproc s' = nproc s \<and> (\<forall>i<nproc s. box s' i = box s i \<and> running s' i = running s i)"
  proof (cases "tick s < SWITCH_TICK")
    case True
    then have "s' = s\<lparr>tick := tick s + 1\<rparr>" using y yield_quiet [of s r] sok by (simp add: sched_ok_def)
    then show ?thesis by (simp add: box_def running_def proc_def nproc_def)
  next
    case False
    then have t: "tick s = SWITCH_TICK" using sok by (auto simp: sched_ok_def)
    obtain k where k: "next_running s (unat (current_pid s)) = Some k"
      using next_running_Some [of 0 s] ctx by auto
    let ?c = "unat (current_pid s)"
    have s': "s' = switched r ?c k s" using y yield_switch [OF sok t k, of r] by simp
    have "proc s' i = proc (put_proc (items (processes s) ! ?c) ((proc s ?c)\<lparr>regs := r\<rparr>) s) i" for i
      by (simp add: s' switched_def Let_def arch_space_switch_def proc_def put_proc_def)
    then have "box s' i = box s i" if "i < nproc s" for i
      using proc_put [OF ctx(1,2) that, of "(proc s ?c)\<lparr>regs := r\<rparr>"] by (simp add: box_def)
    then show ?thesis
      using switched_ok(2,5) [OF sok pick_next_eq(2) [OF ctx(1,2) k]] s' by simp
  qed
  then show "nproc s' = nproc s" "\<forall>i<nproc s. box s' i = box s i \<and> running s' i = running s i" by simp_all
qed

lemma becomes_reap:
  assumes ok: "kernel_ok s" and r: "slay_one p s = Done s'"
  shows "becomes s s' (box s) (running s)"
proof -
  have "s' = s\<lparr>vm := vm s', kfreed := kfreed s'\<rparr>"
    using r by (auto simp: slay_one_def get_proc_def call_pmm_free_def arch_space_destroy_def split: option.splits if_splits)
  then obtain v l where "s' = s\<lparr>vm := v, kfreed := l\<rparr>" by blast
  then show ?thesis
    using ok by (auto simp: becomes_def box_def running_def proc_def nproc_def kernel_ok_def sched_ok_def table_ok_def)
qed

section \<open>The three copies together\<close>

text \<open>
  A receiver first waits: it has written nothing and its mailbox holds the message once the sender
  has sent it. Then it has the message and still has to write the rest of its line.
\<close>

definition waiting :: "nat \<Rightarrow> prog \<Rightarrow> bool" where
  "waiting i p \<longleftrightarrow> (\<exists>m. p = user_start m) \<or> (i = 1 \<and> (\<exists>m. p = receiver user_exit m)) \<or>
     (i = 2 \<and> (\<exists>m. p = oneshot_loop (report 2) m \<and> ipc_sender (umsgs m MSG) = 0))"

definition receiver_inv :: "nat \<Rightarrow> bool \<Rightarrow> prog \<Rightarrow> u8 list \<Rightarrow> ipc list \<Rightarrow> bool \<Rightarrow> bool" where
  "receiver_inv i sent p t b run \<longleftrightarrow>
     (waiting i p \<and> t = [] \<and> run \<and> b = (if sent then [parcel i] else [])) \<or>
     (sent \<and> b = [] \<and> run \<and> (\<exists>rest. says i user_exit p rest \<and> t @ rest = user_line i)) \<or>
     (sent \<and> b = [] \<and> p = Forever \<and> t = user_line i)"

definition sender_inv :: "bool \<Rightarrow> bool \<Rightarrow> prog \<Rightarrow> u8 list \<Rightarrow> bool \<Rightarrow> bool" where
  "sender_inv s1 s2 p t run \<longleftrightarrow> t = [] \<and>
     ((run \<and> \<not> s1 \<and> \<not> s2 \<and> (\<exists>m. p = user_start m \<or> p = sender user_exit m)) \<or>
      (run \<and> s1 \<and> \<not> s2 \<and> (\<exists>m. p = Syscall (ipc_send MSG2) m (\<lambda>_. user_exit) \<and>
         umsgs m MSG2 = \<lparr>ipc_sender = 0, ipc_receiver = 2, ipc_data = 0xcafebabe\<rparr>)) \<or>
      (run \<and> s1 \<and> s2 \<and> (\<exists>m. p = user_exit m)) \<or> (s1 \<and> s2 \<and> p = Forever))"

definition world_inv :: "device \<Rightarrow> world \<Rightarrow> bool" where
  "world_inv dev w \<longleftrightarrow> kernel_ok (wsched w) \<and> nproc (wsched w) = 4 \<and> console_up dev (wk w) \<and>
     (\<exists>sent. (\<forall>i\<in>{1, 2}. receiver_inv i (sent i) (wprog w i) (wtext w i) (box (wsched w) i) (running (wsched w) i)) \<and>
        sender_inv (sent 1) (sent 2) (wprog w 3) (wtext w 3) (running (wsched w) 3))"

lemma main_forms:
  "user_start m = Syscall getpid m (\<lambda>p. if p = 1 then receiver user_exit else if p = 2 then receiver_oneshot user_exit
     else if p = 3 then sender user_exit else user_exit)"
  "receiver user_exit m = Syscall (ipc_rcv_sync MSG) m (\<lambda>_. report 1)"
  "receiver_oneshot user_exit m = oneshot_loop (report 2) (m\<lparr>umsgs := (umsgs m)(MSG := \<lparr>ipc_sender = 0, ipc_receiver = 0, ipc_data = 0\<rparr>)\<rparr>)"
proof -
  have e: "(\<lambda>m. Syscall (exit_user (scast (0 :: u32))) m (\<lambda>_ _. Forever)) = user_exit"
    by (simp add: fun_eq_iff user_exit_def)
  show "user_start m = Syscall getpid m (\<lambda>p. if p = 1 then receiver user_exit else if p = 2 then receiver_oneshot user_exit
     else if p = 3 then sender user_exit else user_exit)"
    unfolding user_start_def user_main_def e ..
qed (simp_all add: receiver_def receiver_oneshot_def report_def [abs_def])

text \<open>The call of a process: the new machine, program and text.\<close>

lemma user_call_enter:
  assumes "wprog w (caller w) = Syscall f m g" "enter_kernel dev can (f r) m (wk w) = Done (res, k)"
  shows "user_call dev can r w = Done (w\<lparr>wk := k,
    wprog := (wprog w)(caller w := (case res of Some (v, m') \<Rightarrow> g v m'
       | None \<Rightarrow> if rax (f r) = SYS_EXIT then Forever else Syscall f m g)),
    wtext := (wtext w)(caller w := wtext w (caller w) @ said (f r) m)\<rparr>)"
  using assms by (simp add: user_call_def)

lemma console_up_sched [simp]: "console_up dev (k\<lparr>ksched := s\<rparr>) = console_up dev k"
  by (simp add: console_up_def)

lemma said_quiet: "rax r \<noteq> SYS_LOG \<Longrightarrow> said r m = []"
  by (simp add: said_def)

text \<open>
  One call of the process \<open>c\<close>: it is served, and afterwards the process satisfies \<open>P\<close>, of its
  program, its text, its mailbox and whether it runs.
\<close>

definition served :: "device \<Rightarrow> (u64 \<Rightarrow> bool) \<Rightarrow> registers \<Rightarrow> world \<Rightarrow>
    (prog \<Rightarrow> u8 list \<Rightarrow> ipc list \<Rightarrow> bool \<Rightarrow> bool) \<Rightarrow> bool" where
  "served dev can r w P \<longleftrightarrow> (\<exists>w'. user_call dev can r w = Done w' \<and> console_up dev (wk w') \<and>
     kernel_ok (wsched w') \<and> nproc (wsched w') = nproc (wsched w) \<and>
     P (wprog w' (caller w)) (wtext w' (caller w)) (box (wsched w') (caller w)) (running (wsched w') (caller w)) \<and>
     (\<forall>i<nproc (wsched w). i \<noteq> caller w \<longrightarrow> wprog w' i = wprog w i \<and> wtext w' i = wtext w i \<and>
        box (wsched w') i = box (wsched w) i \<and> running (wsched w') i = running (wsched w) i))"

lemma servedI:
  assumes "wprog w (caller w) = Syscall f m g" "kernel_ok (wsched w)"
    and "enter_kernel dev can (f r) m (wk w) = Done (res, k)" "console_up dev k"
    and b: "becomes (wsched w) (ksched k) ((box (wsched w))(caller w := b)) ((running (wsched w))(caller w := x))"
    and "P (case res of Some (v, m') \<Rightarrow> g v m' | None \<Rightarrow> if rax (f r) = SYS_EXIT then Forever else Syscall f m g)
      (wtext w (caller w) @ said (f r) m) b x"
  shows "served dev can r w P"
proof -
  have "caller w < nproc (wsched w)" using handler_ctx(2) [OF assms(2)] by (simp add: caller_def)
  then show ?thesis
    unfolding served_def user_call_enter [OF assms(1,3)] using b assms(4,6) by (simp add: becomes_def)
qed

lemma says_call:
  assumes ok: "kernel_ok (wsched w)" and up: "console_up dev (wk w)" and c: "caller w = c" "c \<noteq> 0"
    and says: "says c user_exit (wprog w c) rest" and b: "box (wsched w) c = b" "running (wsched w) c"
  shows "served dev can r w (\<lambda>p t b' run. b' = b \<and>
    ((run \<and> (\<exists>rest'. says c user_exit p rest' \<and> t @ rest' = wtext w c @ rest)) \<or> (p = Forever \<and> t = wtext w c @ rest)))"
  using says
proof cases
  case (ends m)
  from enter_exit [OF ok up _ c(2), of can 0 r m] obtain p s where
    e: "enter_kernel dev can (exit_user 0 r) m (wk w) = Done (None, (wk w)\<lparr>kports := p, ksched := s\<rparr>)"
    and "becomes (wsched w) s (box (wsched w)) ((running (wsched w))(c := False))"
    using c(1) by (auto simp: caller_def)
  then show ?thesis using ends b c up
    by (intro servedI [where f = "exit_user 0" and x = False and b = b, OF _ ok e]) (auto simp: user_exit_def said_quiet)
next
  case (pid g m)
  have "c = unat (current_pid (wsched w))" using c(1) by (simp add: caller_def)
  note e = enter_getpid [OF ok this]
  show ?thesis
    using pid c b up becomes_frame(1) [OF ok, of "umsgs m"]
    by (intro servedI [where f = getpid and x = True and b = b, OF _ ok e]) (auto simp: said_quiet fun_upd_idem)
next
  case (puts m q bs g t)
  from enter_log [OF up puts(3), of can r] obtain p l where
    e: "enter_kernel dev can (sys_log q r) m (wk w) =
       Done (Some (0, m), (wk w)\<lparr>kports := p, ksched := (wsched w)\<lparr>ipc_mem := umsgs m, console := l\<rparr>\<rparr>)" by auto
  have "said (sys_log q r) m = bs" using read_cstr_cstr [OF puts(3)] by (simp add: said_def)
  then show ?thesis
    using puts c b up becomes_frame(2) [OF ok, where m = "umsgs m" and l = l]
    by (intro servedI [where f = "sys_log q" and x = True and b = b, OF _ ok e]) (auto simp: fun_upd_idem)
qed

text \<open>Whether its program is done or not, a receiver that has its message keeps to its line.\<close>

lemma receiver_says:
  assumes "kernel_ok (wsched w)" "console_up dev (wk w)" "caller w = i" "i \<noteq> 0"
    and "says i user_exit (wprog w i) rest" "wtext w i @ rest = user_line i" "box (wsched w) i = []" "running (wsched w) i"
  shows "served dev can r w (receiver_inv i True)"
  using says_call [OF assms(1-5,7,8), of can r] assms(6) unfolding served_def receiver_inv_def by fastforce

lemma receiver_call:
  assumes ok: "kernel_ok (wsched w)" and up: "console_up dev (wk w)" and i: "caller w = i" "i = 1 \<or> i = 2"
    and inv: "receiver_inv i sent (wprog w i) (wtext w i) (box (wsched w) i) (running (wsched w) i)"
  shows "served dev can r w (receiver_inv i sent)"
proof -
  have i0: "i \<noteq> 0" using i(2) by auto
  have c: "i = unat (current_pid (wsched w))" using i(1) by (simp add: caller_def)
  consider (over) "sent" "wprog w i = Forever"
    | (rest) rest where "sent" "box (wsched w) i = []" "running (wsched w) i" "says i user_exit (wprog w i) rest"
        "wtext w i @ rest = user_line i"
    | (wait) "waiting i (wprog w i)" "wtext w i = []" "running (wsched w) i" "box (wsched w) i = (if sent then [parcel i] else [])"
    using inv by (auto simp: receiver_inv_def)
  then show ?thesis
  proof cases
    case over
    then show ?thesis using inv ok up i(1) by (simp add: served_def user_call_def)
  next
    case rest
    then show ?thesis using receiver_says [OF ok up i(1) i0 rest(4,5,2,3)] by simp
  next
    case wait
    note frame = becomes_frame [OF ok]
    from wait(1) consider (start) m where "wprog w i = user_start m"
      | (sync) m where "i = 1" "wprog w i = receiver user_exit m"
      | (oneshot) m where "i = 2" "wprog w i = oneshot_loop (report 2) m" "ipc_sender (umsgs m MSG) = 0"
      by (auto simp: waiting_def)
    then show ?thesis
    proof cases
      case start
      let ?g = "if i = 1 then receiver user_exit else receiver_oneshot user_exit"
      have g: "waiting i (?g m)" using i(2) by (auto simp: waiting_def main_forms(3))
      have "(if of_nat i = (1 :: u64) then receiver user_exit else if of_nat i = (2 :: u64) then receiver_oneshot user_exit
          else if of_nat i = (3 :: u64) then sender user_exit else user_exit) = ?g" using i(2) by auto
      moreover have "wprog w (caller w) = Syscall getpid m (\<lambda>p. if p = 1 then receiver user_exit
          else if p = 2 then receiver_oneshot user_exit else if p = 3 then sender user_exit else user_exit)"
        using start i(1) by (simp add: main_forms(1))
      note servedI [where x = True and b = "box (wsched w) i", OF this ok enter_getpid [OF ok c]]
      ultimately show ?thesis
        using wait i(1) up frame(1) [of "umsgs m"] g by (simp add: said_quiet fun_upd_idem receiver_inv_def)
    next
      case sync
      show ?thesis
      proof (cases sent)
        case True
        then have b: "box (wsched w) i = [parcel i]" using wait(4) by simp
        obtain s where e: "enter_kernel dev can (ipc_rcv_sync MSG r) m (wk w) =
            Done (Some (0, m\<lparr>umsgs := (umsgs m)(MSG := parcel i)\<rparr>), (wk w)\<lparr>ksched := s\<rparr>)"
          and "becomes (wsched w) s ((box (wsched w))(i := [])) (running (wsched w))"
          using enter_receive [OF ok c _ b, of "ipc_rcv_sync MSG" MSG dev can r m] by auto
        moreover have "says i user_exit (report 1 (m\<lparr>umsgs := (umsgs m)(MSG := parcel i)\<rparr>)) (user_line i)"
          using report_says [of i "m\<lparr>umsgs := (umsgs m)(MSG := parcel i)\<rparr>"] sync(1) by simp
        ultimately show ?thesis using sync wait i up True
          by (intro servedI [where f = "ipc_rcv_sync MSG" and x = True and b = "[]", OF _ ok e])
            (auto simp: main_forms(2) said_quiet fun_upd_idem receiver_inv_def)
      next
        case False
        then show ?thesis
          using sync wait i up frame(3) [of "umsgs m"]
          by (intro servedI [where f = "ipc_rcv_sync MSG" and x = True and b = "[]", OF _ ok enter_empty(1) [OF ok c]])
            (auto simp: main_forms(2) said_quiet fun_upd_idem receiver_inv_def waiting_def)
      qed
    next
      case oneshot
      then have p: "wprog w i = Syscall (ipc_rcv_oneshot MSG) m (\<lambda>_. oneshot_loop (report 2))"
        by (simp add: oneshot_loop.code [of _ m])
      show ?thesis
      proof (cases sent)
        case True
        then have b: "box (wsched w) i = [parcel i]" using wait(4) by simp
        let ?m = "m\<lparr>umsgs := (umsgs m)(MSG := parcel i)\<rparr>"
        obtain s where e: "enter_kernel dev can (ipc_rcv_oneshot MSG r) m (wk w) = Done (Some (0, ?m), (wk w)\<lparr>ksched := s\<rparr>)"
          and "becomes (wsched w) s ((box (wsched w))(i := [])) (running (wsched w))"
          using enter_receive [OF ok c _ b, of "ipc_rcv_oneshot MSG" MSG dev can r m] by auto
        moreover have "oneshot_loop (report 2) ?m = report 2 ?m"
          by (subst oneshot_loop.code) (simp add: parcel_def)
        moreover have "says i user_exit (report 2 ?m) (user_line i)"
          using report_says [of i ?m] oneshot(1) by simp
        ultimately show ?thesis using p oneshot(1) wait i up True
          by (intro servedI [where f = "ipc_rcv_oneshot MSG" and x = True and b = "[]", OF _ ok e])
            (auto simp: said_quiet fun_upd_idem receiver_inv_def)
      next
        case False
        then show ?thesis
          using p oneshot wait i up frame(1) [of "umsgs m"]
          by (intro servedI [where f = "ipc_rcv_oneshot MSG" and x = True and b = "[]", OF _ ok enter_empty(2) [OF ok c]])
            (auto simp: said_quiet fun_upd_idem receiver_inv_def waiting_def)
      qed
    qed
  qed
qed

lemma sender_world:
  assumes w: "nproc (wsched w) = 4" "caller w = 3" "wprog w 3 = Syscall f m g" "wtext w 3 = []" "rax (f r) \<noteq> SYS_LOG"
    and e: "enter_kernel dev can (f r) m (wk w) = Done (res, k)" "console_up dev k" "becomes (wsched w) (ksched k) b x"
    and r: "\<forall>i\<in>{1, 2}. receiver_inv i (sent i) (wprog w i) (wtext w i) (b i) (x i)"
    and p: "(case res of Some (v, m') \<Rightarrow> g v m' | None \<Rightarrow> if rax (f r) = SYS_EXIT then Forever else Syscall f m g) = p"
    and s: "sender_inv (sent 1) (sent 2) p [] (x 3)"
  shows "\<exists>w'. user_call dev can r w = Done w' \<and> world_inv dev w'"
proof -
  have b: "box (ksched k) i = b i" "running (ksched k) i = x i" if "i < 4" for i
    using e(3) that w(1) by (simp_all add: becomes_def)
  have "\<forall>i\<in>{1, 2}. receiver_inv i (sent i) (wprog w i) (wtext w i) (box (ksched k) i) (running (ksched k) i)"
    using r b by simp
  note rb = this
  show ?thesis
    unfolding user_call_enter [OF w(3) [folded w(2)] e(1), unfolded p] world_inv_def
    by (rule exI, rule conjI [OF refl])
      (use rb w e(2,3) s b(2) [of 3] in \<open>auto simp: becomes_def said_quiet intro!: exI [of _ sent]\<close>)
qed

lemma receiver_sent:
  assumes "receiver_inv i False p t b run" "i = 1 \<or> i = 2"
  shows "run" "b = []" "receiver_inv i True p t [parcel i] run"
  using assms by (auto simp: receiver_inv_def)

lemma sender_call:
  assumes ok: "kernel_ok (wsched w)" "nproc (wsched w) = 4" and up: "console_up dev (wk w)" and can: "\<forall>n. can n" and c: "caller w = 3"
    and r: "\<forall>i\<in>{1, 2}. receiver_inv i (sent i) (wprog w i) (wtext w i) (box (wsched w) i) (running (wsched w) i)"
    and s: "sender_inv (sent 1) (sent 2) (wprog w 3) (wtext w 3) (running (wsched w) 3)"
  shows "\<exists>w'. user_call dev can r w = Done w' \<and> world_inv dev w'"
proof -
  have c': "3 = unat (current_pid (wsched w))" using c by (simp add: caller_def)
  then have pid: "current_pid (wsched w) = 3" by (simp add: word_unat_eq_iff)
  have t: "wtext w 3 = []" using s by (simp add: sender_inv_def)
  from s consider (over) "wprog w 3 = Forever"
    | (start) m where "running (wsched w) 3" "\<not> sent 1" "\<not> sent 2" "wprog w 3 = user_start m"
    | (first) m where "running (wsched w) 3" "\<not> sent 1" "\<not> sent 2" "wprog w 3 = sender user_exit m"
    | (second) m where "running (wsched w) 3" "sent 1" "\<not> sent 2" "wprog w 3 = Syscall (ipc_send MSG2) m (\<lambda>_. user_exit)"
        "umsgs m MSG2 = \<lparr>ipc_sender = 0, ipc_receiver = 2, ipc_data = 0xcafebabe\<rparr>"
    | (exit) m where "running (wsched w) 3" "sent 1" "sent 2" "wprog w 3 = user_exit m"
    by (auto simp: sender_inv_def)
  then show ?thesis
  proof cases
    case over
    then show ?thesis using ok up c r s by (auto simp: user_call_def world_inv_def)
  next
    case start
    note e = enter_getpid [OF ok(1) c', of dev can r m]
    have k: "becomes (wsched w) (ksched ((wk w)\<lparr>ksched := (wsched w)\<lparr>ipc_mem := umsgs m\<rparr>\<rparr>)) (box (wsched w)) (running (wsched w))"
      using becomes_frame(1) [OF ok(1)] by simp
    show ?thesis
      by (rule sender_world [where f = getpid and sent = sent, OF ok(2) c start(4) [unfolded main_forms(1)] t _ e _ k r])
        (use up start in \<open>auto simp: sender_inv_def\<close>)
  next
    case first
    have r1: "receiver_inv 1 False (wprog w 1) (wtext w 1) (box (wsched w) 1) (running (wsched w) 1)" using r first(2) by simp
    note x = receiver_sent [OF r1]
    let ?m = "m\<lparr>umsgs := (umsgs m)(MSG := \<lparr>ipc_sender = 0, ipc_receiver = 1, ipc_data = 0xdeadbeef\<rparr>,
                             MSG2 := \<lparr>ipc_sender = 0, ipc_receiver = 2, ipc_data = 0xcafebabe\<rparr>)\<rparr>"
    obtain k where e: "enter_kernel dev can (ipc_send MSG r) ?m (wk w) = Done (Some (0, ?m\<lparr>umsgs := (umsgs ?m)(MSG := parcel 1)\<rparr>), (wk w)\<lparr>ksched := k\<rparr>)"
      "becomes (wsched w) (ksched ((wk w)\<lparr>ksched := k\<rparr>)) ((box (wsched w))(1 := [parcel 1])) (running (wsched w))"
      using enter_send [OF ok(1) can _ _ _ x(2), of ?m MSG dev r] x(1) ok(2) pid by (auto simp: parcel_def MSG_def MSG2_def)
    show ?thesis
      by (rule sender_world [where f = "ipc_send MSG" and sent = "sent(1 := True)", OF ok(2) c first(4) [unfolded sender_def] t _ e(1) _ e(2)])
        (use up first x(3) r in \<open>auto simp: sender_inv_def MSG_def MSG2_def\<close>)
  next
    case second
    have r2: "receiver_inv 2 False (wprog w 2) (wtext w 2) (box (wsched w) 2) (running (wsched w) 2)" using r second(3) by simp
    note x = receiver_sent [OF r2]
    obtain k where e: "enter_kernel dev can (ipc_send MSG2 r) m (wk w) = Done (Some (0, m\<lparr>umsgs := (umsgs m)(MSG2 := parcel 2)\<rparr>), (wk w)\<lparr>ksched := k\<rparr>)"
      "becomes (wsched w) (ksched ((wk w)\<lparr>ksched := k\<rparr>)) ((box (wsched w))(2 := [parcel 2])) (running (wsched w))"
      using enter_send [OF ok(1) can _ _ _ x(2), of m MSG2 dev r] x(1) ok(2) pid second(5) by (auto simp: parcel_def)
    show ?thesis
      by (rule sender_world [where f = "ipc_send MSG2" and sent = "sent(2 := True)", OF ok(2) c second(4) t _ e(1) _ e(2)])
        (use up second x(3) r in \<open>auto simp: sender_inv_def\<close>)
  next
    case exit
    obtain p k where e: "enter_kernel dev can (exit_user 0 r) m (wk w) = Done (None, (wk w)\<lparr>kports := p, ksched := k\<rparr>)"
      "becomes (wsched w) (ksched ((wk w)\<lparr>kports := p, ksched := k\<rparr>)) (box (wsched w)) ((running (wsched w))(3 := False))"
      using enter_exit [OF ok(1) up c', of can 0 r m] by auto
    show ?thesis
      by (rule sender_world [where f = "exit_user 0" and sent = sent, OF ok(2) c exit(4) [unfolded user_exit_def] t _ e(1) _ e(2)])
        (use up exit r in \<open>auto simp: sender_inv_def\<close>)
  qed
qed

lemma world_call:
  assumes inv: "world_inv dev w" and can: "\<forall>n. can n" and c: "caller w \<noteq> 0"
  shows "\<exists>w'. user_call dev can r w = Done w' \<and> world_inv dev w'"
proof -
  obtain sent where w: "kernel_ok (wsched w)" "nproc (wsched w) = 4" "console_up dev (wk w)"
    and r: "\<forall>i\<in>{1, 2}. receiver_inv i (sent i) (wprog w i) (wtext w i) (box (wsched w) i) (running (wsched w) i)"
    and s: "sender_inv (sent 1) (sent 2) (wprog w 3) (wtext w 3) (running (wsched w) 3)"
    using inv unfolding world_inv_def by blast
  have "caller w < 4" using handler_ctx(2) [OF w(1)] w(2) by (simp add: caller_def)
  then consider "caller w = 3" | "caller w = 1 \<or> caller w = 2" using c by linarith
  then show ?thesis
  proof cases
    case 1
    then show ?thesis using sender_call [OF w can _ r s] by simp
  next
    case 2
    have "served dev can r w (receiver_inv (caller w) (sent (caller w)))"
      by (rule receiver_call [OF w(1,3) refl 2]) (use 2 r in auto)
    then obtain w' where w': "user_call dev can r w = Done w'" "console_up dev (wk w')" "kernel_ok (wsched w')" "nproc (wsched w') = 4"
      "receiver_inv (caller w) (sent (caller w)) (wprog w' (caller w)) (wtext w' (caller w)) (box (wsched w') (caller w)) (running (wsched w') (caller w))"
      "\<forall>i<4. i \<noteq> caller w \<longrightarrow> wprog w' i = wprog w i \<and> wtext w' i = wtext w i \<and>
        box (wsched w') i = box (wsched w) i \<and> running (wsched w') i = running (wsched w) i"
      unfolding served_def w(2) by blast
    have "\<forall>i\<in>{1, 2}. receiver_inv i (sent i) (wprog w' i) (wtext w' i) (box (wsched w') i) (running (wsched w') i)"
    proof
      fix i :: nat
      assume i: "i \<in> {1, 2}"
      then have "i < 4" by auto
      show "receiver_inv i (sent i) (wprog w' i) (wtext w' i) (box (wsched w') i) (running (wsched w') i)"
      proof (cases "i = caller w")
        case False
        then show ?thesis using w'(6) \<open>i < 4\<close> bspec [OF r i] by simp
      qed (use w'(5) in simp)
    qed
    moreover have "(3 :: nat) < 4" "3 \<noteq> caller w" using 2 by auto
    with w'(6) s have "sender_inv (sent 1) (sent 2) (wprog w' 3) (wtext w' 3) (running (wsched w') 3)" by simp
    ultimately show ?thesis using w' unfolding world_inv_def by blast
  qed
qed

lemma world_timer:
  assumes "world_inv dev w" "yield_task r (wsched w) = Done (r', s)"
  shows "world_inv dev (w\<lparr>wk := (wk w)\<lparr>ksched := s\<rparr>\<rparr>)"
proof -
  have "kernel_ok (wsched w)" "nproc (wsched w) = 4" using assms(1) by (simp_all add: world_inv_def)
  with becomes_timer [OF _ assms(2)] have "kernel_ok s" "nproc s = 4" "\<forall>i<4. box s i = box (wsched w) i \<and> running s i = running (wsched w) i"
    by auto
  then show ?thesis using assms(1) by (simp add: world_inv_def)
qed

lemma world_reap:
  assumes "world_inv dev w" "slay_one p (wsched w) = Done s"
  shows "world_inv dev (w\<lparr>wk := (wk w)\<lparr>ksched := s\<rparr>\<rparr>)"
proof -
  have "kernel_ok (wsched w)" "nproc (wsched w) = 4" using assms(1) by (simp_all add: world_inv_def)
  with becomes_reap [OF _ assms(2)]
  have "kernel_ok s" "nproc s = 4" "\<forall>i<4. box s i = box (wsched w) i \<and> running s i = running (wsched w) i"
    by (auto simp: becomes_def)
  then show ?thesis using assms(1) by (simp add: world_inv_def)
qed

lemma world_step:
  assumes "wstep dev can w w'" "world_inv dev w" "\<forall>n. can n"
  shows "world_inv dev w'"
  using assms(1)
proof cases
  case (user r)
  then show ?thesis using world_call [OF assms(2,3), of r] by simp
next
  case (timer r r' s)
  then show ?thesis using world_timer [OF assms(2)] by simp
next
  case (reap p s)
  then show ?thesis using world_reap [OF assms(2)] by simp
qed

lemma world_reach: "wreach dev can w w' \<Longrightarrow> world_inv dev w \<Longrightarrow> \<forall>n. can n \<Longrightarrow> world_inv dev w'"
  by (induction rule: wreach.induct) (auto intro: world_step)

lemma wreach_trans: "wreach dev can w1 w2 \<Longrightarrow> wreach dev can w w1 \<Longrightarrow> wreach dev can w w2"
  by (induction rule: wreach.induct) (auto intro: wreach.step)

section \<open>Every copy can finish\<close>

lemma ticks_reach:
  "run_ticks f n (wsched w) = Done s \<Longrightarrow> wreach dev can w (w\<lparr>wk := (wk w)\<lparr>ksched := s\<rparr>\<rparr>)"
proof (induction n arbitrary: f w)
  case 0
  then have "w\<lparr>wk := (wk w)\<lparr>ksched := s\<rparr>\<rparr> = w" by (cases w; cases "wk w") simp
  then show ?case by (simp add: wreach.start)
next
  case (Suc n)
  then obtain r s1 where y: "yield_task (f 0) (wsched w) = Done (r, s1)" "run_ticks (\<lambda>i. f (Suc i)) n s1 = Done s"
    by auto
  have "wstep dev can w (w\<lparr>wk := (wk w)\<lparr>ksched := s1\<rparr>\<rparr>)" by (rule wstep.timer [OF y(1)])
  moreover have "wreach dev can (w\<lparr>wk := (wk w)\<lparr>ksched := s1\<rparr>\<rparr>) (w\<lparr>wk := (wk w)\<lparr>ksched := s\<rparr>\<rparr>)"
    using Suc.IH [of _ "w\<lparr>wk := (wk w)\<lparr>ksched := s1\<rparr>\<rparr>"] y(2) by simp
  ultimately show ?case by (meson wreach.start wreach.step wreach_trans)
qed

text \<open>After at most ten ticks the tick counter is zero.\<close>

lemma next_switch:
  assumes "sched_ok s"
  obtains n s' where "run_ticks f n s = Done s'" "sched_ok s'" "tick s' = 0" "nproc s' = nproc s"
    "\<And>j. j < nproc s \<Longrightarrow> running s' j = running s j"
proof -
  let ?n = "9 - unat (tick s)"
  let ?s = "s\<lparr>tick := SWITCH_TICK\<rparr>"
  have t: "unat (tick s) \<le> 9" using assms by (simp add: sched_ok_def SWITCH_TICK_def word_le_nat_alt)
  have "tick s + of_nat ?n = SWITCH_TICK" using t by (simp add: SWITCH_TICK_def of_nat_diff)
  then have q: "run_ticks f ?n s = Done ?s" using quiet_ticks [of s ?n f] t assms by (simp add: sched_ok_def)
  have ok: "sched_ok ?s" using assms by (simp add: sched_ok_def)
  obtain k where k: "next_running ?s (unat (current_pid ?s)) = Some k"
    using next_running_Some [of 0 ?s] ok by (auto simp: sched_ok_def)
  have "table_ok ?s" "unat (current_pid ?s) < nproc ?s" using ok by (simp_all add: sched_ok_def)
  from pick_next_eq(2) [OF this k] have "k < nproc ?s" .
  note sw = switched_ok [where r = "f ?n", OF ok this]
  have "run_ticks f (?n + 1) s = Done (switched (f ?n) (unat (current_pid ?s)) k ?s)"
    using run_ticks_add [of f ?n 1 s] q yield_switch [OF ok _ k, of "f ?n"] by simp
  then show thesis by (rule that) (use sw in simp_all)
qed

lemma world_switch:
  assumes inv: "world_inv dev w" and d: "d < 4" "running (wsched w) d"
  obtains w' where "wreach dev can w w'" "caller w' = d" "wprog w' = wprog w" "wtext w' = wtext w"
proof -
  have ok: "sched_ok (wsched w)" "nproc (wsched w) = 4" using inv by (simp_all add: world_inv_def kernel_ok_sched)
  obtain n s1 where 1: "run_ticks (\<lambda>_. zero_regs) n (wsched w) = Done s1" "sched_ok s1" "tick s1 = 0" "nproc s1 = 4" "running s1 d"
    by (rule next_switch [OF ok(1), of "\<lambda>_. zero_regs"]) (use ok(2) d in auto)
  obtain m s2 where 2: "run_ticks (\<lambda>_. zero_regs) (10 * m) s1 = Done s2" "unat (current_pid s2) = d"
    using reaches [OF 1(2,3) _ 1(5), of "\<lambda>_. zero_regs"] 1(4) d(1) by auto
  have "run_ticks (\<lambda>_. zero_regs) (n + 10 * m) (wsched w) = Done s2"
    using run_ticks_add [of "\<lambda>_. zero_regs" n "10 * m"] 1(1) 2(1) by simp
  from that [OF ticks_reach [OF this]] show thesis using 2(2) by (simp add: caller_def)
qed

lemma exact_call:
  assumes "wprog w c = Syscall f m g" "caller w = c" "c \<noteq> 0"
    and "enter_kernel dev can (f zero_regs) m (wk w) = Done (res, k)" "current_pid (ksched k) = current_pid (wsched w)"
    and "(case res of Some (v, m') \<Rightarrow> g v m' | None \<Rightarrow> if rax (f zero_regs) = SYS_EXIT then Forever else Syscall f m g) = p"
  obtains w1 where "wstep dev can w w1" "caller w1 = c" "wprog w1 = (wprog w)(c := p)"
proof -
  let ?w = "w\<lparr>wk := k, wprog := (wprog w)(c := p), wtext := (wtext w)(c := wtext w c @ said (f zero_regs) m)\<rparr>"
  have "user_call dev can zero_regs w = Done ?w"
    using user_call_enter [of w f m g dev can zero_regs res k] assms by simp
  from wstep.user [OF _ this] have "wstep dev can w ?w" using assms(2,3) by simp
  then show thesis by (rule that) (use assms(2,5) in \<open>simp_all add: caller_def\<close>)
qed

definition finishes :: "device \<Rightarrow> (u64 \<Rightarrow> bool) \<Rightarrow> world \<Rightarrow> nat \<Rightarrow> bool" where
  "finishes dev can w c \<longleftrightarrow> (\<exists>w'. wreach dev can w w' \<and> wprog w' = (wprog w)(c := Forever))"

lemma finishes_step:
  assumes "wstep dev can w w1" "wprog w1 = (wprog w)(c := p)" "finishes dev can w1 c"
  shows "finishes dev can w c"
proof -
  obtain w' where "wreach dev can w1 w'" "wprog w' = (wprog w)(c := Forever)"
    using assms(2,3) by (auto simp: finishes_def)
  moreover have "wreach dev can w w1" using assms(1) by (meson wreach.start wreach.step)
  ultimately show ?thesis using wreach_trans unfolding finishes_def by blast
qed

lemma finish_exit:
  assumes inv: "world_inv dev w" and c: "caller w = c" "c \<noteq> 0" and p: "wprog w c = user_exit m"
  shows "finishes dev can w c"
proof -
  have "c = unat (current_pid (wsched w))" using c(1) by (simp add: caller_def)
  from enter_exit [OF _ _ this c(2), of dev can 0 zero_regs m] obtain q s where
    e: "enter_kernel dev can (exit_user 0 zero_regs) m (wk w) = Done (None, (wk w)\<lparr>kports := q, ksched := s\<rparr>)"
    and s: "current_pid s = current_pid (wsched w)"
    using inv by (auto simp: world_inv_def becomes_def)
  obtain w1 where w1: "wstep dev can w w1" "wprog w1 = (wprog w)(c := Forever)"
    by (rule exact_call [OF p [unfolded user_exit_def] c e]) (use s in auto)
  show ?thesis by (rule finishes_step [OF w1]) (auto simp: finishes_def w1(2) intro: wreach.start)
qed

lemma finish_says:
  assumes "says c user_exit p rest" "\<forall>n. can n" "c \<noteq> 0"
  shows "world_inv dev w \<Longrightarrow> caller w = c \<Longrightarrow> wprog w c = p \<Longrightarrow> finishes dev can w c"
  using assms(1)
proof (induction arbitrary: w rule: says.induct)
  case (ends m)
  then show ?case using finish_exit assms(3) by blast
next
  case (pid g t m)
  then have ok: "kernel_ok (wsched w)" and c: "c = unat (current_pid (wsched w))" by (simp_all add: world_inv_def caller_def)
  obtain w1 where w1: "wstep dev can w w1" "caller w1 = c" "wprog w1 = (wprog w)(c := g (of_nat c) m)"
    by (rule exact_call [OF pid.prems(3,2) assms(3) enter_getpid [OF ok c]]) auto
  show ?case by (rule finishes_step [OF w1(1,3)], rule pid.IH) (use world_step [OF w1(1) pid.prems(1) assms(2)] w1 in auto)
next
  case (puts m q bs g t)
  have "console_up dev (wk w)" using puts.prems(1) by (simp add: world_inv_def)
  from enter_log [OF this puts.hyps(1), of can zero_regs] obtain p l where
    e: "enter_kernel dev can (sys_log q zero_regs) m (wk w) =
      Done (Some (0, m), (wk w)\<lparr>kports := p, ksched := (wsched w)\<lparr>ipc_mem := umsgs m, console := l\<rparr>\<rparr>)" by auto
  obtain w1 where w1: "wstep dev can w w1" "caller w1 = c" "wprog w1 = (wprog w)(c := g 0 m)"
    by (rule exact_call [OF puts.prems(3,2) assms(3) e]) auto
  show ?case by (rule finishes_step [OF w1(1,3)], rule puts.IH) (use world_step [OF w1(1) puts.prems(1) assms(2)] w1 in auto)
qed

text \<open>The programs differ in their next call.\<close>

lemma calls_differ [simp]:
  "getpid \<noteq> ipc_send q" "getpid \<noteq> exit_user n" "ipc_send q \<noteq> exit_user n" "ipc_send q \<noteq> getpid" "exit_user n \<noteq> getpid"
  "exit_user n \<noteq> ipc_send q" "ipc_send q = ipc_send q' \<longleftrightarrow> q = q'"
  by (auto dest!: fun_cong [where x = zero_regs] arg_cong [where f = "\<lambda>r. (rax r, rbx r)"] simp: sys_numbers)

lemma sent_all: "sender_inv s1 s2 Forever t run \<Longrightarrow> s1 \<and> s2"
  by (auto simp: sender_inv_def main_forms sender_def user_exit_def)

text \<open>A receiver whose message is there, at its call.\<close>

lemma finish_receive:
  assumes inv: "world_inv dev w" and can: "\<forall>n. can n" and i: "caller w = i" "i = 1 \<or> i = 2" and s: "wprog w 3 = Forever"
    and p: "wprog w i = Syscall f m (\<lambda>_. k)" "f = ipc_rcv_sync MSG \<or> f = ipc_rcv_oneshot MSG"
      "k (m\<lparr>umsgs := (umsgs m)(MSG := parcel i)\<rparr>) = report i (m\<lparr>umsgs := (umsgs m)(MSG := parcel i)\<rparr>)"
  shows "finishes dev can w i"
proof -
  have ok: "kernel_ok (wsched w)" and c: "i = unat (current_pid (wsched w))" and i0: "i \<noteq> 0"
    using inv i by (auto simp: world_inv_def caller_def)
  have "receiver_inv i True (wprog w i) (wtext w i) (box (wsched w) i) (running (wsched w) i)"
    using inv i(2) s sent_all by (fastforce simp: world_inv_def)
  then consider (says) rest where "says i user_exit (wprog w i) rest" | (box) "box (wsched w) i = [parcel i]"
    using p(1) by (auto simp: receiver_inv_def)
  then show ?thesis
  proof cases
    case says
    then show ?thesis using finish_says [OF says can i0 inv i(1)] by simp
  next
    case box
    let ?m = "m\<lparr>umsgs := (umsgs m)(MSG := parcel i)\<rparr>"
    obtain s where e: "enter_kernel dev can (f zero_regs) m (wk w) = Done (Some (0, ?m), (wk w)\<lparr>ksched := s\<rparr>)"
      and s: "current_pid s = current_pid (wsched w)"
      using enter_receive [OF ok c p(2) box, of dev can zero_regs m] by (auto simp: becomes_def)
    obtain w1 where w1: "wstep dev can w w1" "caller w1 = i" "wprog w1 = (wprog w)(i := report i ?m)"
      by (rule exact_call [OF p(1) i(1) i0 e]) (use s p(3) in auto)
    have "says i user_exit (report i ?m) (user_line i)" using report_says [OF i(2), of ?m] by simp
    from finish_says [OF this can i0 world_step [OF w1(1) inv can] w1(2)] w1(3) show ?thesis
      by (intro finishes_step [OF w1(1,3)]) simp
  qed
qed

lemma finish_receiver:
  assumes inv: "world_inv dev w" and can: "\<forall>n. can n" and i: "caller w = i" "i = 1 \<or> i = 2" and s: "wprog w 3 = Forever"
  shows "finishes dev can w i"
proof -
  have ok: "kernel_ok (wsched w)" and c: "i = unat (current_pid (wsched w))" and i0: "i \<noteq> 0"
    using inv i by (auto simp: world_inv_def caller_def)
  have do_oneshot: "finishes dev can v 2" if v: "world_inv dev v" "caller v = 2" "wprog v 3 = Forever"
      "wprog v 2 = oneshot_loop (report 2) m" "ipc_sender (umsgs m MSG) = 0" for v m
  proof (rule finish_receive [OF v(1) can v(2) _ v(3)])
    show "wprog v 2 = Syscall (ipc_rcv_oneshot MSG) m (\<lambda>_. oneshot_loop (report 2))"
      using v(4,5) by (simp add: oneshot_loop.code [of _ m])
    show "oneshot_loop (report 2) (m\<lparr>umsgs := (umsgs m)(MSG := parcel 2)\<rparr>) = report 2 (m\<lparr>umsgs := (umsgs m)(MSG := parcel 2)\<rparr>)"
      by (subst oneshot_loop.code) (simp add: parcel_def)
  qed simp_all
  have do_sync: "finishes dev can v 1" if v: "world_inv dev v" "caller v = 1" "wprog v 3 = Forever" "wprog v 1 = receiver user_exit m" for v m
    by (rule finish_receive [OF v(1) can v(2) _ v(3) v(4) [unfolded main_forms(2)]]) simp_all
  have "receiver_inv i True (wprog w i) (wtext w i) (box (wsched w) i) (running (wsched w) i)"
    using inv i(2) s sent_all by (fastforce simp: world_inv_def)
  then consider (over) "wprog w i = Forever" | (says) rest where "says i user_exit (wprog w i) rest"
    | (start) m where "wprog w i = user_start m" | (sync) m where "i = 1" "wprog w i = receiver user_exit m"
    | (oneshot) m where "i = 2" "wprog w i = oneshot_loop (report 2) m" "ipc_sender (umsgs m MSG) = 0"
    by (auto simp: receiver_inv_def waiting_def)
  then show ?thesis
  proof cases
    case over
    then have "wprog w = (wprog w)(i := Forever)" by (simp add: fun_upd_idem)
    then show ?thesis unfolding finishes_def using wreach.start by blast
  next
    case says
    then show ?thesis using finish_says [OF says can i0 inv i(1)] by simp
  next
    case start
    obtain w1 where w1: "wstep dev can w w1" "caller w1 = i"
      "wprog w1 = (wprog w)(i := (if i = 1 then receiver user_exit else receiver_oneshot user_exit) m)"
      by (rule exact_call [OF start [unfolded main_forms(1)] i(1) i0 enter_getpid [OF ok c]]) (use i(2) in auto)
    have v: "world_inv dev w1" "wprog w1 3 = Forever" using world_step [OF w1(1) inv can] w1(3) s i(2) by auto
    from i(2) have "finishes dev can w1 i"
    proof
      assume "i = 1"
      then show ?thesis using do_sync [OF v(1) _ v(2)] w1 by simp
    next
      assume "i = 2"
      then show ?thesis using do_oneshot [OF v(1) _ v(2)] w1 by (simp add: main_forms(3))
    qed
    then show ?thesis by (rule finishes_step [OF w1(1,3)])
  next
    case sync
    then show ?thesis using do_sync [OF inv _ s] i(1) by simp
  next
    case oneshot
    then show ?thesis using do_oneshot [OF inv _ s] i(1) by simp
  qed
qed

text \<open>The sender, call after call from its last one back.\<close>

lemma MSG_neq [simp]: "MSG \<noteq> MSG2" "MSG2 \<noteq> MSG"
  by (simp_all add: MSG_def MSG2_def)

lemma unsent:
  assumes "world_inv dev w" "wprog w 3 = Syscall (ipc_send q) m g" "i = 1 \<and> q = MSG \<or> i = 2 \<and> q = MSG2"
  shows "running (wsched w) i" "box (wsched w) i = []"
proof -
  obtain sent where r: "\<forall>i\<in>{1, 2}. receiver_inv i (sent i) (wprog w i) (wtext w i) (box (wsched w) i) (running (wsched w) i)"
    and s: "sender_inv (sent 1) (sent 2) (wprog w 3) (wtext w 3) (running (wsched w) 3)"
    using assms(1) unfolding world_inv_def by blast
  have "\<not> sent i" using s assms(2,3) by (auto simp: sender_inv_def main_forms sender_def user_exit_def)
  with r assms(3) have "receiver_inv i False (wprog w i) (wtext w i) (box (wsched w) i) (running (wsched w) i)" by auto
  from receiver_sent [OF this] assms(3) show "running (wsched w) i" "box (wsched w) i = []" by auto
qed

lemma send_call:
  assumes inv: "world_inv dev w" and can: "\<forall>n. can n" and c: "caller w = 3" and p: "wprog w 3 = Syscall (ipc_send q) m g"
    and q: "i = 1 \<and> q = MSG \<or> i = 2 \<and> q = MSG2" "ipc_receiver (umsgs m q) = of_nat i"
  obtains w1 x where "wstep dev can w w1" "caller w1 = 3" "wprog w1 = (wprog w)(3 := g 0 (m\<lparr>umsgs := (umsgs m)(q := x)\<rparr>))"
proof -
  have ok: "kernel_ok (wsched w)" "nproc (wsched w) = 4" using inv by (simp_all add: world_inv_def)
  have i: "unat (ipc_receiver (umsgs m q)) = i" "i < nproc (wsched w)" using q ok(2) by auto
  let ?x = "(umsgs m q)\<lparr>ipc_sender := current_pid (wsched w)\<rparr>"
  from enter_send [OF ok(1) can i unsent [OF inv p q(1)], of dev zero_regs] obtain s where
    e: "enter_kernel dev can (ipc_send q zero_regs) m (wk w) = Done (Some (0, m\<lparr>umsgs := (umsgs m)(q := ?x)\<rparr>), (wk w)\<lparr>ksched := s\<rparr>)"
    and s: "current_pid s = current_pid (wsched w)" by (auto simp: becomes_def)
  obtain w1 where "wstep dev can w w1" "caller w1 = 3" "wprog w1 = (wprog w)(3 := g 0 (m\<lparr>umsgs := (umsgs m)(q := ?x)\<rparr>))"
    by (rule exact_call [OF p c _ e]) (use s in auto)
  then show thesis by (rule that)
qed

lemma finish_sender:
  assumes inv: "world_inv dev w" and can: "\<forall>n. can n" and c: "caller w = 3"
  shows "finishes dev can w 3"
proof -
  have do_second: "finishes dev can v 3" if v: "world_inv dev v" "caller v = 3"
      "wprog v 3 = Syscall (ipc_send MSG2) m (\<lambda>_. user_exit)" "ipc_receiver (umsgs m MSG2) = 2" for v m
  proof -
    obtain w1 x where w1: "wstep dev can v w1" "caller w1 = 3" "wprog w1 = (wprog v)(3 := user_exit (m\<lparr>umsgs := (umsgs m)(MSG2 := x)\<rparr>))"
      by (rule send_call [OF v(1) can v(2,3), of 2]) (use v(4) in auto)
    show ?thesis
      by (rule finishes_step [OF w1(1,3)], rule finish_exit [OF world_step [OF w1(1) v(1) can] w1(2)]) (use w1(3) in auto)
  qed
  have do_first: "finishes dev can v 3" if v: "world_inv dev v" "caller v = 3" "wprog v 3 = sender user_exit m" for v m
  proof -
    obtain w1 m' where w1: "wstep dev can v w1" "caller w1 = 3"
        "wprog w1 = (wprog v)(3 := Syscall (ipc_send MSG2) m' (\<lambda>_. user_exit))" "ipc_receiver (umsgs m' MSG2) = 2"
      by (rule send_call [OF v(1) can v(2) v(3) [unfolded sender_def], of 1]) auto
    show ?thesis
      by (rule finishes_step [OF w1(1,3)], rule do_second [OF world_step [OF w1(1) v(1) can] w1(2) _ w1(4)]) (use w1(3) in auto)
  qed
  have ok: "kernel_ok (wsched w)" and c': "3 = unat (current_pid (wsched w))"
    using inv c by (simp_all add: world_inv_def caller_def)
  from inv consider (over) "wprog w 3 = Forever" | (start) m where "wprog w 3 = user_start m"
    | (first) m where "wprog w 3 = sender user_exit m"
    | (second) m where "wprog w 3 = Syscall (ipc_send MSG2) m (\<lambda>_. user_exit)" "ipc_receiver (umsgs m MSG2) = 2"
    | (exit) m where "wprog w 3 = user_exit m"
    by (auto simp: world_inv_def sender_inv_def)
  then show ?thesis
  proof cases
    case over
    then have "wprog w = (wprog w)(3 := Forever)" by (simp add: fun_upd_idem)
    then show ?thesis unfolding finishes_def using wreach.start by blast
  next
    case start
    obtain w1 where w1: "wstep dev can w w1" "caller w1 = 3" "wprog w1 = (wprog w)(3 := sender user_exit m)"
      by (rule exact_call [OF start [unfolded main_forms(1)] c _ enter_getpid [OF ok c']]) auto
    show ?thesis
      by (rule finishes_step [OF w1(1,3)], rule do_first [OF world_step [OF w1(1) inv can] w1(2)]) (use w1(3) in auto)
  next
    case first
    then show ?thesis by (rule do_first [OF inv c])
  next
    case second
    then show ?thesis by (rule do_second [OF inv c])
  next
    case exit
    show ?thesis by (rule finish_exit [OF inv c _ exit]) simp
  qed
qed

text \<open>A process that still runs can be switched to and finish.\<close>

lemma can_finish:
  assumes inv: "world_inv dev w" and can: "\<forall>n. can n" and c: "c = 3 \<or> (c = 1 \<or> c = 2) \<and> wprog w 3 = Forever"
  shows "finishes dev can w c"
proof (cases "wprog w c = Forever")
  case True
  then have "wprog w = (wprog w)(c := Forever)" by (simp add: fun_upd_idem)
  then show ?thesis unfolding finishes_def using wreach.start by blast
next
  case False
  then have r: "running (wsched w) c" and c4: "c < 4"
    using inv c by (auto simp: world_inv_def receiver_inv_def sender_inv_def)
  obtain w1 where w1: "wreach dev can w w1" "caller w1 = c" "wprog w1 = wprog w"
    by (rule world_switch [OF inv c4 r])
  have inv1: "world_inv dev w1" by (rule world_reach [OF w1(1) inv can])
  have "finishes dev can w1 c"
    using c finish_sender [OF inv1 can] finish_receiver [OF inv1 can] w1 by auto
  then show ?thesis using w1 wreach_trans unfolding finishes_def by (metis fun_upd_def)
qed

section \<open>Properties\<close>

text \<open>
  The machine that \<^verbatim>\<open>kmain\<close> leaves behind, with the compiled test program in the three
  processes it started.
\<close>

definition test_world :: "device \<Rightarrow> world \<Rightarrow> bool" where
  "test_world dev w \<longleftrightarrow> kernel_ok (wsched w) \<and> nproc (wsched w) = 4 \<and> console_up dev (wk w) \<and>
     (\<forall>i\<in>{1, 2, 3}. running (wsched w) i \<and> box (wsched w) i = [] \<and> wtext w i = [] \<and> (\<exists>m. wprog w i = user_start m))"

lemma test_world_inv: "test_world dev w \<Longrightarrow> world_inv dev w"
  unfolding test_world_def world_inv_def
  by (auto simp: receiver_inv_def sender_inv_def waiting_def intro!: exI [of _ "\<lambda>_. False"])

lemma receiver_text:
  assumes "receiver_inv i sent p t b run"
  shows "prefix t (user_line i) \<and> (p = Forever \<longrightarrow> t = user_line i)"
proof -
  have s: "\<not> says i user_exit Forever rest" for rest by (auto elim!: says.cases simp: user_exit_def)
  have "ipc_sender (umsgs m MSG) = 0 \<Longrightarrow> Forever \<noteq> oneshot_loop k m" for k m by (subst oneshot_loop.code) simp
  then have w: "\<not> waiting i Forever" by (auto simp: waiting_def main_forms(1,2))
  from assms consider "waiting i p" "t = []" | rest where "says i user_exit p rest" "t @ rest = user_line i"
    | "t = user_line i" by (auto simp: receiver_inv_def)
  then show ?thesis
  proof cases
    case 1
    then show ?thesis using w by auto
  next
    case (2 rest)
    then show ?thesis using s prefixI [of "user_line i" t rest] by auto
  qed simp
qed

text \<open>
  C13: the test program on the kernel. Three copies of \<^verbatim>\<open>pkg/test/main.c\<close> run under the pids 1, 2
  and 3, interleaved in any way with timer interrupts and with the reaper. At every moment the
  kernel serves the next system call of whichever copy is running: no message goes to a process
  that is gone, no assertion fails. The two receivers have written a prefix of their line, which
  names the sender and the value sent to them, the whole of it once they have exited, and the
  sender writes nothing.
\<close>

theorem test_program_speaks:
  assumes "test_world dev w" "\<forall>n. can n" "wreach dev can w w'"
  shows "(caller w' \<noteq> 0 \<longrightarrow> (\<exists>w''. user_call dev can r w' = Done w'')) \<and> wtext w' 3 = [] \<and>
    (\<forall>i\<in>{1, 2}. prefix (wtext w' i) (user_line i) \<and> (wprog w' i = Forever \<longrightarrow> wtext w' i = user_line i))"
proof -
  have inv: "world_inv dev w'" by (rule world_reach [OF assms(3) test_world_inv [OF assms(1)] assms(2)])
  have "prefix (wtext w' i) (user_line i) \<and> (wprog w' i = Forever \<longrightarrow> wtext w' i = user_line i)" if "i \<in> {1, 2}" for i
    using inv that receiver_text unfolding world_inv_def by blast
  moreover have "wtext w' 3 = []" using inv by (auto simp: world_inv_def sender_inv_def)
  ultimately show ?thesis using world_call [OF inv assms(2), of r] by blast
qed

text \<open>A world as \<^verbatim>\<open>kmain\<close> leaves it, on the idle device.\<close>

definition demo_table :: sched where
  "demo_table = (demo_sched TASK_RUNNING 0)\<lparr>processes := \<lparr>items = [16, 32, 48, 64], capacity = 4\<rparr>,
     pheap := [16 \<mapsto> zero_process, 32 \<mapsto> zero_process\<lparr>pid := 1\<rparr>, 48 \<mapsto> zero_process\<lparr>pid := 2\<rparr>, 64 \<mapsto> zero_process\<lparr>pid := 3\<rparr>],
     last_pid := 4\<rparr>"

definition demo_world :: world where
  "demo_world =
     \<lparr>wk = \<lparr>ksched = demo_table, kports = quiet_ports, serial_lock = 0, elf_lock = 0, has_fault = False,
        random_next = 1, symbols = \<lparr>rbase = 0, rlength = 0\<rparr>, strtok_p = 0, fault_addr = 0, kmem = (\<lambda>_. 0)\<rparr>,
      wprog = (\<lambda>_. user_start \<lparr>ubytes = (\<lambda>_. 0), umsgs = (\<lambda>_. parcel 0)\<rparr>), wtext = (\<lambda>_. [])\<rparr>"

lemma demo_table_fields:
  "items (processes demo_table) = [16, 32, 48, 64]" "nproc demo_table = 4" "proc demo_table 0 = zero_process"
  "proc demo_table 1 = zero_process\<lparr>pid := 1\<rparr>" "proc demo_table 2 = zero_process\<lparr>pid := 2\<rparr>" "proc demo_table 3 = zero_process\<lparr>pid := 3\<rparr>"
  by (simp_all add: demo_table_def nproc_def proc_def)

lemma less_4: "(\<forall>i<4. P i) \<longleftrightarrow> P 0 \<and> P 1 \<and> P 2 \<and> P (3 :: nat)"
  by (auto simp: numeral_eq_Suc less_Suc_eq)

lemma demo_table_ok: "kernel_ok demo_table" "\<forall>i\<in>{1, 2, 3}. running demo_table i \<and> box demo_table i = []"
proof -
  have z: "pid zero_process = 0" "vec_ok (mailbox zero_process)" "state zero_process = TASK_RUNNING"
    "items (mailbox zero_process) = []" by (simp_all add: zero_process_def vec_ok_init) (simp add: vec_init_def)
  have h: "pheap demo_table 16 \<noteq> None" "pheap demo_table 32 \<noteq> None" "pheap demo_table 48 \<noteq> None" "pheap demo_table 64 \<noteq> None"
    by (simp_all add: demo_table_def)
  have "vec_ok (processes demo_table)" by (auto simp: demo_table_def vec_ok_def intro!: exI [of _ 2])
  moreover have "\<forall>i<4. pheap demo_table (items (processes demo_table) ! i) \<noteq> None \<and>
      pid (proc demo_table i) = of_nat i \<and> vec_ok (mailbox (proc demo_table i))"
    unfolding less_4 using z h by (simp add: demo_table_fields demo_table_fields(4) [unfolded One_nat_def])
  ultimately have "table_ok demo_table"
    unfolding table_ok_def by (simp add: demo_table_fields(1,2)) (simp add: demo_table_def)
  moreover have "running demo_table 0" using z by (simp add: running_def demo_table_fields)
  ultimately have "sched_ok demo_table"
    unfolding sched_ok_def by (simp add: demo_table_fields(2)) (simp add: demo_table_def demo_sched_def)
  moreover have "pheap demo_table 0 = None" by (simp add: demo_table_def)
  moreover have "vec_ok (mailbox x)" if "pheap demo_table p = Some x" for p x
    using that z(2) by (auto simp: demo_table_def split: if_splits)
  ultimately show "kernel_ok demo_table" by (simp add: kernel_ok_def)
  show "\<forall>i\<in>{1, 2, 3}. running demo_table i \<and> box demo_table i = []"
    using z by (simp add: running_def box_def demo_table_fields demo_table_fields(4) [unfolded One_nat_def])
qed

lemma demo_world_ok: "test_world idle_device demo_world"
  using demo_table_ok demo_table_fields(2) idle_responsive by (auto simp: test_world_def demo_world_def console_up_def)

lemma world_finishes:
  assumes inv: "world_inv dev w" and can: "\<forall>n. can n"
  obtains w' where "wreach dev can w w'" "world_inv dev w'" "\<forall>i\<in>{1, 2, 3}. wprog w' i = Forever"
proof -
  obtain w3 where 3: "wreach dev can w w3" "wprog w3 = (wprog w)(3 := Forever)"
    using can_finish [OF inv can, of 3] by (auto simp: finishes_def)
  have inv3: "world_inv dev w3" by (rule world_reach [OF 3(1) inv can])
  obtain w1 where 1: "wreach dev can w3 w1" "wprog w1 = (wprog w3)(1 := Forever)"
    using can_finish [OF inv3 can, of 1] 3(2) by (auto simp: finishes_def)
  have inv1: "world_inv dev w1" by (rule world_reach [OF 1(1) inv3 can])
  obtain w2 where 2: "wreach dev can w1 w2" "wprog w2 = (wprog w1)(2 := Forever)"
    using can_finish [OF inv1 can, of 2] 3(2) 1(2) by (auto simp: finishes_def)
  have "wreach dev can w w2" using wreach_trans [OF 2(1) wreach_trans [OF 1(1) 3(1)]] .
  then show thesis by (rule that [OF _ world_reach [OF 2(1) inv1 can]]) (simp add: 1(2) 2(2) 3(2))
qed

theorem test_program_speaks_witness:
  "\<exists>w'. wreach idle_device (\<lambda>_. True) demo_world w' \<and> wprog w' 1 = Forever \<and>
     wtext w' 1 = 27 # cstring ''[92m(1) main.c:27'' @ 27 # cstring ''[0m Got IPC from 3 with value deadbeef'' @ [10]"
proof -
  obtain w' where w': "wreach idle_device (\<lambda>_. True) demo_world w'" "\<forall>i\<in>{1, 2, 3}. wprog w' i = Forever"
    by (rule world_finishes [OF test_world_inv [OF demo_world_ok], of "\<lambda>_. True"]) auto
  have "wtext w' 1 = user_line 1" using test_program_speaks [OF demo_world_ok _ w'(1), of zero_regs] w'(2) by simp
  with w' show ?thesis by (intro exI [of _ w']) (simp add: user_line_def)
qed

text \<open>
  Nor can it get stuck: whatever has happened so far, there is a way for the system to go on, by
  timer interrupts and the calls of the three copies, to a state in which each of them has exited
  and the two receivers have written their whole line.
\<close>

lemma test_world_completes:
  assumes "test_world dev w" "\<forall>n. can n" "wreach dev can w w'"
  shows "\<exists>w''. wreach dev can w' w'' \<and> (\<forall>i\<in>{1, 2, 3}. wprog w'' i = Forever \<and> wtext w'' i = user_line i)"
proof -
  have "world_inv dev w'" by (rule world_reach [OF assms(3) test_world_inv [OF assms(1)] assms(2)])
  then obtain w'' where w'': "wreach dev can w' w''" "world_inv dev w''" "\<forall>i\<in>{1, 2, 3}. wprog w'' i = Forever"
    by (rule world_finishes [OF _ assms(2)])
  obtain sent where r: "\<forall>i\<in>{1, 2}. receiver_inv i (sent i) (wprog w'' i) (wtext w'' i) (box (wsched w'') i) (running (wsched w'') i)"
    and "wtext w'' 3 = []" using w''(2) by (auto simp: world_inv_def sender_inv_def)
  then have "wtext w'' 3 = user_line 3" by (simp add: user_line_def)
  moreover have "wtext w'' i = user_line i" if "i \<in> {1, 2}" for i
    using receiver_text [OF bspec [OF r that]] w''(3) that by auto
  ultimately show ?thesis using w''(1,3) by (intro exI [of _ w'']) auto
qed

end
