(* ===== verification/Navy_Init.thy ===== *)
theory Navy_Init
  imports Navy_Pages
begin

text \<open>
  What \<^verbatim>\<open>vmm_init\<close> of \<^verbatim>\<open>arch/x86_64/vmm.c\<close> sets up: the kernel's page tables map the window at
  \<^verbatim>\<open>MMAP_IO_BASE\<close> and the one at \<^verbatim>\<open>MMAP_KERNEL_BASE\<close> linearly to physical memory, exactly on the
  first 4 GiB less one page and on the entries of the memory map, and nothing else.
\<close>

section \<open>The two windows\<close>

text \<open>
  Virtual pages are numbered by the 36 bits the processor translates. The input/output window
  starts at page $2^{35}$, that of the kernel at $2^{36} - 2^{19}$.
\<close>

definition frame_of :: "u64 \<Rightarrow> u64" where
  "frame_of g = (if g < 0xffff80000 then g - 0x800000000 else g - 0xffff80000)"

definition io_pages :: "u64 \<Rightarrow> nat \<Rightarrow> u64 set" where
  "io_pages b n = (\<lambda>k. 0x800000000 + (k + b)) ` {k. unat k < n}"

definition kernel_pages :: "u64 \<Rightarrow> nat \<Rightarrow> u64 set" where
  "kernel_pages b n = (\<lambda>k. 0xffff80000 + (k + b)) ` {k. unat k < n}"

lemma unat_plus_small: "unat (a :: u64) + unat b < 2 ^ 64 \<Longrightarrow> unat (a + b) = unat a + unat b"
  by (simp add: unat_plus_if')

lemma unat_take36: "unat (take_bit 36 (w :: u64)) = unat w mod 2 ^ 36"
  by (simp only: unsigned_take_bit_eq) (rule take_bit_eq_mod)

lemma vpage_io:
  assumes "unat base div 4096 + unat k < 2 ^ 35 - 2 ^ 19"
  shows "vpage (page_addr (mmap_phys_to_io base) k) = 0x800000000 + (k + base div 4096)"
    "frame_of (vpage (page_addr (mmap_phys_to_io base) k)) = k + base div 4096"
proof -
  let ?n = "unat base div 4096"
  have b: "unat base < 2 ^ 47" using assms by simp
  then have "unat (base + MMAP_IO_BASE) = unat base + 0xffff800000000000"
    by (subst unat_plus_small) (simp_all add: MMAP_IO_BASE_def)
  then have d: "unat ((base + MMAP_IO_BASE) div 4096) = ?n + 0xffff800000000"
    by (simp add: unat_div)
  have u: "unat (k + base div 4096) = unat k + ?n" using assms by (subst unat_plus_small) (simp_all add: unat_div)
  have "unat (k + (base + MMAP_IO_BASE) div 4096) = unat k + ?n + 0xffff800000000"
    using assms d by (subst unat_plus_small) simp_all
  moreover have "(x + 0xffff800000000) mod 2 ^ 36 = x + 0x800000000" if "x < 2 ^ 35" for x :: nat
  proof -
    have "(x + 0x800000000 + 0xffff * 2 ^ 36) mod 2 ^ 36 = (x + 0x800000000) mod 2 ^ 36" by (rule mod_mult_self1)
    then show ?thesis using that by (simp add: add.commute)
  qed
  ultimately have "unat (take_bit 36 (k + (base + MMAP_IO_BASE) div 4096)) = unat k + ?n + 0x800000000"
    using assms by (simp add: unat_take36)
  moreover have s: "unat (0x800000000 + (k + base div 4096)) = 0x800000000 + (unat k + ?n)"
    using assms u by (subst unat_plus_small) simp_all
  ultimately show g: "vpage (page_addr (mmap_phys_to_io base) k) = 0x800000000 + (k + base div 4096)"
    by (simp add: vpage_page_addr mmap_phys_to_io_def word_unat_eq_iff)
  show "frame_of (vpage (page_addr (mmap_phys_to_io base) k)) = k + base div 4096"
    using assms s unfolding g frame_of_def by (simp add: word_less_nat_alt)
qed

lemma vpage_kernel:
  assumes "unat base div 4096 + unat k < 2 ^ 19"
  shows "vpage (page_addr (mmap_phys_to_kernel base) k) = 0xffff80000 + (k + base div 4096)"
    "frame_of (vpage (page_addr (mmap_phys_to_kernel base) k)) = k + base div 4096"
proof -
  let ?n = "unat base div 4096"
  have b: "unat base < 2 ^ 31" using assms by simp
  then have "unat (base + MMAP_KERNEL_BASE) = unat base + 0xffffffff80000000"
    by (subst unat_plus_small) (simp_all add: MMAP_KERNEL_BASE_def)
  then have d: "unat ((base + MMAP_KERNEL_BASE) div 4096) = ?n + 0xffffffff80000"
    by (simp add: unat_div)
  have u: "unat (k + base div 4096) = unat k + ?n" using assms by (subst unat_plus_small) (simp_all add: unat_div)
  have "unat (k + (base + MMAP_KERNEL_BASE) div 4096) = unat k + ?n + 0xffffffff80000"
    using assms d by (subst unat_plus_small) simp_all
  moreover have "(x + 0xffffffff80000) mod 2 ^ 36 = x + 0xffff80000" if "x < 2 ^ 19" for x :: nat
  proof -
    have "(x + 0xffff80000 + 0xffff * 2 ^ 36) mod 2 ^ 36 = (x + 0xffff80000) mod 2 ^ 36" by (rule mod_mult_self1)
    then show ?thesis using that by (simp add: add.commute)
  qed
  ultimately have "unat (take_bit 36 (k + (base + MMAP_KERNEL_BASE) div 4096)) = unat k + ?n + 0xffff80000"
    using assms by (simp add: unat_take36)
  moreover have s: "unat (0xffff80000 + (k + base div 4096)) = 0xffff80000 + (unat k + ?n)"
    using assms u by (subst unat_plus_small) simp_all
  ultimately show g: "vpage (page_addr (mmap_phys_to_kernel base) k) = 0xffff80000 + (k + base div 4096)"
    by (simp add: vpage_page_addr mmap_phys_to_kernel_def word_unat_eq_iff)
  show "frame_of (vpage (page_addr (mmap_phys_to_kernel base) k)) = k + base div 4096"
    using assms s unfolding g frame_of_def by (simp add: word_less_nat_alt)
qed

section \<open>Linear maps\<close>

text \<open>The tables below \<open>root\<close> map exactly the pages of \<open>M\<close>, each to its frame, for the kernel only.\<close>

definition linear :: "u64 set \<Rightarrow> vmm \<Rightarrow> u64 \<Rightarrow> bool" where
  "linear M s root \<longleftrightarrow> vm_ok s root \<and>
     (\<forall>v. lookup (tables s) root v =
        (if vpage v \<in> M then pml_make_entry (push_bit 12 (frame_of (vpage v))) False else 0))"

lemma linear_range:
  fixes virt :: range_t
  defines "n \<equiv> rlength virt div PAGE_SIZE"
  assumes lin: "linear M s root" and m: "vmm_map_range root virt phys False s = Done s'" and n: "unat n \<le> 2 ^ 36"
    and fr: "\<forall>k<n. frame_of (vpage (page_addr (rbase virt) k)) = k + rbase phys div 4096"
  shows "linear (M \<union> (\<lambda>k. vpage (page_addr (rbase virt) k)) ` {k. k < n}) s' root"
proof -
  have ok: "vm_ok s root" using lin by (simp add: linear_def)
  note spec = map_range_spec [OF ok m n [unfolded n_def]]
  have "lookup (tables s') root v = pml_make_entry (push_bit 12 (frame_of (vpage v))) False"
    if "k < n" "vpage v = vpage (page_addr (rbase virt) k)" for v k
    using spec(3) [OF that(1) [unfolded n_def] that(2)] fr that by (simp add: page_addr_push)
  moreover have "lookup (tables s') root v = lookup (tables s) root v"
    if "\<forall>k<n. vpage v \<noteq> vpage (page_addr (rbase virt) k)" for v
    using spec(4) that by (auto simp: n_def)
  ultimately have "lookup (tables s') root v = (if vpage v \<in> M \<union> (\<lambda>k. vpage (page_addr (rbase virt) k)) ` {k. k < n}
      then pml_make_entry (push_bit 12 (frame_of (vpage v))) False else 0)" for v
    using lin by (cases "\<exists>k<n. vpage v = vpage (page_addr (rbase virt) k)") (force simp: linear_def)+
  with spec(1) show ?thesis by (simp add: linear_def)
qed

text \<open>The first frame and the number of pages \<^verbatim>\<open>vmm_init\<close> maps for an entry.\<close>

definition first_frame :: "mmap_entry \<Rightarrow> u64" where
  "first_frame e = rbase (mm_range e) div 4096"

definition map_count :: "mmap_entry \<Rightarrow> nat" where
  "map_count e = unat ((ALIGN_UP (rlength (mm_range e)) PAGE_SIZE + PAGE_SIZE) div PAGE_SIZE)"

definition for_kernel :: "mmap_entry \<Rightarrow> bool" where
  "for_kernel e \<longleftrightarrow> mm_type e = STIVALE2_MMAP_KERNEL_AND_MODULES"

definition entry_fits :: "mmap_entry \<Rightarrow> bool" where
  "entry_fits e \<longleftrightarrow> unat (first_frame e) + map_count e \<le> (if for_kernel e then 2 ^ 19 else 2 ^ 35 - 2 ^ 19)"

definition mapped_by :: "mmap_entry \<Rightarrow> u64 set" where
  "mapped_by e = io_pages (first_frame e) (map_count e) \<union>
     (if for_kernel e then kernel_pages (first_frame e) (map_count e) else {})"

definition entry_cost :: "mmap_entry \<Rightarrow> nat" where
  "entry_cost e = (if for_kernel e then 2 else 1) * tables_for (map_count e)"

definition kernel_map :: "handover \<Rightarrow> u64 set" where
  "kernel_map h = io_pages 0 0xfffff \<union> (\<Union>e\<in>set (ho_mmap h). mapped_by e)"

definition init_cost :: "handover \<Rightarrow> nat" where
  "init_cost h = Suc (tables_for 0xfffff + sum_list (map entry_cost (ho_mmap h)))"

lemma io_image:
  assumes "unat (base div 4096) + unat n \<le> 2 ^ 35 - 2 ^ 19"
  shows "(\<lambda>k. vpage (page_addr (mmap_phys_to_io base) k)) ` {k. k < n} = io_pages (base div 4096) (unat n)"
    "k < n \<Longrightarrow> frame_of (vpage (page_addr (mmap_phys_to_io base) k)) = k + base div 4096"
proof -
  have b: "unat base div 4096 + unat k < 2 ^ 35 - 2 ^ 19" if "k < n" for k
    using assms that by (simp add: unat_div word_less_nat_alt)
  show "(\<lambda>k. vpage (page_addr (mmap_phys_to_io base) k)) ` {k. k < n} = io_pages (base div 4096) (unat n)"
    unfolding io_pages_def using vpage_io(1) [OF b] by (intro image_cong) (auto simp: word_less_nat_alt)
  show "k < n \<Longrightarrow> frame_of (vpage (page_addr (mmap_phys_to_io base) k)) = k + base div 4096"
    using vpage_io(2) [OF b] .
qed

lemma kernel_image:
  assumes "unat (base div 4096) + unat n \<le> 2 ^ 19"
  shows "(\<lambda>k. vpage (page_addr (mmap_phys_to_kernel base) k)) ` {k. k < n} = kernel_pages (base div 4096) (unat n)"
    "k < n \<Longrightarrow> frame_of (vpage (page_addr (mmap_phys_to_kernel base) k)) = k + base div 4096"
proof -
  have b: "unat base div 4096 + unat k < 2 ^ 19" if "k < n" for k
    using assms that by (simp add: unat_div word_less_nat_alt)
  show "(\<lambda>k. vpage (page_addr (mmap_phys_to_kernel base) k)) ` {k. k < n} = kernel_pages (base div 4096) (unat n)"
    unfolding kernel_pages_def using vpage_kernel(1) [OF b] by (intro image_cong) (auto simp: word_less_nat_alt)
  show "k < n \<Longrightarrow> frame_of (vpage (page_addr (mmap_phys_to_kernel base) k)) = k + base div 4096"
    using vpage_kernel(2) [OF b] .
qed

lemma ALIGN_DOWN_div: "ALIGN_DOWN a PAGE_SIZE div 4096 = a div 4096"
proof -
  have "drop_bit 12 (push_bit 12 (drop_bit 12 a)) = drop_bit 12 a"
    by (intro bit_word_eqI) (auto simp: bit_simps dest: bit_imp_le_length)
  then show ?thesis unfolding ALIGN_DOWN_page by (simp add: push_bit_eq_mult drop_bit_eq_div)
qed

text \<open>What every step of the initialisation keeps.\<close>

definition init_kept :: "vmm \<Rightarrow> vmm \<Rightarrow> bool" where
  "init_kept s s' \<longleftrightarrow> kernel_pml4 s' = kernel_pml4 s \<and> vmm_lock s' = 0 \<and>
     bitmap_size (vm_pmm s') = bitmap_size (vm_pmm s) \<and> (\<forall>a. byte_used (vm_pmm s) a \<longrightarrow> byte_used (vm_pmm s') a)"

lemma init_kept_trans: "init_kept s s1 \<Longrightarrow> init_kept s1 s2 \<Longrightarrow> init_kept s s2"
  by (auto simp: init_kept_def)

context page_budget
begin

lemma linear_step:
  fixes virt :: range_t
  defines "n \<equiv> rlength virt div PAGE_SIZE"
  assumes lin: "linear M s root" and l: "vmm_lock s = 0" and len: "rlength phys = rlength virt" and n: "unat n \<le> 2 ^ 36"
    and bud: "budget (tables_for (unat n) + k) (vm_pmm s)"
    and fr: "\<forall>i<n. frame_of (vpage (page_addr (rbase virt) i)) = i + rbase phys div 4096"
  shows "\<exists>s'. vmm_map_range root virt phys False s = Done s' \<and> budget k (vm_pmm s') \<and> init_kept s s' \<and>
    linear (M \<union> (\<lambda>i. vpage (page_addr (rbase virt) i)) ` {i. i < n}) s' root"
proof -
  have ok: "vm_ok s root" using lin by (simp add: linear_def)
  then have pm: "pmm_ok (vm_pmm s)" by (simp add: vm_ok_def)
  obtain s' where s': "vmm_map_range root virt phys False s = Done s'" "budget k (vm_pmm s')"
    using map_range_progress [OF ok bud [unfolded n_def] l len] by blast
  have "init_kept s s'"
    using map_range_used [OF pm s'(1)] map_range_spec(2) [OF ok s'(1) n [unfolded n_def]] by (simp add: init_kept_def)
  with s' linear_range [OF lin s'(1) n [unfolded n_def] fr [unfolded n_def]] show ?thesis by (auto simp: n_def)
qed

lemma linear_entry:
  assumes lin: "linear M s root" and k: "kernel_pml4 s = root" and l: "vmm_lock s = 0" and fit: "entry_fits e"
    and bud: "budget (entry_cost e + k) (vm_pmm s)"
  shows "\<exists>s'. map_mmap_entry e s = Done s' \<and> linear (M \<union> mapped_by e) s' root \<and> budget k (vm_pmm s') \<and> init_kept s s'"
proof -
  let ?base = "ALIGN_DOWN (rbase (mm_range e)) PAGE_SIZE" and ?len = "ALIGN_UP (rlength (mm_range e)) PAGE_SIZE + PAGE_SIZE"
  let ?n = "?len div PAGE_SIZE" and ?phys = "\<lparr>rbase = ?base, rlength = ?len\<rparr>"
  have base: "?base div 4096 = first_frame e" by (simp add: ALIGN_DOWN_div first_frame_def)
  have n: "unat ?n = map_count e" by (simp add: map_count_def)
  have io: "unat (?base div 4096) + unat ?n \<le> 2 ^ 35 - 2 ^ 19" using fit unfolding base n by (auto simp: entry_fits_def split: if_splits)
  then have n36: "unat ?n \<le> 2 ^ 36" by simp
  have into_io: "\<exists>s'. vmm_map_range root \<lparr>rbase = mmap_phys_to_io ?base, rlength = ?len\<rparr> ?phys False t = Done s' \<and> budget k (vm_pmm s') \<and>
      init_kept t s' \<and> linear (N \<union> io_pages (first_frame e) (map_count e)) s' root"
    if "linear N t root" "vmm_lock t = 0" "budget (tables_for (map_count e) + k) (vm_pmm t)" for N t
    using linear_step [of N t root ?phys "\<lparr>rbase = mmap_phys_to_io ?base, rlength = ?len\<rparr>" k] that n36 io_image [OF io] by (simp add: base n)
  show ?thesis
  proof (cases "for_kernel e")
    case True
    then have kp: "unat (?base div 4096) + unat ?n \<le> 2 ^ 19" using fit unfolding base n by (simp add: entry_fits_def)
    have "budget (tables_for (map_count e) + (tables_for (map_count e) + k)) (vm_pmm s)"
      using bud True by (simp add: entry_cost_def mult_2 add.assoc)
    then obtain s1 where s1: "vmm_map_range root \<lparr>rbase = mmap_phys_to_kernel ?base, rlength = ?len\<rparr> ?phys False s = Done s1"
      "budget (tables_for (map_count e) + k) (vm_pmm s1)" "init_kept s s1" "linear (M \<union> kernel_pages (first_frame e) (map_count e)) s1 root"
      using linear_step [of M s root ?phys "\<lparr>rbase = mmap_phys_to_kernel ?base, rlength = ?len\<rparr>" "tables_for (map_count e) + k"]
        lin l n36 kernel_image [OF kp] by (auto simp: base n)
    moreover obtain s2 where "vmm_map_range root \<lparr>rbase = mmap_phys_to_io ?base, rlength = ?len\<rparr> ?phys False s1 = Done s2"
      "budget k (vm_pmm s2)" "init_kept s1 s2"
      "linear (M \<union> kernel_pages (first_frame e) (map_count e) \<union> io_pages (first_frame e) (map_count e)) s2 root"
      using into_io [OF s1(4) _ s1(2)] s1(3) by (auto simp: init_kept_def)
    ultimately show ?thesis using True k init_kept_trans [of s s1 s2]
      by (simp add: map_mmap_entry_def Let_def for_kernel_def mapped_by_def Un_ac init_kept_def)
  next
    case False
    then have "budget (tables_for (map_count e) + k) (vm_pmm s)" using bud by (simp add: entry_cost_def)
    with into_io [OF lin l] False k show ?thesis
      by (auto simp: map_mmap_entry_def Let_def for_kernel_def mapped_by_def)
  qed
qed

lemma linear_entries:
  "linear M s root \<Longrightarrow> kernel_pml4 s = root \<Longrightarrow> vmm_lock s = 0 \<Longrightarrow> \<forall>e\<in>set es. entry_fits e \<Longrightarrow>
   budget (sum_list (map entry_cost es) + k) (vm_pmm s) \<Longrightarrow>
   \<exists>s'. map_mmap_entries es s = Done s' \<and> linear (M \<union> (\<Union>e\<in>set es. mapped_by e)) s' root \<and> budget k (vm_pmm s') \<and> init_kept s s'"
proof (induction es arbitrary: M s)
  case Nil
  then show ?case by (simp add: init_kept_def)
next
  case (Cons e es)
  have "budget (entry_cost e + (sum_list (map entry_cost es) + k)) (vm_pmm s)" using Cons.prems(5) by (simp add: add.assoc)
  from linear_entry [OF Cons.prems(1-3) _ this] Cons.prems(4) obtain s1 where
    s1: "map_mmap_entry e s = Done s1" "linear (M \<union> mapped_by e) s1 root" "budget (sum_list (map entry_cost es) + k) (vm_pmm s1)"
      "init_kept s s1" by auto
  from Cons.IH [OF s1(2) _ _ _ s1(3)] s1(4) Cons.prems(2,4) obtain s2 where
    "map_mmap_entries es s1 = Done s2" "linear (M \<union> mapped_by e \<union> (\<Union>e\<in>set es. mapped_by e)) s2 root" "budget k (vm_pmm s2)" "init_kept s1 s2"
    by (auto simp: init_kept_def)
  with s1(1) init_kept_trans [OF s1(4)] show ?case by (simp add: Un_assoc)
qed

lemma vmm_init_ok:
  assumes pm: "pmm_ok (vm_pmm s)" and l: "vmm_lock s = 0" and fit: "\<forall>e\<in>set (ho_mmap h). entry_fits e"
    and bud: "budget (init_cost h + k) (vm_pmm s)"
  obtains s' where "vmm_init h s = Done s'" "linear (kernel_map h) s' (kernel_pml4 s')" "vmm_lock s' = 0"
    "cr3 s' = mmap_io_to_phys (kernel_pml4 s')" "budget k (vm_pmm s')" "bitmap_size (vm_pmm s') = bitmap_size (vm_pmm s)"
    "\<forall>a. byte_used (vm_pmm s) a \<longrightarrow> byte_used (vm_pmm s') a"
proof -
  have p: "PAGE_SIZE \<noteq> 0" by (simp add: PAGE_SIZE_def)
  have "budget (Suc (tables_for 0xfffff + (sum_list (map entry_cost (ho_mmap h)) + k))) (vm_pmm s)"
    using bud by (simp add: init_cost_def add.assoc)
  from take_page [OF this] obtain r pm' where a: "pmm_alloc PAGE_SIZE (vm_pmm s) = Done (r, pm')" "rlength r > 0"
    "budget (tables_for 0xfffff + (sum_list (map entry_cost (ho_mmap h)) + k)) pm'" by blast
  let ?root = "mmap_phys_to_io (rbase r)"
  let ?s = "clear_table ?root (s\<lparr>vm_pmm := pm', kernel_pml4 := ?root\<rparr>)"
  have r0: "rlength r \<noteq> 0" using a(2) by auto
  have "byte_used pm' (block_byte r 0)"
    using block_fresh(2) [OF pm p a(1) r0, of 0] need_one by (simp add: need_pages_def PAGE_SIZE_def)
  then have "is_set_pmm pm' (mmap_io_to_phys ?root div PAGE_SIZE)" by (simp add: byte_used_def)
  moreover have path: "path_table (tables ?s) ?root q = (if q = [] then Some ?root else None)" for q
    by (cases q) (simp_all add: clear_table_def next_table_def present_def)
  ultimately have "vm_ok ?s ?root"
    using pmm_pages.alloc_ok [OF pm p a(1)] by (simp add: vm_ok_def vm_tree_def tables_used_def) (simp add: clear_table_def)
  moreover have "lookup (tables ?s) ?root v = 0" for v by (simp add: lookup_def path vpath_def del: path_table.simps(2))
  ultimately have lin: "linear {} ?s ?root" by (simp add: linear_def)
  let ?v = "\<lparr>rbase = mmap_phys_to_io 0, rlength = 0xffffffff\<rparr>" and ?p = "\<lparr>rbase = 0, rlength = 0xffffffff\<rparr>"
  have n: "(0xffffffff :: u64) div PAGE_SIZE = 0xfffff" by (simp add: PAGE_SIZE_def)
  have io: "unat ((0 :: u64) div 4096) + unat (0xfffff :: u64) \<le> 2 ^ 35 - 2 ^ 19" by simp
  obtain s1 where s1: "vmm_map_range ?root ?v ?p False ?s = Done s1" "budget (sum_list (map entry_cost (ho_mmap h)) + k) (vm_pmm s1)"
    "init_kept ?s s1" "linear (io_pages 0 0xfffff) s1 ?root"
    using linear_step [OF lin, of ?p ?v "sum_list (map entry_cost (ho_mmap h)) + k"] a(3) l io_image [OF io]
    by (auto simp: n clear_table_def)
  from linear_entries [OF s1(4) _ _ fit s1(2)] s1(3) obtain s2 where
    s2: "map_mmap_entries (ho_mmap h) s1 = Done s2" "linear (kernel_map h) s2 ?root" "budget k (vm_pmm s2)" "init_kept s1 s2"
    by (auto simp: init_kept_def clear_table_def kernel_map_def)
  have kept: "init_kept ?s s2" by (rule init_kept_trans [OF s1(3) s2(4)])
  let ?s' = "vmm_switch_space ?root s2"
  have f: "kernel_pml4 s1 = ?root" "kernel_pml4 s2 = ?root" using s1(3) kept by (simp_all add: init_kept_def clear_table_def)
  show thesis
  proof (rule that [of ?s'])
    show "vmm_init h s = Done ?s'"
      using a(1,2) s1(1) s2(1) f by (simp add: vmm_init_def call_pmm_alloc_def Let_def clear_table_def)
    show "\<forall>x. byte_used (vm_pmm s) x \<longrightarrow> byte_used (vm_pmm ?s') x"
      using alloc_keeps_used [OF pm p a(1)] kept by (auto simp: init_kept_def clear_table_def vmm_switch_space_def)
    show "bitmap_size (vm_pmm ?s') = bitmap_size (vm_pmm s)"
      using alloc_bitmap_size [OF pm p a(1)] kept by (simp add: init_kept_def clear_table_def vmm_switch_space_def)
  qed (use s2 f kept in \<open>auto simp: vmm_switch_space_def linear_def vm_ok_def init_kept_def\<close>)
qed

end

section \<open>Properties\<close>


lemma window_low:
  assumes "unat b + n < 2 ^ 35" "unat g < 0x800000000"
  shows "g \<notin> io_pages b n" "g \<notin> kernel_pages b n"
proof -
  have "unat (0x800000000 + (k + b)) \<ge> 0x800000000" "unat (0xffff80000 + (k + b)) \<ge> 0x800000000" if "unat k < n" for k
  proof -
    have s: "unat (k + b) = unat k + unat b" using assms(1) that by (subst unat_plus_small) simp_all
    show "unat (0x800000000 + (k + b)) \<ge> 0x800000000" "unat (0xffff80000 + (k + b)) \<ge> 0x800000000"
      using assms(1) that s by (subst unat_plus_small; simp)+
  qed
  then show "g \<notin> io_pages b n" "g \<notin> kernel_pages b n"
    using assms(2) unfolding io_pages_def kernel_pages_def by (auto simp: leD)
qed

definition empty_pmm :: pmm where
  "empty_pmm = \<lparr>bitmap = 0xffff800000001000, bm = (\<lambda>_. 0), bitmap_size = 8192, usable_pages = 8192, last_page = 0, pmm_lock = 0\<rparr>"

definition kernel_entry :: mmap_entry where
  "kernel_entry = \<lparr>mm_range = \<lparr>rbase = 0x100000, rlength = 0x2000\<rparr>, mm_type = STIVALE2_MMAP_KERNEL_AND_MODULES, is_free = False\<rparr>"

lemma empty_pmm_ok: "pmm_ok empty_pmm" "enough 8192 empty_pmm"
proof -
  show ok: "pmm_ok empty_pmm" by (simp add: pmm_ok_def empty_pmm_def)
  have f: "unat (last_page empty_pmm) = 0" "unat (bitmap_size empty_pmm) = 8192" "unat (usable_pages empty_pmm) = 8192"
    by (simp_all add: empty_pmm_def)
  have z: "\<not> is_set_pmm empty_pmm j" for j by (simp add: empty_pmm_def is_set_pmm_def)
  have "length (reachable_free empty_pmm) = 8192" unfolding reachable_free_def f by (subst filter_True) (simp_all only: z length_upt, simp_all)
  with ok f(3) show "enough 8192 empty_pmm" unfolding enough_def by simp
qed

lemma kernel_entry_fields: "first_frame kernel_entry = 0x100" "map_count kernel_entry = 3" "for_kernel kernel_entry"
  by (simp_all add: kernel_entry_def first_frame_def map_count_def for_kernel_def ALIGN_UP_def PAGE_SIZE_def)


end
