(* ===== verification/Navy_Boot.thy ===== *)
theory Navy_Boot
  imports Navy_Elf Navy_User Navy_Init
begin

text \<open>
  The boot of the kernel: \<^verbatim>\<open>stivale2_entry\<close> of \<^verbatim>\<open>arch/x86_64/stivale_bootsrap.c\<close>, \<^verbatim>\<open>arch_init\<close> of
  \<^verbatim>\<open>arch/x86_64/arch.c\<close> and \<^verbatim>\<open>kernel_splash\<close> and \<^verbatim>\<open>kmain\<close> of \<^verbatim>\<open>kernel/entry.c\<close>, which call the
  initialisation of every part of the kernel, load three copies of the test program and end in
  the endless loop of \<^verbatim>\<open>task_slayer\<close>. The addresses the kernel heap returns and those the
  linker fixes are arguments. With the initial page tables of \<open>Navy_Init\<close>, the loader of \<open>Navy_Elf\<close>
  and the test program of \<open>Navy_User\<close> the last theorem goes from the boot loader to the messages
  on the line.
\<close>

section \<open>Greeting\<close>

text \<open>The banner is full of backslashes: here a bar stands for each of them.\<close>

definition art :: "string \<Rightarrow> u8 list" where
  "art s = map (\<lambda>c. if c = CHR ''|'' then 92 else of_char c) s"

definition splash_lines :: "u8 list list" where
  "splash_lines =
     [[10] @ art ''__/|||||_____/|||____________________________________________        '' @ [10],
      art '' _|/||||||___|/|||____________________________________________       '' @ [10],
      art ''  _|/|||/|||__|/|||_________________________________/|||__/|||_      '' @ [10],
      art ''   _|/|||//|||_|/|||__/|||||||||_____/|||____/|||___|//|||/|||__     '' @ [10],
      art ''    _|/||||//||||/|||_|////////|||___|//|||__/|||_____|//|||||___    '' @ [10],
      art ''     _|/|||_|//|||/|||___/||||||||||___|//|||/|||_______|//|||____   '' @ [10],
      art ''      _|/|||__|//||||||__/|||/////|||____|//|||||_____/||_/|||_____  '' @ [10],
      art ''       _|/|||___|//|||||_|//||||||||/||____|//|||_____|//||||/______ '' @ [10],
      art ''        _|///_____|/////___|////////|//______|///_______|////________'' @ [10, 10]]"

definition kernel_splash :: "device \<Rightarrow> machine \<Rightarrow> machine outcome" where
  "kernel_splash dev k =
     (let pages = get_usable_pages (vm_pmm (vm (ksched k)))
      in bind_o (puts_all dev splash_lines k) (\<lambda>k.
         log_impl dev (cstring ''entry.c'') 48 (cstring ''> Usable memory: {M} Usable pages: {}'')
           [fmtvald (pages * get_page_size), fmtvald pages] k))"

section \<open>The first processes\<close>

text \<open>
  \<open>kp\<close> is the block of the kernel process, \<open>(np1, ks1)\<close>, \<open>(np2, ks2)\<close>, \<open>(np3, ks3)\<close> are the
  object and the kernel stack of the three others. The result is the machine that enters
  \<^verbatim>\<open>task_slayer\<close>, which never returns.
\<close>

definition kmain ::
  "device \<Rightarrow> (u64 \<Rightarrow> bool) \<Rightarrow> u64 \<Rightarrow> u64 \<times> u64 \<Rightarrow> u64 \<times> u64 \<Rightarrow> u64 \<times> u64 \<Rightarrow> handover \<Rightarrow> machine \<Rightarrow> machine outcome" where
  "kmain dev can kp b1 b2 b3 handover k =
     bind_o (kernel_splash dev k) (\<lambda>k.
     bind_o (sched_init can kp (ksched k)) (\<lambda>s.
     let k = k\<lparr>ksched := s\<rparr>;
         test_range = handover_find_module handover (cstring ''test_ipc'')
     in kassert (rlength test_range \<noteq> 0) (
        bind_o (load_elf_module dev (fst b1) (snd b1) test_range k) (\<lambda>(test_ipc, k).
        bind_o (load_elf_module dev (fst b2) (snd b2) test_range k) (\<lambda>(test_ipc2, k).
        bind_o (load_elf_module dev (fst b3) (snd b3) test_range k) (\<lambda>(test_ipc3, k).
        bind_o (sched_push_process1 can test_ipc (ksched k)) (\<lambda>s.
        bind_o (sched_push_process1 can test_ipc2 s) (\<lambda>s.
        bind_o (sched_push_process1 can test_ipc3 s) (\<lambda>s.
        Done (k\<lparr>ksched := s\<rparr>))))))))))"

section \<open>The machine below the kernel\<close>

text \<open>
  The addresses the linker chose: the task state segment, the interrupt descriptor table, the
  stubs of \<^verbatim>\<open>__interrupt_vector\<close> and the entry point of system calls.
\<close>

record linkage =
  at_tss :: u64
  at_kidt :: u64
  at_vector :: "nat \<Rightarrow> u64"
  at_syscall :: u64

record computer =
  comachine :: machine
  codesc :: descriptors
  coidt :: "idt_descr list \<times> idt_ptr"

text \<open>\<open>k0\<close>, \<open>k1\<close>, \<open>k2\<close> are the three interrupt stacks \<^verbatim>\<open>intstack_init\<close> gets from the kernel heap.\<close>

definition arch_init ::
  "device \<Rightarrow> linkage \<Rightarrow> u64 \<times> u64 \<times> u64 \<Rightarrow> handover \<Rightarrow> computer \<Rightarrow> (handover \<times> computer) outcome" where
  "arch_init dev lk stacks handover c =
     bind_o (log_impl dev (cstring ''arch.c'') 50 (cstring ''Initializing modules for x86-64'') [] (comachine c)) (\<lambda>k.
     let c = c\<lparr>codesc := gdt_init (at_tss lk) (codesc c)\<rparr>;
         c = c\<lparr>coidt := idt_init (at_vector lk) (at_kidt lk)\<rparr>
     in bind_o (pmm_init handover (vm_pmm (vm (ksched k)))) (\<lambda>(handover, pm).
        bind_o (vmm_init handover ((vm (ksched k))\<lparr>vm_pmm := pm\<rparr>)) (\<lambda>v.
        let k = k\<lparr>ksched := (ksched k)\<lparr>vm := v\<rparr>\<rparr>;
            (k0, k1, k2) = stacks;
            c = c\<lparr>codesc := intstack_init k0 k1 k2 (codesc c)\<rparr>
        in bind_o (pit_init 1000 (kports k)) (\<lambda>p.
           let k = k\<lparr>kports := syscall_init (at_syscall lk) (pic_init p)\<rparr>
           in bind_o (log_impl dev (cstring ''arch.c'') 61 (cstring ''Arch Initialized !'') [] k) (\<lambda>k.
              Done (handover, c\<lparr>comachine := k\<rparr>))))))"

text \<open>
  \<open>arch_init\<close> above ends where \<^verbatim>\<open>arch_init\<close> calls \<^verbatim>\<open>kmain\<close>; here the two are joined. The tag
  list and the contents of the module strings are those of the boot loader.
\<close>

definition stivale2_entry ::
  "device \<Rightarrow> linkage \<Rightarrow> u8 list \<Rightarrow> (u64 \<Rightarrow> u32) \<Rightarrow> (u64 \<Rightarrow> stivale2_tag option) \<Rightarrow> u64 \<Rightarrow>
   u64 \<times> u64 \<times> u64 \<Rightarrow> (u64 \<Rightarrow> bool) \<Rightarrow> u64 \<Rightarrow> u64 \<times> u64 \<Rightarrow> u64 \<times> u64 \<Rightarrow> u64 \<times> u64 \<Rightarrow> computer \<Rightarrow> computer outcome" where
  "stivale2_entry dev lk garbage rsdp store tags stacks can kp b1 b2 b3 c =
     bind_o (log_impl dev (cstring ''stivale_bootsrap.c'') 54 (cstring ''Booting from limine...'') [] (comachine c)) (\<lambda>k.
     bind_o (stivale2_parse_header garbage rsdp store tags) (\<lambda>handover.
     let k = k\<lparr>symbols := register_symbols (handover_find_module handover (cstring ''symbols'')) (symbols k)\<rparr>
     in bind_o (arch_init dev lk stacks handover (c\<lparr>comachine := k\<rparr>)) (\<lambda>(handover, c).
        bind_o (kmain dev can kp b1 b2 b3 handover (comachine c)) (\<lambda>k. Done (c\<lparr>comachine := k\<rparr>)))))"

section \<open>The greeting on the line\<close>

lemma splash_short: "short_text (concat splash_lines)"
proof -
  have "list_all (\<lambda>b. b \<noteq> 0) (concat splash_lines)" "length (concat splash_lines) < 1000" by code_simp+
  then show ?thesis by (auto simp: short_text_def list_all_iff)
qed

lemma kernel_splash_returns:
  assumes "console_up dev k"
  shows "\<exists>p. kernel_splash dev k = Done (k\<lparr>kports := p\<rparr>)"
proof -
  obtain k1 where a: "puts_all dev splash_lines k = Done k1" "printed k (concat splash_lines) k1"
    using puts_all_prints [OF assms splash_short] by blast
  obtain p1 where k1: "k1 = k\<lparr>kports := p1\<rparr>" using a(2) by (auto simp: printed_def)
  have "console_up dev k1" by (rule console_up_printed [OF a(2) assms])
  from log_returns [OF this, of "cstring ''> Usable memory: {M} Usable pages: {}''"
      "[fmtvald (get_usable_pages (kpmm k) * get_page_size), fmtvald (get_usable_pages (kpmm k))]" "cstring ''entry.c''" 48]
  obtain p where "log_impl dev (cstring ''entry.c'') 48 (cstring ''> Usable memory: {M} Usable pages: {}'')
      [fmtvald (get_usable_pages (kpmm k) * get_page_size), fmtvald (get_usable_pages (kpmm k))] k1 = Done (k1\<lparr>kports := p\<rparr>)"
    by (auto simp: line_ok_def cstring_def fmtvald_short fmtvals_def)
  with a(1) k1 show ?thesis by (auto simp: kernel_splash_def)
qed

section \<open>Programs in an unchanged image\<close>

lemma program_ok_image:
  assumes eq: "\<forall>j<unat (rlength elf). m' (rbase elf + of_nat j) = m (rbase elf + of_nat j)" and ok: "program_ok m elf phs"
  shows "program_ok m' elf phs"
proof -
  have hd: "headers_ok m elf" and len: "64 \<le> unat (rlength elf)" using ok by (auto simp: program_ok_def headers_ok_def)
  note eh = ehdr_image [OF eq len]
  have cnt: "phdr_count m' elf = phdr_count m elf" by (simp add: phdr_count_def eh)
  have off: "phdr_offset m' elf i = phdr_offset m elf i" for i by (simp add: phdr_offset_def eh)
  have at: "phdr_at m' elf i = phdr_at m elf i" if "i < phdr_count m elf" for i
    using phdr_image [OF eq, of "phdr_offset m elf i"] hd that by (simp add: phdr_at_def off headers_ok_def)
  have "map (phdr_at m' elf) [0..<phdr_count m elf] = map (phdr_at m elf) [0..<phdr_count m elf]"
    by (rule map_cong) (simp_all add: at)
  then have "loadable m' elf (phdr_count m elf) = loadable m elf (phdr_count m elf)" by (simp only: loadable_def)
  then have "phs = loadable m' elf (phdr_count m' elf)" using ok by (simp only: program_ok_def cnt)
  moreover have "headers_ok m' elf" using hd by (simp add: headers_ok_def cnt off)
  ultimately show ?thesis using ok unfolding program_ok_def by blast
qed

lemma runs_program_image:
  assumes eq: "\<forall>j<unat (rlength elf). m' (rbase elf + of_nat j) = m (rbase elf + of_nat j)" and ok: "program_ok m elf phs"
  shows "runs_program m' elf phs k x \<longleftrightarrow> runs_program m elf phs k x"
proof -
  have len: "64 \<le> unat (rlength elf)" and seg: "\<forall>ph\<in>set phs. segment_ok elf ph"
    using ok by (auto simp: program_ok_def headers_ok_def)
  have "seg_loaded m' elf r k ph = seg_loaded m elf r k ph" if "ph \<in> set phs" for r ph
    using seg_content_image [OF eq] seg that by (simp add: seg_loaded_def)
  then show ?thesis by (simp add: runs_program_def ehdr_image [OF eq len])
qed

lemma runs_program_keep:
  assumes "runs_program m elf phs k x" "grows k k'" "\<forall>w. user_addr k' (pml x) w = user_addr k (pml x) w"
  shows "runs_program m elf phs k' x"
  using assms unfolding runs_program_def seg_loaded_def grows_def by metis

section \<open>Loading one program after the other\<close>

text \<open>The state between the calls: \<open>L\<close> lists the processes made so far, each with its address.\<close>

definition booting :: "device \<Rightarrow> range_t \<Rightarrow> Elf64_Phdr list \<Rightarrow> mem \<Rightarrow> u64 set \<Rightarrow> (u64 \<times> process) list \<Rightarrow> machine \<Rightarrow> bool" where
  "booting dev elf phs m R L k \<longleftrightarrow>
     loader_ready dev R k \<and> kernel_ok (ksched k) \<and> image_ok (kpmm k) elf \<and>
     (\<forall>j<unat (rlength elf). kmem k (rbase elf + of_nat j) = m (rbase elf + of_nat j)) \<and>
     (\<forall>(np, x)\<in>set L. pheap (ksched k) np = Some x \<and> runs_program m elf phs k x \<and> pml x \<in> R \<and> mailbox x = vec_init) \<and>
     distinct (map (pml \<circ> snd) L)"

lemma boot_step:
  assumes b: "booting dev elf phs m R L k" and prog: "program_ok m elf phs" and np: "np \<noteq> 0" "pheap (ksched k) np = None"
    and room: "room (load_cost phs + n) (kpmm k)"
  obtains k' x v where "load_elf_module dev np kstack elf k = Done (np, k')"
    "booting dev elf phs m (insert (pml x) R) (L @ [(np, x)]) k'" "room n (kpmm k')"
    "ksched k' = (ksched k)\<lparr>vm := v, pheap := (pheap (ksched k))(np \<mapsto> x)\<rparr>"
proof -
  have rd: "loader_ready dev R k" and kok: "kernel_ok (ksched k)" and img: "image_ok (kpmm k) elf"
    and eq: "\<forall>j<unat (rlength elf). kmem k (rbase elf + of_nat j) = m (rbase elf + of_nat j)"
    and old: "\<And>q y. (q, y) \<in> set L \<Longrightarrow> pheap (ksched k) q = Some y \<and> runs_program m elf phs k y \<and> pml y \<in> R \<and> mailbox y = vec_init"
    and dist: "distinct (map (pml \<circ> snd) L)"
    using b by (auto simp: booting_def)
  obtain k' x where run: "load_elf_module dev np kstack elf k = Done (np, k')" and x: "runs_program (kmem k) elf phs k' x"
    "pheap (ksched k') = (pheap (ksched k))(np \<mapsto> x)" "mailbox x = vec_init" "pml x \<notin> R"
    and rd': "loader_ready dev (insert (pml x) R) k'" and room': "room n (kpmm k')" and g: "grows k k'"
    and same: "\<forall>r\<in>R. \<forall>w. user_addr k' r w = user_addr k r w"
    and rec: "\<exists>p v m. k' = k\<lparr>kports := p, ksched := (ksched k)\<lparr>vm := v, pheap := (pheap (ksched k))(np \<mapsto> x)\<rparr>, kmem := m\<rparr>"
    by (rule load_elf_ok [OF rd np(1) img program_ok_image [OF eq prog] room])
  obtain v where s': "ksched k' = (ksched k)\<lparr>vm := v, pheap := (pheap (ksched k))(np \<mapsto> x)\<rparr>" using rec by auto
  have "kernel_ok (ksched k')" unfolding s' by (rule kernel_ok_add [OF kok np x(3)])
  moreover have "\<forall>j<unat (rlength elf). kmem k' (rbase elf + of_nat j) = m (rbase elf + of_nat j)"
    using grows_bytes [OF g img] eq by simp
  moreover have "runs_program m elf phs k' x" using x(1) runs_program_image [OF eq prog] by simp
  moreover have "pheap (ksched k') q = Some y \<and> runs_program m elf phs k' y \<and> pml y \<in> R \<and> mailbox y = vec_init \<and> pml y \<noteq> pml x"
    if "(q, y) \<in> set L" for q y
    using old [OF that] np(2) x(2,4) same runs_program_keep [OF _ g, of m elf phs y] by auto
  moreover from this have "pml x \<notin> (pml \<circ> snd) ` set L" by force
  ultimately have "booting dev elf phs m (insert (pml x) R) (L @ [(np, x)]) k'"
    using rd' grows_image [OF g img] x(2,3) dist by (auto simp: booting_def)
  with run room' s' show thesis by (intro that)
qed

lemma push_step:
  assumes ok: "kernel_ok s" and np: "pheap s np = Some x" "np \<notin> set (items (processes s))" and can: "\<forall>n. can n"
    and n: "Suc (nproc s) < 2 ^ 62"
  obtains s' y where "sched_push_process1 can np s = Done s'" "kernel_ok s'" "items (processes s') = items (processes s) @ [np]"
    "pheap s' = (pheap s)(np \<mapsto> y)" "y = x\<lparr>pid := of_nat (nproc s), regs := (regs x)\<lparr>rdi := 0, rsi := 0, rdx := 0, rcx := 0\<rparr>\<rparr>"
    "vm s' = vm s"
proof -
  have t: "sched_ok s" "np \<noteq> 0" "vec_ok (mailbox x)" "vec_ok (processes s)"
    using ok np(1) by (auto simp: kernel_ok_def sched_ok_def table_ok_def)
  obtain v where v: "vec_push can 8 np (processes s) = Done v"
    using vec_push_Done [OF t(4), of can 8 np] can n by (auto simp: nproc_def)
  obtain s' where s': "sched_push_process5 can np 0 0 0 0 s = Done s'" "items (processes s') = items (processes s) @ [np]"
    "pheap s' = (pheap s)(np \<mapsto> x\<lparr>pid := of_nat (nproc s), regs := (regs x)\<lparr>rdi := 0, rsi := 0, rdx := 0, rcx := 0\<rparr>\<rparr>)"
    using push_process_ok [OF t(1) np(1) t(2) np(2) t(3) v n] by blast
  moreover have "vm s' = vm s" using s'(1) by (auto simp: sched_push_process5_def Let_def put_proc_def)
  ultimately show thesis
    using that [OF _ push_ok [OF ok np n s'(1)] s'(2,3) refl] s'(1) by (simp add: sched_push_process1_def)
qed

section \<open>The first processes run\<close>

text \<open>The scheduler's variables as the compiler initialises them.\<close>

definition sched_fresh :: "sched \<Rightarrow> bool" where
  "sched_fresh s \<longleftrightarrow> last_pid s = 1 \<and> current_pid s = 0 \<and> tick s = 0 \<and> sched_lock s = 0 \<and> usertask_lock s = 0 \<and>
     pheap s = (\<lambda>_. None)"

lemma sched_init_first:
  assumes "sched_fresh s" "kp \<noteq> 0" "\<forall>n. can n"
  obtains s' x where "sched_init can kp s = Done s'" "kernel_ok s'" "pheap s' = [kp \<mapsto> x]" "items (processes s') = [kp]"
    "vm s' = vm s" "usertask_lock s' = 0"
proof -
  have f: "last_pid s = 1" "current_pid s = 0" "tick s = 0" "sched_lock s = 0" "usertask_lock s = 0" "pheap s = (\<lambda>_. None)"
    using assms(1) by (simp_all add: sched_fresh_def)
  obtain s' x where s': "sched_init can kp s = Done s'" "sched_ok s'" "pheap s' = (pheap s)(kp \<mapsto> x)" "vec_ok (mailbox x)"
    using sched_init_ok [OF assms(2,3) f(1-5)] by blast
  obtain v where "vec_push can 8 kp vec_init = Done v" "items v = [kp]"
    using vec_push_Done [OF vec_ok_init, of can 8 kp] assms(3) by (auto simp: vec_init_def)
  with s'(1) assms(2) have "items (processes s') = [kp]" "vm s' = vm s" "usertask_lock s' = usertask_lock s"
    by (auto simp: sched_init_def Let_def put_proc_def arch_enable_scheduler_def)
  moreover have "kernel_ok s'" using s' f(6) assms(2) by (auto simp: kernel_ok_def split: if_splits)
  ultimately show thesis using that s' f by simp
qed

lemma kmain_loads:
  assumes b: "booting dev elf phs m R [] k" and prog: "program_ok m elf phs"
    and np: "distinct [0, n1, n2, n3]" "\<forall>n\<in>{n1, n2, n3}. pheap (ksched k) n = None"
    and room: "room (3 * load_cost phs) (kpmm k)"
  obtains k1 k2 k3 x1 x2 x3 R' where "load_elf_module dev n1 s1 elf k = Done (n1, k1)"
    "load_elf_module dev n2 s2 elf k1 = Done (n2, k2)" "load_elf_module dev n3 s3 elf k2 = Done (n3, k3)"
    "booting dev elf phs m R' [(n1, x1), (n2, x2), (n3, x3)] k3" "processes (ksched k3) = processes (ksched k)"
proof -
  have r1: "room (load_cost phs + 2 * load_cost phs) (kpmm k)" using room by simp
  obtain k1 x1 v1 where 1: "load_elf_module dev n1 s1 elf k = Done (n1, k1)"
    and b1: "booting dev elf phs m (insert (pml x1) R) ([] @ [(n1, x1)]) k1" and q1: "room (2 * load_cost phs) (kpmm k1)"
    and s1: "ksched k1 = (ksched k)\<lparr>vm := v1, pheap := (pheap (ksched k))(n1 \<mapsto> x1)\<rparr>"
    by (rule boot_step [OF b prog _ _ r1, of n1]) (use np in auto)
  have n2: "n2 \<noteq> 0" "pheap (ksched k1) n2 = None" using np s1 by auto
  have r2: "room (load_cost phs + load_cost phs) (kpmm k1)" using q1 by (simp add: mult_2)
  obtain k2 x2 v2 where 2: "load_elf_module dev n2 s2 elf k1 = Done (n2, k2)"
    and b2: "booting dev elf phs m (insert (pml x2) (insert (pml x1) R)) (([] @ [(n1, x1)]) @ [(n2, x2)]) k2"
    and q2: "room (load_cost phs) (kpmm k2)"
    and s2: "ksched k2 = (ksched k1)\<lparr>vm := v2, pheap := (pheap (ksched k1))(n2 \<mapsto> x2)\<rparr>"
    by (rule boot_step [OF b1 prog n2 r2])
  have n3: "n3 \<noteq> 0" "pheap (ksched k2) n3 = None" using np s1 s2 by auto
  have r3: "room (load_cost phs + 0) (kpmm k2)" using q2 by simp
  obtain k3 x3 v3 where 3: "load_elf_module dev n3 s3 elf k2 = Done (n3, k3)"
    and b3: "booting dev elf phs m (insert (pml x3) (insert (pml x2) (insert (pml x1) R)))
      ((([] @ [(n1, x1)]) @ [(n2, x2)]) @ [(n3, x3)]) k3"
    and s3: "ksched k3 = (ksched k2)\<lparr>vm := v3, pheap := (pheap (ksched k2))(n3 \<mapsto> x3)\<rparr>"
    by (rule boot_step [OF b2 prog n3 r3])
  have "processes (ksched k3) = processes (ksched k)" by (simp add: s1 s2 s3)
  with that 1 2 3 b3 show thesis by simp
qed

lemma runs_program_pushed:
  "runs_program m elf phs k x \<Longrightarrow> runs_program m elf phs k (x\<lparr>pid := i, regs := (regs x)\<lparr>rdi := a, rsi := b, rdx := c, rcx := d\<rparr>\<rparr>)"
  by (simp add: runs_program_def)

lemma runs_program_sched:
  "vm s = vm (ksched k) \<Longrightarrow> runs_program m elf phs (k\<lparr>ksched := s\<rparr>) x = runs_program m elf phs k x"
  by (simp add: runs_program_def seg_loaded_def user_addr_def)

text \<open>The state in which \<^verbatim>\<open>kmain\<close> enters \<^verbatim>\<open>task_slayer\<close>.\<close>

definition started :: "device \<Rightarrow> mem \<Rightarrow> range_t \<Rightarrow> Elf64_Phdr list \<Rightarrow> machine \<Rightarrow> bool" where
  "started dev m elf phs k \<longleftrightarrow> kernel_ok (ksched k) \<and> nproc (ksched k) = 4 \<and> console_up dev k \<and>
    (\<forall>i\<in>{1, 2, 3}. pid (proc (ksched k) i) = of_nat i \<and> runs_program m elf phs k (proc (ksched k) i) \<and>
       mailbox (proc (ksched k) i) = vec_init) \<and>
    distinct (map (\<lambda>i. pml (proc (ksched k) i)) [1, 2, 3])"

lemma kmain_ok:
  assumes "console_up dev k" "elf_lock k = 0" "vm_ok (kvm k) (kernel_pml4 (kvm k))" "vmm_lock (kvm k) = 0"
    and "sched_fresh (ksched k)" "distinct [0, kp, fst b1, fst b2, fst b3]" "\<forall>n. can n"
    and "elf = handover_find_module handover (cstring ''test_ipc'')" "image_ok (kpmm k) elf"
    and "program_ok (kmem k) elf phs" "room (3 * load_cost phs) (kpmm k)"
  shows "\<exists>k'. kmain dev can kp b1 b2 b3 handover k = Done k' \<and> started dev (kmem k) elf phs k'"
proof -
  obtain p where splash: "kernel_splash dev k = Done (k\<lparr>kports := p\<rparr>)" using kernel_splash_returns [OF assms(1)] by blast
  have kp: "kp \<noteq> 0" using assms(6) by auto
  obtain s x where init: "sched_init can kp (ksched k) = Done s" "kernel_ok s" "pheap s = [kp \<mapsto> x]"
    "items (processes s) = [kp]" "vm s = kvm k" "usertask_lock s = 0"
    by (rule sched_init_first [OF assms(5) kp assms(7)])
  let ?k = "k\<lparr>kports := p, ksched := s\<rparr>" and ?R = "{kernel_pml4 (kvm k)}"
  have len: "rlength elf \<noteq> 0" using assms(10) by (auto simp: program_ok_def headers_ok_def)
  have b: "booting dev elf phs (kmem k) ?R [] ?k"
    using assms(1-4,9) init by (simp add: booting_def loader_ready_def console_up_def)
  have np: "distinct [0, fst b1, fst b2, fst b3]" "\<forall>n\<in>{fst b1, fst b2, fst b3}. pheap (ksched ?k) n = None"
    using assms(6) init(3) by auto
  have room: "room (3 * load_cost phs) (kpmm ?k)" using assms(11) init(5) by simp
  obtain k1 k2 k3 x1 x2 x3 R' where l: "load_elf_module dev (fst b1) (snd b1) elf ?k = Done (fst b1, k1)"
    "load_elf_module dev (fst b2) (snd b2) elf k1 = Done (fst b2, k2)"
    "load_elf_module dev (fst b3) (snd b3) elf k2 = Done (fst b3, k3)"
    and b3: "booting dev elf phs (kmem k) R' [(fst b1, x1), (fst b2, x2), (fst b3, x3)] k3"
    and procs: "processes (ksched k3) = processes s"
    by (rule kmain_loads [OF b assms(10) np room, of "snd b1" "snd b2" "snd b3"]) simp
  have k3: "kernel_ok (ksched k3)" "pheap (ksched k3) (fst b1) = Some x1" "pheap (ksched k3) (fst b2) = Some x2"
    "pheap (ksched k3) (fst b3) = Some x3" "items (processes (ksched k3)) = [kp]"
    "runs_program (kmem k) elf phs k3 x1" "runs_program (kmem k) elf phs k3 x2" "runs_program (kmem k) elf phs k3 x3"
    "distinct [pml x1, pml x2, pml x3]" "mailbox x1 = vec_init" "mailbox x2 = vec_init" "mailbox x3 = vec_init"
    "console_up dev k3"
    using b3 procs init(4) by (auto simp: booting_def loader_ready_def)
  obtain t1 y1 where p1: "sched_push_process1 can (fst b1) (ksched k3) = Done t1" "kernel_ok t1"
    "items (processes t1) = items (processes (ksched k3)) @ [fst b1]" "pheap t1 = (pheap (ksched k3))(fst b1 \<mapsto> y1)"
    "y1 = x1\<lparr>pid := of_nat (nproc (ksched k3)), regs := (regs x1)\<lparr>rdi := 0, rsi := 0, rdx := 0, rcx := 0\<rparr>\<rparr>" "vm t1 = kvm k3"
    by (rule push_step [OF k3(1,2) _ assms(7)]) (use k3(5) assms(6) in \<open>auto simp: nproc_def\<close>)
  obtain t2 y2 where p2: "sched_push_process1 can (fst b2) t1 = Done t2" "kernel_ok t2"
    "items (processes t2) = items (processes t1) @ [fst b2]" "pheap t2 = (pheap t1)(fst b2 \<mapsto> y2)"
    "y2 = x2\<lparr>pid := of_nat (nproc t1), regs := (regs x2)\<lparr>rdi := 0, rsi := 0, rdx := 0, rcx := 0\<rparr>\<rparr>" "vm t2 = vm t1"
    by (rule push_step [OF p1(2) _ _ assms(7), of "fst b2" x2]) (use k3 p1 assms(6) in \<open>auto simp: nproc_def\<close>)
  obtain t3 y3 where p3: "sched_push_process1 can (fst b3) t2 = Done t3" "kernel_ok t3"
    "items (processes t3) = items (processes t2) @ [fst b3]" "pheap t3 = (pheap t2)(fst b3 \<mapsto> y3)"
    "y3 = x3\<lparr>pid := of_nat (nproc t2), regs := (regs x3)\<lparr>rdi := 0, rsi := 0, rdx := 0, rcx := 0\<rparr>\<rparr>" "vm t3 = vm t2"
    by (rule push_step [OF p2(2) _ _ assms(7), of "fst b3" x3]) (use k3 p1 p2 assms(6) in \<open>auto simp: nproc_def\<close>)
  let ?k' = "k3\<lparr>ksched := t3\<rparr>"
  have run: "kmain dev can kp b1 b2 b3 handover k = Done ?k'"
    using splash init(1) len l p1(1) p2(1) p3(1) by (simp add: kmain_def assms(8) [symmetric] Let_def)
  have pr: "proc t3 1 = y1" "proc t3 2 = y2" "proc t3 3 = y3"
    using assms(6) p1(3,4) p2(3,4) p3(3,4) k3(5) by (simp_all add: proc_def)
  have n: "nproc (ksched k3) = 1" "nproc t1 = 2" "nproc t2 = 3" "nproc t3 = 4"
    using p1(3) p2(3) p3(3) k3(5) by (simp_all add: nproc_def)
  have vm: "vm t3 = kvm k3" using p1(6) p2(6) p3(6) by simp
  have "pid (proc t3 i) = of_nat i \<and> runs_program (kmem k) elf phs ?k' (proc t3 i) \<and> mailbox (proc t3 i) = vec_init"
    if "i \<in> {1, 2, 3}" for i
    using that k3(10-12) runs_program_sched [OF vm, of "kmem k" elf phs]
      runs_program_pushed [OF k3(6)] runs_program_pushed [OF k3(7)] runs_program_pushed [OF k3(8)]
    by (auto simp: pr pr(1) [unfolded One_nat_def] p1(5) p2(5) p3(5) n)
  moreover have "distinct (map (\<lambda>i. pml (proc t3 i)) [1, 2, 3])" using k3(9)
    by (simp add: pr pr(1) [unfolded One_nat_def] p1(5) p2(5) p3(5))
  ultimately have "started dev (kmem k) elf phs ?k'" using p3(2) n k3(13) by (simp add: started_def)
  with run show ?thesis by blast
qed


text \<open>The machine of the loader's example before \<^verbatim>\<open>kmain\<close>, and a handover with its image as the test program.\<close>

definition demo_boot :: machine where
  "demo_boot = demo_loader\<lparr>ksched := (ksched demo_loader)\<lparr>last_pid := 1, pheap := (\<lambda>_. None)\<rparr>\<rparr>"

definition demo_handover :: handover where
  "demo_handover = empty_handover\<lparr>ho_modules :=
     [\<lparr>hm_name = cstring ''symbols'' @ [0], hm_addr = \<lparr>rbase = 0, rlength = 1\<rparr>\<rparr>,
      \<lparr>hm_name = cstring ''test_ipc'' @ [0], hm_addr = demo_elf\<rparr>]\<rparr>"

lemma demo_boot_fields: "kvm demo_boot = wide_vmm" "kmem demo_boot = kmem demo_loader" "elf_lock demo_boot = 0"
  by (simp_all add: demo_boot_def demo_kvm) (simp add: demo_loader_def)

lemma demo_boot_ok:
  "console_up idle_device demo_boot" "vm_ok (kvm demo_boot) (kernel_pml4 (kvm demo_boot))" "vmm_lock (kvm demo_boot) = 0"
  "sched_fresh (ksched demo_boot)" "demo_elf = handover_find_module demo_handover (cstring ''test_ipc'')"
  "image_ok (kpmm demo_boot) demo_elf" "program_ok (kmem demo_boot) demo_elf [demo_phdr]"
  "room (3 * load_cost [demo_phdr]) (kpmm demo_boot)"
proof -
  show "console_up idle_device demo_boot" using idle_responsive by (simp add: console_up_def demo_boot_def demo_loader_def)
  show "vm_ok (kvm demo_boot) (kernel_pml4 (kvm demo_boot))" "vmm_lock (kvm demo_boot) = 0" using wide_ok by (simp_all add: demo_boot_fields)
  show "sched_fresh (ksched demo_boot)" by (simp add: sched_fresh_def demo_boot_def demo_loader_def demo_sched_def)
  show "demo_elf = handover_find_module demo_handover (cstring ''test_ipc'')"
    by (simp add: handover_find_module_def demo_handover_def str_of_def cstring_def)
  show "room (3 * load_cost [demo_phdr]) (kpmm demo_boot)"
    using room_le [OF wide_room, of 45] by (simp add: demo_boot_fields demo_program(2))
  show "image_ok (kpmm demo_boot) demo_elf" using demo_image by (simp add: demo_boot_fields demo_kvm)
  show "program_ok (kmem demo_boot) demo_elf [demo_phdr]" using demo_program(1) by (simp add: demo_boot_fields)
qed


lemma started_world:
  "started dev m elf phs k \<Longrightarrow> wk w = k \<Longrightarrow> \<forall>i\<in>{1, 2, 3}. wtext w i = [] \<and> (\<exists>m. wprog w i = user_start m) \<Longrightarrow> test_world dev w"
  by (auto simp: test_world_def started_def running_def runs_program_def box_def vec_init_def)

section \<open>From the boot loader on\<close>

lemma image_ok_mono:
  "image_ok pm elf \<Longrightarrow> \<forall>a. byte_used pm a \<longrightarrow> byte_used pm' a \<Longrightarrow> image_ok pm' elf"
  by (simp add: image_ok_def)

lemma pit_init_Done: "\<exists>p'. pit_init 1000 p = Done p'"
  by (simp add: pit_init_def Let_def)

lemma arch_lines:
  "line_ok (cstring ''Initializing modules for x86-64'', [])" "line_ok (cstring ''Arch Initialized !'', [])"
  "value_short (fmtvals (cstring ''arch.c''))" "line_ok (cstring ''Booting from limine...'', [])"
  "value_short (fmtvals (cstring ''stivale_bootsrap.c''))"
  by (simp_all add: line_ok_def cstring_def fmtvals_def)

text \<open>
  What \<^verbatim>\<open>arch_init\<close> needs: \<open>pm\<close> is the page allocator \<^verbatim>\<open>pmm_init\<close> leaves behind, with room for the
  kernel's tables and \<open>n\<close> more pages.
\<close>

lemma arch_init_ok:
  assumes up: "console_up dev (comachine c)" and l: "vmm_lock (kvm (comachine c)) = 0"
    and pm: "pmm_init h (kpmm (comachine c)) = Done (h', pm)" "pmm_ok pm" "room (init_cost h' + n) pm"
    and fit: "\<forall>e\<in>set (ho_mmap h'). entry_fits e"
  obtains c' p v where "arch_init dev lk stacks h c = Done (h', c')"
    "comachine c' = (comachine c)\<lparr>ksched := (ksched (comachine c))\<lparr>vm := v\<rparr>, kports := p\<rparr>"
    "linear (kernel_map h') v (kernel_pml4 v)" "vmm_lock v = 0" "room n (vm_pmm v)" "\<forall>a. byte_used pm a \<longrightarrow> byte_used (vm_pmm v) a"
    "coidt c' = idt_init (at_vector lk) (at_kidt lk)"
proof -
  let ?k = "comachine c"
  obtain p1 where p1: "log_impl dev (cstring ''arch.c'') 50 (cstring ''Initializing modules for x86-64'') [] ?k = Done (?k\<lparr>kports := p1\<rparr>)"
    using log_returns [OF up arch_lines(1,3)] by blast
  obtain v where v: "vmm_init h' ((kvm ?k)\<lparr>vm_pmm := pm\<rparr>) = Done v" "linear (kernel_map h') v (kernel_pml4 v)" "vmm_lock v = 0"
    "room n (vm_pmm v)" "\<forall>a. byte_used pm a \<longrightarrow> byte_used (vm_pmm v) a"
    by (rule roomy.vmm_init_ok [of "(kvm ?k)\<lparr>vm_pmm := pm\<rparr>" h' n]) (use pm l fit in auto)
  obtain p2 where p2: "pit_init 1000 p1 = Done p2" using pit_init_Done by blast
  let ?k2 = "?k\<lparr>ksched := (ksched ?k)\<lparr>vm := v\<rparr>, kports := syscall_init (at_syscall lk) (pic_init p2)\<rparr>"
  have "console_up dev ?k2" using up by (simp add: console_up_def)
  from log_returns [OF this arch_lines(2,3)] obtain p3 where
    p3: "log_impl dev (cstring ''arch.c'') 61 (cstring ''Arch Initialized !'') [] ?k2 = Done (?k2\<lparr>kports := p3\<rparr>)"
    by blast
  obtain k0 k1 k2 where st: "stacks = (k0, k1, k2)" by (cases stacks) auto
  let ?c = "\<lparr>comachine = ?k2\<lparr>kports := p3\<rparr>, codesc = intstack_init k0 k1 k2 (gdt_init (at_tss lk) (codesc c)), coidt = idt_init (at_vector lk) (at_kidt lk)\<rparr>"
  have f: "vm (ksched (?k\<lparr>kports := p1\<rparr>)) = kvm ?k" "kports (?k\<lparr>kports := p1, ksched := s\<rparr>) = p1"
    "?k\<lparr>kports := p1, ksched := (ksched (?k\<lparr>kports := p1\<rparr>))\<lparr>vm := v\<rparr>, kports := q\<rparr> = ?k\<lparr>ksched := (ksched ?k)\<lparr>vm := v\<rparr>, kports := q\<rparr>" for s q
    by simp_all
  have "arch_init dev lk stacks h c = Done (h', ?c)"
    unfolding arch_init_def p1 bind_o.simps Let_def f(1) pm(1) v(1) prod.case st f(2) p2 f(3) p3
    by (cases c) simp
  then show thesis
  proof (rule that)
    show "linear (kernel_map h') v (kernel_pml4 v)" "vmm_lock v = 0" "room n (vm_pmm v)"
      "\<forall>a. byte_used pm a \<longrightarrow> byte_used (vm_pmm v) a" by (fact v)+
  qed simp_all
qed

text \<open>
  What the boot loader hands over and the state of the machine when it jumps to the kernel: \<open>h\<close> is
  the parsed handover, \<open>pm\<close> the page allocator \<^verbatim>\<open>pmm_init\<close> leaves behind, \<open>h'\<close> the handover with
  the place of the bitmap cut off.
\<close>

lemma entry_ok:
  assumes up: "console_up dev (comachine c)" and locks: "elf_lock (comachine c) = 0" "vmm_lock (kvm (comachine c)) = 0"
    and fresh: "sched_fresh (ksched (comachine c))" and blocks: "distinct [0, kp, fst b1, fst b2, fst b3]" "\<forall>n. can n"
    and h: "stivale2_parse_header garbage rsdp store tags = Done h"
    and pm: "pmm_init h (kpmm (comachine c)) = Done (h', pm)" "pmm_ok pm" "room (init_cost h' + 3 * load_cost phs) pm"
    and fit: "\<forall>e\<in>set (ho_mmap h'). entry_fits e" and elf: "elf = handover_find_module h' (cstring ''test_ipc'')"
    and img: "image_ok pm elf" and prog: "program_ok (kmem (comachine c)) elf phs"
  shows "\<exists>c'. stivale2_entry dev lk garbage rsdp store tags stacks can kp b1 b2 b3 c = Done c' \<and>
    started dev (kmem (comachine c)) elf phs (comachine c') \<and> coidt c' = idt_init (at_vector lk) (at_kidt lk)"
proof -
  let ?k = "comachine c"
  obtain p0 where p0: "log_impl dev (cstring ''stivale_bootsrap.c'') 54 (cstring ''Booting from limine...'') [] ?k = Done (?k\<lparr>kports := p0\<rparr>)"
    using log_returns [OF up arch_lines(4,5)] by blast
  let ?k0 = "?k\<lparr>kports := p0, symbols := register_symbols (handover_find_module h (cstring ''symbols'')) (symbols (?k\<lparr>kports := p0\<rparr>))\<rparr>"
  define c0 where "c0 = c\<lparr>comachine := ?k0\<rparr>"
  have c0: "comachine c0 = ?k0" by (simp add: c0_def)
  have e: "kvm (comachine c0) = kvm ?k" "console_up dev (comachine c0)" "vmm_lock (kvm (comachine c0)) = 0"
    unfolding c0 using up locks by (simp_all add: console_up_def)
  have pm0: "pmm_init h (kpmm (comachine c0)) = Done (h', pm)" using pm(1) by (simp add: c0)
  obtain c1 p v where a: "arch_init dev lk stacks h c0 = Done (h', c1)"
    "comachine c1 = (comachine c0)\<lparr>ksched := (ksched (comachine c0))\<lparr>vm := v\<rparr>, kports := p\<rparr>"
    "linear (kernel_map h') v (kernel_pml4 v)" "vmm_lock v = 0" "room (3 * load_cost phs) (vm_pmm v)"
    "\<forall>a. byte_used pm a \<longrightarrow> byte_used (vm_pmm v) a" "coidt c1 = idt_init (at_vector lk) (at_kidt lk)"
    by (rule arch_init_ok [OF e(2,3) pm0 pm(2,3) fit])
  let ?k1 = "?k0\<lparr>ksched := (ksched ?k)\<lparr>vm := v\<rparr>, kports := p\<rparr>"
  have c1: "comachine c1 = ?k1" unfolding a(2) c0 by simp
  have f: "kvm ?k1 = v" "kmem ?k1 = kmem ?k" "console_up dev ?k1" "elf_lock ?k1 = 0" "sched_fresh (ksched ?k1)"
    using up locks fresh by (simp_all add: console_up_def sched_fresh_def)
  have "\<exists>k'. kmain dev can kp b1 b2 b3 h' ?k1 = Done k' \<and> started dev (kmem ?k1) elf phs k'"
    by (rule kmain_ok) (use f a(3-5) blocks elf prog image_ok_mono [OF img a(6)] in \<open>simp_all add: linear_def\<close>)
  then obtain k' where k': "kmain dev can kp b1 b2 b3 h' ?k1 = Done k'" "started dev (kmem ?k) elf phs k'"
    unfolding f(2) by blast
  have "stivale2_entry dev lk garbage rsdp store tags stacks can kp b1 b2 b3 c = Done (c1\<lparr>comachine := k'\<rparr>)"
    unfolding stivale2_entry_def p0 bind_o.simps h Let_def c0_def [symmetric] a(1) prod.case c1 k'(1) by (rule refl)
  with k'(2) a(7) show ?thesis by (intro exI [of _ "c1\<lparr>comachine := k'\<rparr>"]) simp
qed


text \<open>A computer with a page for the modules and 512 MiB of free memory, just after the boot loader.\<close>

definition boot_tags :: "u64 \<Rightarrow> stivale2_tag option" where
  "boot_tags =
     [8 \<mapsto> \<lparr>tg_body = Tag_memmap [\<lparr>sm_base = 0x8000, sm_length = 0x1000, sm_type = 0x1001\<rparr>,
         \<lparr>sm_base = 0x100000, sm_length = 0x20000000, sm_type = 1\<rparr>], tg_next = 16\<rparr>,
      16 \<mapsto> \<lparr>tg_body = Tag_modules [\<lparr>st_begin = 0xffff800000008000, st_end = 0xffff80000000807a,
         st_string = cstring ''test_ipc'' @ [0]\<rparr>], tg_next = 0\<rparr>]"

definition bare_pmm :: pmm where
  "bare_pmm = \<lparr>bitmap = 0, bm = (\<lambda>_. 0), bitmap_size = 0, usable_pages = 0, last_page = 0, pmm_lock = 0\<rparr>"

definition demo_computer :: computer where
  "demo_computer = \<lparr>comachine = demo_boot\<lparr>ksched := (ksched demo_boot)\<lparr>vm := small_vmm\<lparr>vm_pmm := bare_pmm\<rparr>\<rparr>\<rparr>,
     codesc = demo_descriptors, coidt = ([], \<lparr>idt_limit = 0, idt_base = 0\<rparr>)\<rparr>"

definition boot_cut :: "mmap_entry list" where
  "boot_cut = [\<lparr>mm_range = \<lparr>rbase = 0x8000, rlength = 0x1000\<rparr>, mm_type = 0x1001, is_free = False\<rparr>,
     \<lparr>mm_range = \<lparr>rbase = 0x105000, rlength = 0x1fffb000\<rparr>, mm_type = 1, is_free = True\<rparr>]"

definition boot_pmm :: pmm where
  "boot_pmm = pmm_range_used \<lparr>rbase = 0x100000, rlength = 16416\<rparr>
     (unused_entries boot_cut \<lparr>bitmap = 0xffff800000100000, bm = (\<lambda>i. if i < 16416 then 0xff else 0), bitmap_size = 16416,
        usable_pages = 0, last_page = 0, pmm_lock = 0\<rparr>)"

lemma boot_header:
  obtains h where "stivale2_parse_header (replicate 128 7) (\<lambda>_. 0) boot_tags 8 = Done h"
    "ho_mmap h = [\<lparr>mm_range = \<lparr>rbase = 0x8000, rlength = 0x1000\<rparr>, mm_type = 0x1001, is_free = False\<rparr>,
       \<lparr>mm_range = \<lparr>rbase = 0x100000, rlength = 0x20000000\<rparr>, mm_type = 1, is_free = True\<rparr>]"
    "handover_find_module h (cstring ''test_ipc'') = demo_elf"
proof -
  let ?ts = "[the (boot_tags 8), the (boot_tags 16)]" and ?g = "replicate 128 7 :: u8 list"
  obtain h where h: "fold_tags ?g (\<lambda>_. 0) ?ts empty_handover = Done h" "ho_mmap h = map to_entry (memmaps ?ts)"
    "ho_modules h = map (to_module ?g) (mods ?ts)"
    using fold_tags_Done [of empty_handover ?ts ?g "\<lambda>_. 0"] by (auto simp: empty_handover_def boot_tags_def)
  have "tag_chain boot_tags 8 ?ts" by (simp add: boot_tags_def)
  from parse_tags_chain [OF this] h(1) have p: "stivale2_parse_header ?g (\<lambda>_. 0) boot_tags 8 = Done h"
    by (simp add: stivale2_parse_header_def)
  have m: "mods ?ts = [\<lparr>st_begin = 0xffff800000008000, st_end = 0xffff80000000807a, st_string = cstring ''test_ipc'' @ [0]\<rparr>]"
    by (simp add: boot_tags_def)
  have n: "str_of (cstring ''test_ipc'' @ [0]) = cstring ''test_ipc''" by (simp add: str_of_def cstring_def)
  have short: "\<forall>m\<in>set (mods ?ts). length (str_of (st_string m)) < 64" unfolding m by (simp add: n) (simp add: cstring_def)
  have "handover_find_module h name = (case find (\<lambda>m. str_of (st_string m) = name) (mods ?ts) of
      None \<Rightarrow> \<lparr>rbase = 0, rlength = 0\<rparr> | Some m \<Rightarrow> \<lparr>rbase = st_begin m, rlength = st_end m - st_begin m\<rparr>)" for name
    by (simp only: handover_find_module_def h(3) find_module_loop_map [OF short])
  from this [unfolded m, of "cstring ''test_ipc''"] have "handover_find_module h (cstring ''test_ipc'') = demo_elf"
    by (simp add: n demo_elf_def)
  moreover have "ho_mmap h = [\<lparr>mm_range = \<lparr>rbase = 0x8000, rlength = 0x1000\<rparr>, mm_type = 0x1001, is_free = False\<rparr>,
       \<lparr>mm_range = \<lparr>rbase = 0x100000, rlength = 0x20000000\<rparr>, mm_type = 1, is_free = True\<rparr>]"
    unfolding h(2) by (simp add: boot_tags_def to_entry_def STIVALE2_MMAP_USABLE_def)
  ultimately show thesis by (rule that [OF p, rotated])
qed

lemma boot_pmm_init:
  assumes "ho_mmap h = [\<lparr>mm_range = \<lparr>rbase = 0x8000, rlength = 0x1000\<rparr>, mm_type = 0x1001, is_free = False\<rparr>,
       \<lparr>mm_range = \<lparr>rbase = 0x100000, rlength = 0x20000000\<rparr>, mm_type = 1, is_free = True\<rparr>]"
  shows "pmm_init h bare_pmm = Done (h\<lparr>ho_mmap := boot_cut\<rparr>, boot_pmm)"
proof -
  let ?b = "16416 :: u64"
  have e: "range_end (mm_range (last (ho_mmap h))) div (PAGE_SIZE * 8) = ?b"
    by (simp add: assms range_end_def PAGE_SIZE_def)
  have p: "place_bitmap ?b (bitmap bare_pmm) (ho_mmap h) = (0xffff800000100000, boot_cut)"
    by (simp add: assms bare_pmm_def boot_cut_def ALIGN_UP_def PAGE_SIZE_def mmap_phys_to_io_def MMAP_IO_BASE_def)
  have b: "mmap_io_to_phys 0xffff800000100000 = 0x100000" by (simp add: mmap_io_to_phys_def MMAP_IO_BASE_def)
  have n: "memory_map_size h \<noteq> 0" by (simp add: memory_map_size_def assms)
  have u: "bitmap (unused_entries es s) = bitmap s" "bitmap_size (unused_entries es s) = bitmap_size s" for es s
    using unused_entries_spec [of es s] by simp_all
  show ?thesis
    using n by (simp add: pmm_init_def e p Let_def u b boot_pmm_def) (simp add: bare_pmm_def cong: if_cong)
qed

lemma boot_pmm_set:
  assumes "j < 16416"
  shows "is_set_pmm boot_pmm (of_nat j) \<longleftrightarrow> j < 0x105"
proof -
  let ?m = "\<lparr>bitmap = 0xffff800000100000, bm = (\<lambda>i. if i < 16416 then 0xff else 0), bitmap_size = 16416,
    usable_pages = 0, last_page = 0, pmm_lock = 0\<rparr> :: pmm"
  have m: "is_set_pmm ?m (of_nat j)" using is_set_memset [of j 16416 "?m\<lparr>bm := (\<lambda>_. 0)\<rparr>"] assms by (simp cong: if_cong)
  have u: "unat (of_nat j :: u64) = j" using assms by (intro unat_of_nat_less) simp
  have r: "in_pages \<lparr>rbase = 0x100000, rlength = 16416\<rparr> (of_nat j) \<longleftrightarrow> 0x100 \<le> j \<and> j < 0x104"
    "in_pages (entry_range (boot_cut ! 1)) (of_nat j) \<longleftrightarrow> 0x105 \<le> j"
    using assms u
    by (auto simp: in_pages_def boot_cut_def entry_range_def ALIGN_UP_def ALIGN_DOWN_def PAGE_SIZE_def word_less_nat_alt unat_sub_if')
  have "(\<exists>e\<in>set boot_cut. is_free e \<and> in_pages (entry_range e) (of_nat j)) \<longleftrightarrow> in_pages (entry_range (boot_cut ! 1)) (of_nat j)"
    by (simp add: boot_cut_def)
  then show ?thesis using m r unused_entries_spec [of boot_cut ?m "of_nat j"] by (auto simp: boot_pmm_def)
qed

lemma demo_page: "j < 122 \<Longrightarrow> mmap_io_to_phys (rbase demo_elf + of_nat j) div PAGE_SIZE = 8"
proof -
  assume j: "j < 122"
  then have "unat (of_nat j :: u64) = j" by (intro unat_of_nat_less) simp
  then have "unat (0x8000 + of_nat j :: u64) = 0x8000 + j" using j by (simp add: unat_plus_if')
  then have "unat ((0x8000 + of_nat j :: u64) div 4096) = 8" using j by (simp add: unat_div)
  then show ?thesis by (simp add: mmap_io_to_phys_def MMAP_IO_BASE_def PAGE_SIZE_def demo_elf_def word_unat_eq_iff)
qed

lemma boot_pmm_ok: "pmm_ok boot_pmm" "room 8000 boot_pmm" "image_ok boot_pmm demo_elf"
proof -
  let ?m = "\<lparr>bitmap = 0xffff800000100000, bm = (\<lambda>i. if i < 16416 then 0xff else 0), bitmap_size = 16416,
    usable_pages = 0, last_page = 0, pmm_lock = 0\<rparr> :: pmm"
  note u = unused_entries_spec [of boot_cut ?m 0]
  have f: "bitmap_size boot_pmm = 16416" "last_page boot_pmm = 0" "pmm_lock boot_pmm = 0" "usable_pages boot_pmm = 0x1fff7"
    using u by (simp_all add: boot_pmm_def PAGE_SIZE_def)
      (simp add: boot_cut_def entry_pages_def entry_range_def ALIGN_UP_def PAGE_SIZE_def)
  show ok: "pmm_ok boot_pmm" by (simp add: pmm_ok_def f)
  have "free_run boot_pmm p n" if "0x105 \<le> p" "p + n \<le> 16416" for p n
    using that by (auto simp: free_run_def list_all_iff boot_pmm_set)
  from this [of "0x105" 8000] have "free_run boot_pmm 0x105 8000" by (simp del: upt.simps)
  then show "room 8000 boot_pmm" unfolding room_def using ok by (auto simp: f intro!: exI [of _ "0x105"])
  show "image_ok boot_pmm demo_elf"
    using demo_page boot_pmm_set [of 8] by (simp add: image_ok_def byte_used_def) (simp add: demo_elf_def)
qed

lemma boot_fits: "\<forall>e\<in>set boot_cut. entry_fits e" "init_cost (h\<lparr>ho_mmap := boot_cut\<rparr>) = 6931"
proof -
  have a: "\<not> for_kernel (boot_cut ! 1)" "for_kernel (boot_cut ! 0)" "first_frame (boot_cut ! 0) = 8" "first_frame (boot_cut ! 1) = 0x105"
    "map_count (boot_cut ! 0) = 2" "map_count (boot_cut ! 1) = 0x1fffc"
    by (simp_all add: boot_cut_def for_kernel_def first_frame_def map_count_def STIVALE2_MMAP_KERNEL_AND_MODULES_def ALIGN_UP_def PAGE_SIZE_def)
  have s: "boot_cut = [boot_cut ! 0, boot_cut ! 1]" by (simp add: boot_cut_def)
  show "\<forall>e\<in>set boot_cut. entry_fits e" by (subst s) (simp add: entry_fits_def a a [unfolded One_nat_def])
  show "init_cost (h\<lparr>ho_mmap := boot_cut\<rparr>) = 6931" unfolding init_cost_def handover.simps
    by (subst s) (simp add: entry_cost_def a a [unfolded One_nat_def] tables_for_def)
qed

lemma demo_computer_fields:
  "kpmm (comachine demo_computer) = bare_pmm" "vmm_lock (kvm (comachine demo_computer)) = 0" "elf_lock (comachine demo_computer) = 0"
  "kmem (comachine demo_computer) = kmem demo_loader" "sched_fresh (ksched (comachine demo_computer))"
  "console_up idle_device (comachine demo_computer)"
  using demo_boot_ok(1,4) demo_boot_fields small_vmm_ok(4) by (simp_all add: demo_computer_def sched_fresh_def console_up_def)


text \<open>Without the test program among the modules \<^verbatim>\<open>kmain\<close> stops at its assertion.\<close>

lemma find_module_absent:
  "\<forall>m\<in>set (ho_modules h). str_of (hm_name m) \<noteq> name \<Longrightarrow> handover_find_module h name = \<lparr>rbase = 0, rlength = 0\<rparr>"
proof -
  have "\<forall>m\<in>set ms. str_of (hm_name m) \<noteq> name \<Longrightarrow> find_module_loop ms name = \<lparr>rbase = 0, rlength = 0\<rparr>" for ms
    by (induction ms) auto
  then show "\<forall>m\<in>set (ho_modules h). str_of (hm_name m) \<noteq> name \<Longrightarrow> ?thesis" by (simp add: handover_find_module_def)
qed

lemma kmain_without_program:
  assumes "console_up dev k" "sched_fresh (ksched k)" "kp \<noteq> 0" "\<forall>n. can n"
    and "\<forall>m\<in>set (ho_modules h). str_of (hm_name m) \<noteq> cstring ''test_ipc''"
  shows "kmain dev can kp b1 b2 b3 h k = Fault Assert_failed"
proof -
  obtain p where "kernel_splash dev k = Done (k\<lparr>kports := p\<rparr>)" using kernel_splash_returns [OF assms(1)] by blast
  moreover obtain s where "sched_init can kp (ksched k) = Done s"
    by (rule sched_init_first [OF assms(2-4)])
  ultimately show ?thesis using find_module_absent [OF assms(5)] by (simp add: kmain_def Let_def)
qed

end
